(* ===== verification/Taurus_Prelude.thy ===== *)
theory Taurus_Prelude
  imports Main "HOL-Library.Word" "HOL-Library.FSet" "HOL-Library.Finite_Map"
    "HOL-Library.Monad_Syntax"
begin

text \<open>
  What every component of the model shares: the names of the machine types, the two ways a
  Rust computation can stop without a value, the traversals of iterators in that setting, and
  lemmas on lists, finite sets and finite maps.

  A value of type \<open>'a option\<close>, sequenced with the \<open>do\<close> notation of the library,
  is a Rust computation: \<open>None\<close> is a crash (a failed index, \<open>unwrap\<close> or
  \<open>expect\<close>, an overflow of the stack by unbounded recursion), \<open>Some r\<close> a return. A
  Rust \<open>Result<T, E>\<close> is the sum \<open>'e + 't\<close>, with \<open>Inl\<close> for
  \<open>Err\<close>, so a fallible function has the type \<open>('e + 't) option\<close>.
\<close>

section \<open>Machine types\<close>

type_synonym u8 = "8 word"
type_synonym u32 = "32 word"
type_synonym u64 = "64 word"

text \<open>The collections of rewrite rules the components fill and their proofs use.\<close>

named_theorems run_simps \<open>evaluation of computations that may crash\<close>
named_theorems frame_simps \<open>fields an operation leaves as they are\<close>
named_theorems eval_simps \<open>evaluation of closed terms of the model\<close>

section \<open>Sequencing fallible computations\<close>

text \<open>The \<open>?\<close> operator: stop with the error, or go on with the value.\<close>

definition try_bind :: "('e + 'a) option \<Rightarrow> ('a \<Rightarrow> ('e + 'b) option) \<Rightarrow> ('e + 'b) option" where
  "try_bind m f = do { r \<leftarrow> m; case r of Inl e \<Rightarrow> Some (Inl e) | Inr x \<Rightarrow> f x }"

text \<open>\<open>map\<close> and \<open>collect\<close> where the closure may crash.\<close>

primrec run_map :: "('a \<Rightarrow> 'b option) \<Rightarrow> 'a list \<Rightarrow> 'b list option" where
  "run_map f [] = Some []"
| "run_map f (x # xs) = do { y \<leftarrow> f x; ys \<leftarrow> run_map f xs; Some (y # ys) }"

text \<open>\<open>map\<close> and \<open>try_collect\<close> where the closure is fallible and may crash.\<close>

primrec try_map :: "('a \<Rightarrow> ('e + 'b) option) \<Rightarrow> 'a list \<Rightarrow> ('e + 'b list) option" where
  "try_map f [] = Some (Inr [])"
| "try_map f (x # xs) =
     try_bind (f x) (\<lambda>y. try_bind (try_map f xs) (\<lambda>ys. Some (Inr (y # ys))))"

text \<open>\<open>filter\<close> where the predicate may crash.\<close>

primrec run_filter :: "('a \<Rightarrow> bool option) \<Rightarrow> 'a list \<Rightarrow> 'a list option" where
  "run_filter p [] = Some []"
| "run_filter p (x # xs) =
     do { b \<leftarrow> p x; ys \<leftarrow> run_filter p xs; Some (if b then x # ys else ys) }"

text \<open>\<open>any\<close> and \<open>all\<close>, which stop at the first hit, where the predicate may crash.\<close>

primrec run_any :: "('a \<Rightarrow> bool option) \<Rightarrow> 'a list \<Rightarrow> bool option" where
  "run_any p [] = Some False"
| "run_any p (x # xs) = do { b \<leftarrow> p x; if b then Some True else run_any p xs }"

primrec run_all :: "('a \<Rightarrow> bool option) \<Rightarrow> 'a list \<Rightarrow> bool option" where
  "run_all p [] = Some True"
| "run_all p (x # xs) = do { b \<leftarrow> p x; if b then run_all p xs else Some False }"

text \<open>A \<open>for\<close> loop over a list whose body changes the state and may crash.\<close>

primrec run_fold :: "('a \<Rightarrow> 's \<Rightarrow> 's option) \<Rightarrow> 'a list \<Rightarrow> 's \<Rightarrow> 's option" where
  "run_fold f [] s = Some s"
| "run_fold f (x # xs) s = do { s' \<leftarrow> f x s; run_fold f xs s' }"

lemma try_bind_simps [simp, run_simps]:
  "try_bind None f = None"
  "try_bind (Some (Inl e)) f = Some (Inl e)"
  "try_bind (Some (Inr x)) f = f x"
  by (simp_all add: try_bind_def)

lemma try_bind_eq_Some_Inr:
  "try_bind m f = Some (Inr y) \<longleftrightarrow> (\<exists>x. m = Some (Inr x) \<and> f x = Some (Inr y))"
  by (cases m) (auto simp: try_bind_def split: sum.splits)

lemma try_bind_eq_None:
  "try_bind m f = None \<longleftrightarrow> m = None \<or> (\<exists>x. m = Some (Inr x) \<and> f x = None)"
  by (cases m) (auto simp: try_bind_def split: sum.splits)

lemma run_map_total: "(\<And>x. x \<in> set xs \<Longrightarrow> f x = Some (g x)) \<Longrightarrow> run_map f xs = Some (map g xs)"
  by (induction xs) auto

lemma run_map_exists: "(\<And>x. x \<in> set xs \<Longrightarrow> \<exists>y. f x = Some y) \<Longrightarrow> \<exists>ys. run_map f xs = Some ys"
  by (induction xs) (fastforce simp: bind_eq_Some_conv)+

lemma run_map_SomeD:
  "run_map f xs = Some ys \<Longrightarrow> length ys = length xs \<and> (\<forall>i < length xs. f (xs ! i) = Some (ys ! i))"
proof (induction xs arbitrary: ys)
  case (Cons x xs)
  then obtain y zs where "f x = Some y" "run_map f xs = Some zs" "ys = y # zs"
    by (auto simp: bind_eq_Some_conv)
  with Cons.IH[of zs] show ?case by (auto simp: nth_Cons split: nat.splits)
qed simp

lemma run_map_Some_set: "run_map f xs = Some ys \<Longrightarrow> set ys = {y. \<exists>x \<in> set xs. f x = Some y}"
proof (induction xs arbitrary: ys)
  case (Cons x xs)
  then show ?case by (fastforce simp: bind_eq_Some_conv)
qed simp

lemma run_filter_total:
  "(\<And>x. x \<in> set xs \<Longrightarrow> p x = Some (q x)) \<Longrightarrow> run_filter p xs = Some (filter q xs)"
  by (induction xs) auto

lemma run_any_total:
  "(\<And>x. x \<in> set xs \<Longrightarrow> p x = Some (q x)) \<Longrightarrow> run_any p xs = Some (\<exists>x \<in> set xs. q x)"
  by (induction xs) auto

lemma run_all_total:
  "(\<And>x. x \<in> set xs \<Longrightarrow> p x = Some (q x)) \<Longrightarrow> run_all p xs = Some (\<forall>x \<in> set xs. q x)"
  by (induction xs) auto

lemma run_fold_append [run_simps]:
  "run_fold f (xs @ ys) s = do { s' \<leftarrow> run_fold f xs s; run_fold f ys s' }"
  by (induction xs arbitrary: s) auto

text \<open>
  A loop keeps what its body keeps, and returns where its body returns: the invariant may
  speak of the part of the list already done.
\<close>

lemma run_fold_invariant:
  assumes "I s"
    and "\<And>x s. x \<in> set xs \<Longrightarrow> I s \<Longrightarrow> \<exists>s'. f x s = Some s' \<and> I s'"
  shows "\<exists>s'. run_fold f xs s = Some s' \<and> I s'"
  using assms
proof (induction xs arbitrary: s)
  case (Cons x xs)
  then obtain s1 where "f x s = Some s1" "I s1" by force
  with Cons.IH[of s1] Cons.prems show ?case by simp
qed simp

lemma run_fold_prefix_invariant:
  assumes "I [] s"
    and "\<And>pre x post s. xs = pre @ x # post \<Longrightarrow> I pre s \<Longrightarrow> \<exists>s'. f x s = Some s' \<and> I (pre @ [x]) s'"
  shows "\<exists>s'. run_fold f xs s = Some s' \<and> I xs s'"
  using assms
proof (induction xs arbitrary: s rule: rev_induct)
  case (snoc x xs)
  have "\<exists>s'. run_fold f xs s = Some s' \<and> I xs s'"
    by (rule snoc.IH) (use snoc.prems in \<open>auto\<close>)
  then obtain s1 where s1: "run_fold f xs s = Some s1" "I xs s1" by blast
  then obtain s2 where "f x s1 = Some s2" "I (xs @ [x]) s2"
    using snoc.prems(2)[of xs x "[]" s1] by auto
  with s1 show ?case by (simp add: run_fold_append)
qed simp

lemma run_fold_preserves:
  assumes "run_fold f xs s = Some s'" and "I s"
    and "\<And>x s s'. x \<in> set xs \<Longrightarrow> f x s = Some s' \<Longrightarrow> I s \<Longrightarrow> I s'"
  shows "I s'"
  using assms
proof (induction xs arbitrary: s)
  case (Cons x xs)
  then show ?case by (fastforce simp: bind_eq_Some_conv)
qed simp

section \<open>Lists\<close>

text \<open>\<open>Itertools::unique\<close> keeps the first occurrence of each element.\<close>

fun unique :: "'a list \<Rightarrow> 'a list" where
  "unique [] = []"
| "unique (x # xs) = x # unique (filter (\<lambda>y. y \<noteq> x) xs)"

lemma set_unique [simp]: "set (unique xs) = set xs"
  by (induction xs rule: unique.induct) auto

lemma distinct_unique [simp]: "distinct (unique xs)"
  by (induction xs rule: unique.induct) auto

lemma unique_distinct [simp]: "distinct xs \<Longrightarrow> unique xs = xs"
proof (induction xs rule: unique.induct)
  case (2 x xs)
  then have "filter (\<lambda>y. y \<noteq> x) xs = xs" by (auto intro: filter_True)
  with 2 show ?case by simp
qed simp

lemma length_unique: "length (unique xs) = card (set xs)"
  by (metis distinct_card distinct_unique set_unique)

lemma length_unique_eq_iff: "length (unique xs) = length xs \<longleftrightarrow> distinct xs"
  by (metis card_distinct distinct_card length_unique)

text \<open>Indexing a slice: a crash out of range.\<close>

definition slice_get :: "'a list \<Rightarrow> nat \<Rightarrow> 'a option" where
  "slice_get xs i = (if i < length xs then Some (xs ! i) else None)"

lemma slice_get_Some [simp, run_simps]: "i < length xs \<Longrightarrow> slice_get xs i = Some (xs ! i)"
  by (simp add: slice_get_def)

lemma foldr_funion: "fset (foldr (|\<union>|) Ss S) = fset S \<union> (\<Union>T \<in> set Ss. fset T)"
  by (induction Ss) auto

text \<open>The maximum of an iterator: \<open>None\<close> for an empty one.\<close>

definition max_opt :: "'a::linorder list \<Rightarrow> 'a option" where
  "max_opt xs = (case xs of [] \<Rightarrow> None | y # ys \<Rightarrow> Some (fold max ys y))"

definition min_opt :: "'a::linorder list \<Rightarrow> 'a option" where
  "min_opt xs = (case xs of [] \<Rightarrow> None | y # ys \<Rightarrow> Some (fold min ys y))"

lemma max_opt_simps [simp, run_simps]:
  "max_opt [] = None" "max_opt (y # ys) = Some (fold max ys y)"
  by (simp_all add: max_opt_def)

lemma min_opt_simps [simp, run_simps]:
  "min_opt [] = None" "min_opt (y # ys) = Some (fold min ys y)"
  by (simp_all add: min_opt_def)

lemma max_opt_Max: "xs \<noteq> [] \<Longrightarrow> max_opt xs = Some (Max (set xs))"
  by (cases xs) (simp_all add: Max.set_eq_fold del: list.set)

lemma min_opt_Min: "xs \<noteq> [] \<Longrightarrow> min_opt xs = Some (Min (set xs))"
  by (cases xs) (simp_all add: Min.set_eq_fold del: list.set)

section \<open>Hash maps\<close>

text \<open>
  A \<open>HashMap\<close> is a finite map, a \<open>HashSet\<close> a finite set. \<open>try_insert\<close>
  leaves an entry that is already there.
\<close>

definition map_try_insert :: "'k \<Rightarrow> 'v \<Rightarrow> ('k, 'v) fmap \<Rightarrow> ('k, 'v) fmap" where
  "map_try_insert k v m = (if k |\<in>| fmdom m then m else fmupd k v m)"

lemma lookup_map_try_insert [simp, run_simps]:
  "fmlookup (map_try_insert k v m) j =
     (if j = k \<and> fmlookup m k = None then Some v else fmlookup m j)"
  by (auto simp: map_try_insert_def fmlookup_dom_iff)

lemma fmdom_map_try_insert [simp]: "fmdom (map_try_insert k v m) = finsert k (fmdom m)"
  by (auto simp: map_try_insert_def)

lemma lookup_fold_drop [simp]:
  "fmlookup (fold fmdrop ks m) j = (if j \<in> set ks then None else fmlookup m j)"
  by (induction ks arbitrary: m) auto

end
