(* ===== verification/Taurus_Hash.thy ===== *)
theory Taurus_Hash
  imports Taurus_Prelude "HOL-Library.List_Lexorder"
begin

text \<open>
  \<open>src/hash.rs\<close>: the 32-byte hash that names a vertex, a namespace or a transaction root.
  The type is the Rust array \<open>[u8; 32]\<close>, ordered as arrays are. The digest itself
  (the crate \<open>blake3\<close>) and the hexadecimal encoder (the crate \<open>hex\<close>) are not
  part of the repository and appear as arguments.
\<close>

definition HASH_LEN :: nat where
  "HASH_LEN = 32"

typedef hash = "{bs :: u8 list. length bs = HASH_LEN}" morphisms bytes_of Hash
  by (rule exI[of _ "replicate HASH_LEN 0"]) simp

setup_lifting type_definition_hash

text \<open>\<open>Hash::as_slice\<close>.\<close>

definition as_slice :: "hash \<Rightarrow> u8 list" where
  "as_slice h = bytes_of h"

lemma length_as_slice [simp]: "length (as_slice h) = 32"
  using bytes_of[of h] by (simp add: as_slice_def HASH_LEN_def)

lemma as_slice_inject [simp]: "as_slice a = as_slice b \<longleftrightarrow> a = b"
  by (simp add: as_slice_def bytes_of_inject)

text \<open>
  \<open>Hash::with_bytes\<close> takes an array; \<open>try_into\<close> makes the array of a slice and
  fails on any other length.
\<close>

definition with_bytes :: "u8 list \<Rightarrow> hash option" where
  "with_bytes bs = (if length bs = HASH_LEN then Some (Hash bs) else None)"

lemma as_slice_Hash: "length bs = 32 \<Longrightarrow> as_slice (Hash bs) = bs"
  by (simp add: as_slice_def Hash_inverse HASH_LEN_def)

lemma Hash_as_slice [simp]: "Hash (as_slice h) = h"
  by (simp add: as_slice_def bytes_of_inverse)

lemma with_bytes_as_slice [simp]: "with_bytes (as_slice h) = Some h"
  by (simp add: with_bytes_def HASH_LEN_def)

lemma with_bytes_Some_iff: "with_bytes bs = Some h \<longleftrightarrow> as_slice h = bs"
  by (auto simp: with_bytes_def HASH_LEN_def as_slice_Hash split: if_splits)

lemma with_bytes_None_iff: "with_bytes bs = None \<longleftrightarrow> length bs \<noteq> 32"
  by (simp add: with_bytes_def HASH_LEN_def)

text \<open>The derived order compares the arrays lexicographically.\<close>

instantiation hash :: linorder
begin

definition less_eq_hash :: "hash \<Rightarrow> hash \<Rightarrow> bool" where
  "less_eq_hash a b \<longleftrightarrow> as_slice a \<le> as_slice b"

definition less_hash :: "hash \<Rightarrow> hash \<Rightarrow> bool" where
  "less_hash a b \<longleftrightarrow> as_slice a < as_slice b"

instance
proof
  fix x y z :: hash
  show "x < y \<longleftrightarrow> x \<le> y \<and> \<not> y \<le> x"
    by (simp add: less_eq_hash_def less_hash_def less_le_not_le)
  show "x \<le> x" by (simp add: less_eq_hash_def)
  show "x \<le> y \<Longrightarrow> y \<le> z \<Longrightarrow> x \<le> z"
    unfolding less_eq_hash_def by (rule order_trans)
  show "x \<le> y \<Longrightarrow> y \<le> x \<Longrightarrow> x = y"
    unfolding less_eq_hash_def using order_antisym[of "as_slice x" "as_slice y"] by simp
  show "x \<le> y \<or> y \<le> x"
    unfolding less_eq_hash_def by (rule linear)
qed

end

instantiation hash :: equal
begin

definition equal_hash :: "hash \<Rightarrow> hash \<Rightarrow> bool" where
  "equal_hash a b \<longleftrightarrow> as_slice a = as_slice b"

instance
  by standard (simp add: equal_hash_def)

end

text \<open>\<open>Hash::default\<close>: all bytes zero.\<close>

definition default_hash :: hash where
  "default_hash = Hash (replicate HASH_LEN 0)"

lemma bytes_of_default_hash [code abstract]: "bytes_of default_hash = replicate HASH_LEN 0"
  by (simp add: default_hash_def Hash_inverse)

text \<open>\<open>Hash::to_hex\<close> and \<open>Hash::to_short_hex\<close>, over the encoder of the crate \<open>hex\<close>.\<close>

definition to_hex :: "(u8 list \<Rightarrow> string) \<Rightarrow> hash \<Rightarrow> string" where
  "to_hex hex_encode h = hex_encode (as_slice h)"

definition to_short_hex :: "(u8 list \<Rightarrow> string) \<Rightarrow> hash \<Rightarrow> string" where
  "to_short_hex hex_encode h = hex_encode (take 4 (as_slice h)) @ ''..''"

text \<open>\<open>Display\<close> writes the short form.\<close>

definition hash_display :: "(u8 list \<Rightarrow> string) \<Rightarrow> hash \<Rightarrow> string" where
  "hash_display hex_encode h = to_short_hex hex_encode h"

text \<open>
  The conversions from and to the hash type of \<open>blake3\<close>, over its \<open>as_bytes\<close> and
  its \<open>From<[u8; 32]>\<close>; and a random hash, over the bytes the generator fills in.
\<close>

definition hash_from_blake3 :: "('b \<Rightarrow> u8 list) \<Rightarrow> 'b \<Rightarrow> hash" where
  "hash_from_blake3 as_bytes b = Hash (as_bytes b)"

definition hash_into_blake3 :: "(u8 list \<Rightarrow> 'b) \<Rightarrow> hash \<Rightarrow> 'b" where
  "hash_into_blake3 from_bytes h = from_bytes (as_slice h)"

definition hash_random :: "u8 list \<Rightarrow> hash option" where
  "hash_random filled = with_bytes filled"

lemma blake3_conversions:
  assumes "\<And>bs. length bs = 32 \<Longrightarrow> as_bytes (from_bytes bs) = bs"
  shows "hash_from_blake3 as_bytes (hash_into_blake3 from_bytes h) = h"
  using assms by (simp add: hash_from_blake3_def hash_into_blake3_def)

section \<open>Hashes for concrete runs\<close>

text \<open>The hash whose last byte is given and whose other bytes are zero.\<close>

definition byte_hash :: "u8 \<Rightarrow> hash" where
  "byte_hash b = Hash (replicate 31 0 @ [b])"

lemma as_slice_byte_hash: "as_slice (byte_hash b) = replicate 31 0 @ [b]"
  by (simp add: byte_hash_def as_slice_Hash)

lemma bytes_of_byte_hash [code abstract]: "bytes_of (byte_hash b) = replicate 31 0 @ [b]"
  using as_slice_byte_hash[of b] by (simp add: as_slice_def)

lemma byte_hash_eq [simp, eval_simps]: "byte_hash a = byte_hash b \<longleftrightarrow> a = b"
  by (metis append_same_eq as_slice_byte_hash last_snoc)

lemma append_less_append [simp]: "(xs @ ys :: 'a::linorder list) < xs @ zs \<longleftrightarrow> ys < zs"
  by (induction xs) auto

lemma byte_hash_less [simp, eval_simps]: "byte_hash a < byte_hash b \<longleftrightarrow> a < b"
  by (simp add: less_hash_def as_slice_byte_hash)

lemma byte_hash_le [simp, eval_simps]: "byte_hash a \<le> byte_hash b \<longleftrightarrow> a \<le> b"
  by (simp add: le_less)

end
