(* ===== verification/Vertex.thy ===== *)
theory Vertex
  imports Taurus_Hash
begin

text \<open>
  \<open>src/consensus/vertex.rs\<close> and \<open>src/consensus/namespace.rs\<close>: the vertex, its
  sanity checks and constructors, the ordering constraints between vertices, the key that maps a
  constraint and its opposite to one conflict set, and the iterator over the constraints a vertex
  commits to.

  The hash of a vertex (\<open>blake3\<close> of its wire encoding) is an argument here; the theory
  \<open>Wire\<close> says how the code computes it. A \<open>DateTime<Utc>\<close> of the crate
  \<open>chrono\<close> is read as an integer instant, and \<open>Utc::now()\<close> is an argument.
\<close>

section \<open>Vertices\<close>

definition VERSION :: u32 where
  "VERSION = 1"

text \<open>
  The errors of the crate \<open>prost\<close> are opaque: their variants carry no data here.
\<close>

datatype hash_error = HashProstDecode | HashProstEncode | TryFromSlice

datatype vertex_error =
    BadVersion u32 u32
  | DuplicateParents
  | MissingField string
  | VxProstDecode
  | VxProstEncode
  | VxHash hash_error

record vertex =
  vx_version :: u32
  vx_height :: u64
  vx_parents :: "hash list"
  vx_namespace_id :: hash
  vx_root :: hash
  vx_timestamp :: int

definition empty_vertex :: "int \<Rightarrow> vertex" where
  "empty_vertex now =
     \<lparr>vx_version = VERSION, vx_height = 0, vx_parents = [], vx_namespace_id = default_hash,
      vx_root = default_hash, vx_timestamp = now\<rparr>"

text \<open>\<open>Vertex::default()\<close>, which is derived.\<close>

definition default_vertex :: vertex where
  "default_vertex =
     \<lparr>vx_version = 0, vx_height = 0, vx_parents = [], vx_namespace_id = default_hash,
      vx_root = default_hash, vx_timestamp = 0\<rparr>"

text \<open>
  \<open>with_parents\<close>: the height is one more than the greatest height among the parents, in
  64-bit arithmetic.
\<close>

definition with_parents ::
  "(vertex \<Rightarrow> hash) \<Rightarrow> vertex \<Rightarrow> vertex list \<Rightarrow> (vertex_error + vertex) option" where
  "with_parents H vx ps =
     (let heights = map vx_height ps; hashes = map H ps in
      if heights = [] then Some (Inl (MissingField ''parents''))
      else if length hashes \<noteq> length (unique hashes) then Some (Inl DuplicateParents)
      else do { m \<leftarrow> max_opt heights;
                Some (Inr (vx\<lparr>vx_height := 1 + m, vx_parents := hashes\<rparr>)) })"

text \<open>A namespace is its label, the bytes of a string; its identifier is the label's digest.\<close>

datatype namespace = Namespace "u8 list"

primrec namespace_id :: "(u8 list \<Rightarrow> hash) \<Rightarrow> namespace \<Rightarrow> hash" where
  "namespace_id blake3 (Namespace name) = blake3 name"

definition in_namespace ::
  "(u8 list \<Rightarrow> hash) \<Rightarrow> vertex \<Rightarrow> namespace \<Rightarrow> vertex_error + vertex" where
  "in_namespace blake3 vx ns = Inr (vx\<lparr>vx_namespace_id := namespace_id blake3 ns\<rparr>)"

definition sanity_checks :: "vertex \<Rightarrow> vertex_error + unit" where
  "sanity_checks vx =
     (if vx_version vx \<noteq> VERSION then Inl (BadVersion VERSION (vx_version vx))
      else if vx_parents vx = [] then Inl (MissingField ''parents'')
      else if length (vx_parents vx) \<noteq> length (unique (vx_parents vx)) then Inl DuplicateParents
      else Inr ())"

lemma sanity_checks_ok_iff:
  "sanity_checks vx = Inr () \<longleftrightarrow>
     vx_version vx = VERSION \<and> vx_parents vx \<noteq> [] \<and> distinct (vx_parents vx)"
  by (auto simp: sanity_checks_def length_unique_eq_iff eq_commute[of "length (vx_parents vx)"])

lemma with_parents_total: "\<exists>r. with_parents H vx ps = Some r"
  by (cases ps) (auto simp: with_parents_def Let_def)

text \<open>
  \<open>Display\<close> writes the JSON of a copy whose hashes are in hexadecimal; a failure of the
  JSON writer (the crate \<open>serde_json\<close>) is a crash.
\<close>

record pretty_vertex =
  py_version :: u32
  py_height :: u64
  py_parents :: "string list"
  py_namespace_id :: string
  py_tx_root :: string
  py_timestamp :: int

definition pretty_vertex_of :: "(u8 list \<Rightarrow> string) \<Rightarrow> vertex \<Rightarrow> pretty_vertex" where
  "pretty_vertex_of hex_encode vx =
     \<lparr>py_version = vx_version vx, py_height = vx_height vx,
      py_parents = map (to_hex hex_encode) (vx_parents vx),
      py_namespace_id = to_hex hex_encode (vx_namespace_id vx),
      py_tx_root = to_hex hex_encode (vx_root vx), py_timestamp = vx_timestamp vx\<rparr>"

definition vertex_display ::
  "(u8 list \<Rightarrow> string) \<Rightarrow> (pretty_vertex \<Rightarrow> string option) \<Rightarrow> vertex \<Rightarrow> string option" where
  "vertex_display hex_encode to_string_pretty vx = to_string_pretty (pretty_vertex_of hex_encode vx)"

section \<open>Ordering constraints\<close>

text \<open>
  \<open>Constraint a b\<close> puts the vertex named \<open>a\<close> before the one named \<open>b\<close>. The
  derived order compares the components one after the other.
\<close>

datatype constraint = Constraint (before: hash) (after: hash)

instantiation constraint :: linorder
begin

definition less_eq_constraint :: "constraint \<Rightarrow> constraint \<Rightarrow> bool" where
  "less_eq_constraint c d \<longleftrightarrow>
     before c < before d \<or> before c = before d \<and> after c \<le> after d"

definition less_constraint :: "constraint \<Rightarrow> constraint \<Rightarrow> bool" where
  "less_constraint c d \<longleftrightarrow>
     before c < before d \<or> before c = before d \<and> after c < after d"

instance
  by standard
    (auto simp: less_eq_constraint_def less_constraint_def constraint.expand split: if_splits)

end

definition is_unity :: "constraint \<Rightarrow> bool" where
  "is_unity c \<longleftrightarrow> before c = after c"

abbreviation unity :: "hash \<Rightarrow> constraint" where
  "unity h \<equiv> Constraint h h"

definition conflict :: "constraint \<Rightarrow> constraint option" where
  "conflict c = (if \<not> is_unity c then Some (Constraint (after c) (before c)) else None)"

text \<open>The key of a conflict set: the smaller hash, then the greater one, in 64 bytes.\<close>

definition constraint_display :: "(u8 list \<Rightarrow> string) \<Rightarrow> constraint \<Rightarrow> string" where
  "constraint_display hex_encode c =
     ''Constraint('' @ to_short_hex hex_encode (before c) @ '', '' @ to_short_hex hex_encode (after c) @ '')''"

datatype conflict_set_key = ConflictSetKey "u8 list"

definition conflict_set_key :: "constraint \<Rightarrow> conflict_set_key" where
  "conflict_set_key c =
     (let (lt, gt) = (if before c < after c then (before c, after c) else (after c, before c))
      in ConflictSetKey (as_slice lt @ as_slice gt))"

definition opposite :: "constraint \<Rightarrow> constraint" where
  "opposite c = Constraint (after c) (before c)"

lemma opposite_simps [simp]:
  "opposite (Constraint a b) = Constraint b a"
  "opposite (opposite c) = c"
  "before (opposite c) = after c"
  "after (opposite c) = before c"
  "is_unity (opposite c) = is_unity c"
  by (simp_all add: opposite_def is_unity_def eq_commute)

lemma is_unity_Constraint [simp, eval_simps]: "is_unity (Constraint a b) \<longleftrightarrow> a = b"
  by (simp add: is_unity_def)

lemma opposite_eq_self_iff [simp]: "opposite c = c \<longleftrightarrow> is_unity c"
  by (cases c) (auto simp: is_unity_def)

lemma self_eq_opposite_iff [simp]: "c = opposite c \<longleftrightarrow> is_unity c"
  by (metis opposite_eq_self_iff)

lemma unity_opposite [simp]: "is_unity c \<Longrightarrow> opposite c = c"
  by simp

lemma opposite_eq_iff [simp]: "opposite c = opposite d \<longleftrightarrow> c = d"
  by (metis opposite_simps(2))

lemma conflict_eq: "conflict c = (if is_unity c then None else Some (opposite c))"
  by (simp add: conflict_def opposite_def)

lemma conflict_set_key_eq_iff:
  "conflict_set_key c = conflict_set_key d \<longleftrightarrow> d = c \<or> d = opposite c"
proof -
  have app: "as_slice a @ as_slice b = as_slice x @ as_slice y \<longleftrightarrow> a = x \<and> b = y" for a b x y
    by (subst append_eq_append_conv) simp_all
  show ?thesis
    by (cases c; cases d)
       (auto simp: conflict_set_key_def Let_def app eq_commute split: if_splits)
qed

lemma conflict_set_key_opposite [simp]: "conflict_set_key (opposite c) = conflict_set_key c"
  by (subst conflict_set_key_eq_iff) simp

lemma conflict_set_key_eval [eval_simps]:
  "conflict_set_key (Constraint a b) = conflict_set_key (Constraint x y) \<longleftrightarrow>
     (x = a \<and> y = b) \<or> (x = b \<and> y = a)"
  by (simp add: conflict_set_key_eq_iff)

section \<open>The constraints a vertex commits to\<close>

text \<open>The iterator \<open>Constraints\<close>: its state and its \<open>next\<close>.\<close>

record constraints_iter =
  ci_vertices :: "hash list"
  ci_idx1 :: nat
  ci_idx2 :: nat

definition constraints_new :: "hash list \<Rightarrow> constraints_iter" where
  "constraints_new vs = \<lparr>ci_vertices = vs, ci_idx1 = 0, ci_idx2 = 1\<rparr>"

definition constraints_next :: "constraints_iter \<Rightarrow> (constraint option \<times> constraints_iter) option" where
  "constraints_next it =
     (if ci_idx1 it + 1 \<ge> length (ci_vertices it)
      then Some (if ci_vertices it = [] then (None, it)
                 else (Some (unity (last (ci_vertices it))),
                       it\<lparr>ci_vertices := butlast (ci_vertices it)\<rparr>))
      else do {
        a \<leftarrow> slice_get (ci_vertices it) (ci_idx1 it);
        b \<leftarrow> slice_get (ci_vertices it) (ci_idx2 it);
        let it1 = it\<lparr>ci_idx2 := ci_idx2 it + 1\<rparr>;
        Some (Some (Constraint a b),
              if ci_idx2 it1 = length (ci_vertices it1)
              then it1\<lparr>ci_idx1 := ci_idx1 it1 + 1, ci_idx2 := ci_idx1 it1 + 1 + 1\<rparr>
              else it1)
      })"

text \<open>\<open>collect\<close> drives the iterator until it yields nothing; the fuel bounds the calls.\<close>

primrec constraints_collect :: "nat \<Rightarrow> constraints_iter \<Rightarrow> constraint list option" where
  "constraints_collect 0 it = None"
| "constraints_collect (Suc n) it = do {
     (c, it') \<leftarrow> constraints_next it;
     (case c of None \<Rightarrow> Some []
      | Some c \<Rightarrow> do { cs \<leftarrow> constraints_collect n it'; Some (c # cs) }) }"

text \<open>
  The sequence the iterator yields, in closed form: every pair of distinct positions in
  lexicographic order, then the unity constraints from the last vertex to the first.
\<close>

fun ordered_pairs :: "hash list \<Rightarrow> constraint list" where
  "ordered_pairs [] = []"
| "ordered_pairs (v # vs) = map (Constraint v) vs @ ordered_pairs vs"

definition constraints_of :: "hash list \<Rightarrow> constraint list" where
  "constraints_of vs = ordered_pairs vs @ map unity (rev vs)"

definition parent_constraints :: "vertex \<Rightarrow> constraint list" where
  "parent_constraints vx = constraints_of (vx_parents vx)"

lemma constraints_collect_pop:
  "ci_idx1 it + 1 \<ge> length (ci_vertices it) \<Longrightarrow> length (ci_vertices it) < n \<Longrightarrow>
   constraints_collect n it = Some (map unity (rev (ci_vertices it)))"
proof (induction n arbitrary: it)
  case (Suc n)
  show ?case
  proof (cases "ci_vertices it = []")
    case True
    with Suc.prems show ?thesis by (simp add: constraints_next_def)
  next
    case False
    let ?it = "it\<lparr>ci_vertices := butlast (ci_vertices it)\<rparr>"
    have "0 < length (ci_vertices it)" using False by simp
    then have len: "length (butlast (ci_vertices it)) < n"
      using Suc.prems(2) unfolding length_butlast by linarith
    have "constraints_collect n ?it = Some (map unity (rev (ci_vertices ?it)))"
      by (rule Suc.IH) (use Suc.prems len in simp_all)
    moreover have "map unity (rev (ci_vertices it)) =
        unity (last (ci_vertices it)) # map unity (rev (butlast (ci_vertices it)))"
      using False by (cases "ci_vertices it" rule: rev_cases) simp_all
    ultimately show ?thesis using Suc.prems False by (simp add: constraints_next_def)
  qed
qed simp

lemma constraints_collect_pairs:
  assumes "i < j" "j < length vs"
    and "length vs - j + length (ordered_pairs (drop (Suc i) vs)) + length vs < n"
  shows "constraints_collect n \<lparr>ci_vertices = vs, ci_idx1 = i, ci_idx2 = j\<rparr> =
    Some (map (Constraint (vs ! i)) (drop j vs) @ ordered_pairs (drop (Suc i) vs)
          @ map unity (rev vs))"
  using assms
proof (induction n arbitrary: i j)
  case (Suc n)
  have dj: "drop j vs = vs ! j # drop (Suc j) vs"
    using Suc.prems by (simp add: Cons_nth_drop_Suc)
  show ?case
  proof (cases "Suc j = length vs")
    case False
    then have "constraints_collect n \<lparr>ci_vertices = vs, ci_idx1 = i, ci_idx2 = Suc j\<rparr> =
      Some (map (Constraint (vs ! i)) (drop (Suc j) vs) @ ordered_pairs (drop (Suc i) vs)
            @ map unity (rev vs))"
      using Suc.prems by (intro Suc.IH) auto
    with False Suc.prems dj show ?thesis by (simp add: constraints_next_def)
  next
    case True
    let ?it = "\<lparr>ci_vertices = vs, ci_idx1 = Suc i, ci_idx2 = Suc (Suc i)\<rparr>"
    have "constraints_collect n ?it = Some (ordered_pairs (drop (Suc i) vs) @ map unity (rev vs))"
    proof (cases "Suc (Suc i) < length vs")
      case False
      then have one: "drop (Suc i) vs = [vs ! Suc i]"
        using Suc.prems True by (metis Cons_nth_drop_Suc Suc_lessI drop_all not_less_iff_gr_or_eq
            Suc_leI less_trans_Suc order_refl)
      have "constraints_collect n ?it = Some (map unity (rev (ci_vertices ?it)))"
        by (rule constraints_collect_pop) (use False Suc.prems in auto)
      with one show ?thesis by simp
    next
      case more: True
      have d: "drop (Suc i) vs = vs ! Suc i # drop (Suc (Suc i)) vs"
        using more by (simp add: Cons_nth_drop_Suc)
      have "constraints_collect n ?it =
        Some (map (Constraint (vs ! Suc i)) (drop (Suc (Suc i)) vs)
              @ ordered_pairs (drop (Suc (Suc i)) vs) @ map unity (rev vs))"
        by (rule Suc.IH) (use more Suc.prems True d in auto)
      with d show ?thesis by simp
    qed
    with True Suc.prems dj show ?thesis by (simp add: constraints_next_def)
  qed
qed simp

lemma constraints_collect_constraints_of:
  assumes "length (constraints_of vs) < n"
  shows "constraints_collect n (constraints_new vs) = Some (constraints_of vs)"
proof (cases "2 \<le> length vs")
  case False
  then have "ordered_pairs vs = []"
    by (cases vs; cases "tl vs") auto
  with False assms show ?thesis
    by (simp add: constraints_new_def constraints_of_def constraints_collect_pop)
next
  case True
  then obtain v ws where vs: "vs = v # ws" and "ws \<noteq> []"
    by (cases vs; cases "tl vs") auto
  then show ?thesis using assms
    by (simp add: constraints_new_def constraints_of_def constraints_collect_pairs)
qed

lemma set_ordered_pairs:
  "set (ordered_pairs vs) = {Constraint (vs ! i) (vs ! j) | i j. i < j \<and> j < length vs}"
proof (induction vs)
  case (Cons v vs)
  have "{Constraint ((v # vs) ! i) ((v # vs) ! j) | i j. i < j \<and> j < length (v # vs)}
    = Constraint v ` set vs \<union> {Constraint (vs ! i) (vs ! j) | i j. i < j \<and> j < length vs}"
    (is "?L = ?R")
  proof
    show "?L \<subseteq> ?R" by (force simp: nth_Cons in_set_conv_nth split: nat.splits)
    show "?R \<subseteq> ?L"
    proof
      fix c assume "c \<in> ?R"
      then consider k where "k < length vs" "c = Constraint v (vs ! k)"
        | i j where "i < j" "j < length vs" "c = Constraint (vs ! i) (vs ! j)"
        by (auto simp: in_set_conv_nth)
      then show "c \<in> ?L"
      proof cases
        case 1
        then show ?thesis by (intro CollectI exI[of _ 0] exI[of _ "Suc k"]) simp
      next
        case 2
        then show ?thesis by (intro CollectI exI[of _ "Suc i"] exI[of _ "Suc j"]) simp
      qed
    qed
  qed
  with Cons.IH show ?case by auto
qed simp

lemma constraints_of_ends:
  "c \<in> set (constraints_of vs) \<Longrightarrow> before c \<in> set vs \<and> after c \<in> set vs"
  by (auto simp: constraints_of_def set_ordered_pairs)

lemma unity_in_constraints_of: "h \<in> set vs \<Longrightarrow> unity h \<in> set (constraints_of vs)"
  by (auto simp: constraints_of_def)

lemma constraints_of_Nil [simp]: "constraints_of [] = []"
  by (simp add: constraints_of_def)

lemma constraints_of_eq_Nil_iff [simp]: "constraints_of vs = [] \<longleftrightarrow> vs = []"
  by (auto simp: constraints_of_def)

lemma parent_constraints_ends:
  assumes "c \<in> set (parent_constraints vx)"
  shows "before c \<in> set (vx_parents vx)" and "after c \<in> set (vx_parents vx)"
  using assms constraints_of_ends by (auto simp: parent_constraints_def)

lemma unity_in_parent_constraints:
  "h \<in> set (vx_parents vx) \<Longrightarrow> unity h \<in> set (parent_constraints vx)"
  by (simp add: parent_constraints_def constraints_of_def)

lemma ordered_pairs_not_unity:
  "distinct vs \<Longrightarrow> c \<in> set (ordered_pairs vs) \<Longrightarrow> \<not> is_unity c"
  by (auto simp: set_ordered_pairs nth_eq_iff_index_eq)

lemma ordered_pairs_one_way:
  assumes "distinct vs" "c \<in> set (ordered_pairs vs)"
  shows "opposite c \<notin> set (ordered_pairs vs)"
  using assms by (auto simp: set_ordered_pairs nth_eq_iff_index_eq)

lemma constraints_of_one_way:
  assumes "distinct vs" "c \<in> set (constraints_of vs)" "\<not> is_unity c"
  shows "opposite c \<notin> set (constraints_of vs)"
proof -
  have "c \<in> set (ordered_pairs vs)"
    using assms by (auto simp: constraints_of_def is_unity_def)
  then have "opposite c \<notin> set (ordered_pairs vs)"
    using assms(1) by (rule ordered_pairs_one_way[rotated])
  then show ?thesis using assms(3) by (auto simp: constraints_of_def opposite_def is_unity_def)
qed

lemma distinct_ordered_pairs: "distinct vs \<Longrightarrow> distinct (ordered_pairs vs)"
proof (induction vs)
  case (Cons v vs)
  have "Constraint v w \<notin> set (ordered_pairs vs)" for w
    using Cons.prems constraints_of_ends[of "Constraint v w" vs]
    by (auto simp: constraints_of_def)
  with Cons show ?case by (auto simp: distinct_map inj_on_def)
qed simp

lemma distinct_constraints_of: "distinct vs \<Longrightarrow> distinct (constraints_of vs)"
  using ordered_pairs_not_unity[of vs]
  by (fastforce simp: constraints_of_def distinct_ordered_pairs distinct_map inj_on_def)

lemma length_constraints_of: "2 * length (constraints_of vs) = length vs * (length vs + 1)"
proof -
  have "2 * length (ordered_pairs vs) + length vs = length vs * length vs" for vs :: "hash list"
    by (induction vs) (auto simp: algebra_simps)
  from this[of vs] show ?thesis by (simp add: constraints_of_def algebra_simps)
qed

end
