(* ===== verification/Conflict_Set.thy ===== *)
theory Conflict_Set
  imports Vertex
begin

text \<open>
  \<open>ConflictSet\<close> of \<open>src/consensus/dag.rs\<close>: the Avalanche state variables of a
  constraint and its opposite. The counters are \<open>usize\<close>; they are read as natural
  numbers, since each grows by at most one per recorded query.
\<close>

record conflict_set =
  cs_preferred :: constraint
  cs_last :: constraint
  cs_chit :: "(constraint, bool) fmap"
  cs_confidence :: "(constraint, nat) fmap"
  cs_count :: "(constraint, nat) fmap"
  cs_parents :: "(constraint, constraint fset) fmap"
  cs_children :: "(constraint, constraint fset) fmap"
  cs_decision :: "(constraint, bool) fmap"

text \<open>\<open>ConflictSet::new\<close>: the keys are the constraint and, if it has one, its opposite.\<close>

definition conflict_set_new :: "constraint \<Rightarrow> constraint fset \<Rightarrow> conflict_set" where
  "conflict_set_new initial ps =
     (let keys = (case conflict initial of None \<Rightarrow> [initial] | Some opp \<Rightarrow> [initial, opp]) in
      \<lparr>cs_preferred = initial,
       cs_last = initial,
       cs_chit = fmap_of_list (zip keys [False, False]),
       cs_confidence = fmap_of_list (zip keys [0, 0]),
       cs_count = fmap_of_list (zip keys [0, 0]),
       cs_parents = fmap_of_list (zip keys [ps, {||}]),
       cs_children = fmap_of_list (zip keys [{||}, {||}]),
       cs_decision = fmempty\<rparr>)"

text \<open>
  A conflict set stands for one pair of opposite constraints: every table but the decisions
  has exactly the two as its keys, and the constraints it names are among them.
\<close>

definition pair_of :: "constraint \<Rightarrow> constraint fset" where
  "pair_of c = {|c, opposite c|}"

definition conflict_set_wf :: "constraint \<Rightarrow> conflict_set \<Rightarrow> bool" where
  "conflict_set_wf c cs \<longleftrightarrow>
     cs_preferred cs |\<in>| pair_of c \<and> cs_last cs |\<in>| pair_of c \<and>
     fmdom (cs_chit cs) = pair_of c \<and> fmdom (cs_confidence cs) = pair_of c \<and>
     fmdom (cs_count cs) = pair_of c \<and> fmdom (cs_parents cs) = pair_of c \<and>
     fmdom (cs_children cs) = pair_of c \<and> fmdom (cs_decision cs) |\<subseteq>| pair_of c"

lemma pair_of_iff [simp]: "d |\<in>| pair_of c \<longleftrightarrow> d = c \<or> d = opposite c"
  by (simp add: pair_of_def)

lemma pair_of_key: "d |\<in>| pair_of c \<longleftrightarrow> conflict_set_key d = conflict_set_key c"
  unfolding pair_of_iff conflict_set_key_eq_iff by (metis opposite_simps(2))

lemma pair_of_same_key: "conflict_set_key c = conflict_set_key d \<Longrightarrow> pair_of c = pair_of d"
  by (rule fset_eqI) (simp add: pair_of_key del: pair_of_iff)

lemma pair_of_opposite: "pair_of (opposite c) = pair_of c"
  by (rule pair_of_same_key) simp

lemma conflict_set_wf_same_key:
  "conflict_set_key c = conflict_set_key d \<Longrightarrow> conflict_set_wf c cs = conflict_set_wf d cs"
  unfolding conflict_set_wf_def by (drule pair_of_same_key) simp

lemma conflict_set_new_simps [simp]:
  "cs_preferred (conflict_set_new c ps) = c"
  "cs_last (conflict_set_new c ps) = c"
  "cs_decision (conflict_set_new c ps) = fmempty"
  "fmlookup (cs_chit (conflict_set_new c ps)) e = (if e |\<in>| pair_of c then Some False else None)"
  "fmlookup (cs_confidence (conflict_set_new c ps)) e = (if e |\<in>| pair_of c then Some 0 else None)"
  "fmlookup (cs_count (conflict_set_new c ps)) e = (if e |\<in>| pair_of c then Some 0 else None)"
  "fmlookup (cs_parents (conflict_set_new c ps)) e =
     (if e = c then Some ps else if e = opposite c then Some {||} else None)"
  "fmlookup (cs_children (conflict_set_new c ps)) e = (if e |\<in>| pair_of c then Some {||} else None)"
  by (auto simp: conflict_set_new_def conflict_eq Let_def)

lemma conflict_set_wf_new: "conflict_set_wf c (conflict_set_new c ps)"
  by (auto simp: conflict_set_wf_def conflict_set_new_def conflict_eq Let_def pair_of_def)

lemma conflict_set_wf_lookup:
  assumes "conflict_set_wf c cs" "d |\<in>| pair_of c"
  shows "\<exists>b. fmlookup (cs_chit cs) d = Some b"
    and "\<exists>n. fmlookup (cs_confidence cs) d = Some n"
    and "\<exists>n. fmlookup (cs_count cs) d = Some n"
    and "\<exists>S. fmlookup (cs_parents cs) d = Some S"
    and "\<exists>S. fmlookup (cs_children cs) d = Some S"
  using assms unfolding conflict_set_wf_def by (metis fmlookup_dom_iff)+

end
