(* ===== verification/Dag.thy ===== *)
theory Dag
  imports Conflict_Set
begin

text \<open>
  \<open>DAG\<close> of \<open>src/consensus/dag.rs\<close>: the state of the graph and every operation on it,
  in the order of the file. A method on \<open>&self\<close> returns its result, one on
  \<open>&mut self\<close> the new state with its result; \<open>None\<close> is a crash.

  An argument \<open>E\<close> stands for what the code takes from outside: the hash of a vertex and
  the order in which the standard library's \<open>HashMap\<close> and \<open>HashSet\<close> iterate, which
  it leaves unspecified. Theorems assume only that an iteration visits each element once.

  The code's recursive helpers walk the graph along parents or children. They carry fuel, a bound
  on the depth of the walk; running out is a crash, as an overflow of the stack would be.
\<close>

section \<open>Configuration and state\<close>

record env =
  env_hash :: "vertex \<Rightarrow> hash"
  env_hashes :: "hash fset \<Rightarrow> hash list"
  env_constraints :: "constraint fset \<Rightarrow> constraint list"

definition env_ok :: "env \<Rightarrow> bool" where
  "env_ok E \<longleftrightarrow>
     (\<forall>S. distinct (env_hashes E S) \<and> fset_of_list (env_hashes E S) = S) \<and>
     (\<forall>S. distinct (env_constraints E S) \<and> fset_of_list (env_constraints E S) = S)"

datatype dag_error =
    AlreadyInserted
  | AlreadyRecorded
  | BadCfgThreshold
  | BadHeight u64 u64
  | ConflictingAncestors
  | MissingParents "hash list"
  | NotFound
  | RejectedAncestor
  | SelfReferentialParent
  | VertexError vertex_error
  | WaitingOnParents "hash list"
  | WaitingOnInsert

definition DFLT_ACCEPTANCE_THRESHOLD :: nat where
  "DFLT_ACCEPTANCE_THRESHOLD = 9"

definition DFLT_SAFE_EARLY_COMMIT_THRESHOLD :: nat where
  "DFLT_SAFE_EARLY_COMMIT_THRESHOLD = 6"

record dag_config =
  cfg_genesis :: hash
  cfg_thresh_accepted :: nat
  cfg_thresh_safe_early_commit :: nat

definition default_dag_config :: dag_config where
  "default_dag_config =
     \<lparr>cfg_genesis = default_hash,
      cfg_thresh_accepted = DFLT_ACCEPTANCE_THRESHOLD,
      cfg_thresh_safe_early_commit = DFLT_SAFE_EARLY_COMMIT_THRESHOLD\<rparr>"

definition dag_config_check :: "dag_config \<Rightarrow> dag_error + unit" where
  "dag_config_check cfg =
     (if cfg_thresh_accepted cfg < cfg_thresh_safe_early_commit cfg then Inl BadCfgThreshold
      else Inr ())"

record dag =
  dag_config :: dag_config
  dag_vertex :: "(hash, vertex) fmap"
  dag_graph :: "(hash, vertex) fmap"
  dag_pending_query :: "(hash, vertex) fmap"
  dag_children :: "(hash, hash fset) fmap"
  dag_state :: "(conflict_set_key, conflict_set) fmap"
  dag_frontier :: "(hash, vertex) fmap"

text \<open>The state of a constraint's conflict set, and the decision on the constraint, if any.\<close>

definition state_of :: "dag \<Rightarrow> constraint \<Rightarrow> conflict_set option" where
  "state_of d c = fmlookup (dag_state d) (conflict_set_key c)"

definition update_state :: "constraint \<Rightarrow> (conflict_set \<Rightarrow> conflict_set) \<Rightarrow> dag \<Rightarrow> dag option" where
  "update_state c f d = do {
     cs \<leftarrow> state_of d c;
     Some (d\<lparr>dag_state := fmupd (conflict_set_key c) (f cs) (dag_state d)\<rparr>) }"

definition depth_bound :: "dag \<Rightarrow> nat" where
  "depth_bound d = Suc (fcard (fmdom (dag_vertex d)))"

section \<open>Walking the ancestry\<close>

primrec decided_height :: "nat \<Rightarrow> dag \<Rightarrow> hash \<Rightarrow> (dag_error + u64) option" where
  "decided_height 0 d vhash = None"
| "decided_height (Suc n) d vhash = do {
     cs \<leftarrow> state_of d (unity vhash);
     (case fmlookup (cs_decision cs) (unity vhash) of
        Some False \<Rightarrow> Some (Inl RejectedAncestor)
      | Some True \<Rightarrow> do { vx \<leftarrow> fmlookup (dag_vertex d) vhash; Some (Inr (vx_height vx)) }
      | None \<Rightarrow> do {
          vx \<leftarrow> fmlookup (dag_vertex d) vhash;
          try_bind (try_map (\<lambda>p. decided_height n d p) (vx_parents vx))
            (\<lambda>hs. Some (Inr (foldr min hs (- 1)))) }) }"

primrec gather_ancestors :: "nat \<Rightarrow> dag \<Rightarrow> hash \<Rightarrow> u64 \<Rightarrow> hash fset option" where
  "gather_ancestors 0 d vhash to_height = None"
| "gather_ancestors (Suc n) d vhash to_height = do {
     vx \<leftarrow> fmlookup (dag_vertex d) vhash;
     if vx_height vx > to_height
     then do {
       ancs \<leftarrow> run_map (\<lambda>p. gather_ancestors n d p to_height) (vx_parents vx);
       Some (foldr (|\<union>|) ancs (fset_of_list (vx_parents vx))) }
     else Some {||} }"

text \<open>\<open>sorted_by\<close> is stable; its comparator looks both heights up when there are two to compare.\<close>

definition sort_by_height :: "dag \<Rightarrow> hash list \<Rightarrow> hash list option" where
  "sort_by_height d hs =
     (if length hs < 2 then Some hs
      else do {
        ks \<leftarrow> run_map (\<lambda>h. do { vx \<leftarrow> fmlookup (dag_vertex d) h; Some (vx_height vx, h) }) hs;
        Some (map snd (sort_key fst ks)) })"

definition undecided_vertex :: "dag \<Rightarrow> hash \<Rightarrow> bool option" where
  "undecided_vertex d vhash = do {
     cs \<leftarrow> state_of d (unity vhash);
     Some (unity vhash |\<notin>| fmdom (cs_decision cs)) }"

definition get_active_ancestors :: "env \<Rightarrow> dag \<Rightarrow> vertex \<Rightarrow> (dag_error + hash list) option" where
  "get_active_ancestors E d vx =
     (if \<exists>p \<in> set (vx_parents vx). p |\<notin>| fmdom (dag_vertex d) then Some (Inl NotFound)
      else try_bind (try_map (decided_height (depth_bound d) d) (vx_parents vx)) (\<lambda>min_heights. do {
        to_height \<leftarrow> min_opt min_heights;
        ancs \<leftarrow> run_map (\<lambda>p. gather_ancestors (depth_bound d) d p to_height) (vx_parents vx);
        let ancestors_of_parents = foldr (|\<union>|) ancs {||};
        if \<exists>p \<in> set (vx_parents vx). p |\<in>| ancestors_of_parents
        then Some (Inl SelfReferentialParent)
        else do {
          hs \<leftarrow> run_filter (undecided_vertex d)
                 (env_hashes E ancestors_of_parents @ vx_parents vx);
          sorted \<leftarrow> sort_by_height d hs;
          Some (Inr sorted) } }))"

definition undecided :: "dag \<Rightarrow> constraint \<Rightarrow> bool" where
  "undecided d c =
     (case state_of d c of Some cs \<Rightarrow> c |\<notin>| fmdom (cs_decision cs) | None \<Rightarrow> True)"

definition get_active_ancestor_constraints ::
  "env \<Rightarrow> dag \<Rightarrow> vertex \<Rightarrow> (dag_error + constraint list) option" where
  "get_active_ancestor_constraints E d vx =
     try_bind (get_active_ancestors E d vx) (\<lambda>hs. do {
       vxs \<leftarrow> run_map (fmlookup (dag_vertex d)) hs;
       Some (Inr (filter (undecided d)
         (unique (concat (map parent_constraints vxs) @ parent_constraints vx)))) })"

section \<open>Inserting vertices\<close>

definition check_vertex :: "env \<Rightarrow> dag \<Rightarrow> vertex \<Rightarrow> (dag_error + unit) option" where
  "check_vertex E d vx =
     (case sanity_checks vx of
        Inl e \<Rightarrow> Some (Inl (VertexError e))
      | Inr _ \<Rightarrow>
        if env_hash E vx |\<in>| fmdom (dag_graph d) then Some (Inl AlreadyInserted)
        else
          let missing = filter (\<lambda>h. h |\<notin>| fmdom (dag_vertex d)) (vx_parents vx);
              waiting = filter (\<lambda>h. h |\<in>| fmdom (dag_vertex d) \<and> h |\<notin>| fmdom (dag_graph d))
                          (vx_parents vx)
          in if missing \<noteq> [] then Some (Inl (MissingParents missing))
          else if waiting \<noteq> [] then Some (Inl (WaitingOnParents waiting))
          else do {
            heights \<leftarrow> run_map (\<lambda>p. do { v \<leftarrow> fmlookup (dag_vertex d) p; Some (vx_height v) })
                         (vx_parents vx);
            m \<leftarrow> max_opt heights;
            let expected_height = 1 + m;
            if expected_height \<noteq> vx_height vx
            then Some (Inl (BadHeight expected_height (vx_height vx)))
            else try_bind (get_active_ancestor_constraints E d vx) (\<lambda>cs.
              if \<exists>c \<in> set cs. (case conflict c of Some cflct \<Rightarrow> cflct \<in> set cs | None \<Rightarrow> False)
              then Some (Inl ConflictingAncestors)
              else Some (Inr ())) })"

definition map_child_of :: "hash \<Rightarrow> hash \<Rightarrow> (hash, hash fset) fmap \<Rightarrow> (hash, hash fset) fmap" where
  "map_child_of vhash parent ch =
     (case fmlookup ch parent of
        Some cs \<Rightarrow> fmupd parent (finsert vhash cs) ch
      | None \<Rightarrow> fmupd parent {|vhash|} ch)"

definition map_child :: "hash \<Rightarrow> hash list \<Rightarrow> dag \<Rightarrow> dag" where
  "map_child vhash parents d =
     d\<lparr>dag_children := fold (map_child_of vhash) parents (dag_children d)\<rparr>"

text \<open>Registering a constraint as a child of one of its parent constraints.\<close>

definition add_constraint_child :: "constraint \<Rightarrow> constraint \<Rightarrow> dag \<Rightarrow> dag option" where
  "add_constraint_child c parent d =
     update_state parent (\<lambda>cs.
       case fmlookup (cs_children cs) parent of
         Some ch \<Rightarrow> cs\<lparr>cs_children := fmupd parent (finsert c ch) (cs_children cs)\<rparr>
       | None \<Rightarrow> cs\<lparr>cs_children := fmupd parent {|c|} (cs_children cs)\<rparr>) d"

definition is_rejected :: "dag \<Rightarrow> constraint \<Rightarrow> bool option" where
  "is_rejected d p = do { cs \<leftarrow> state_of d p; Some (fmlookup (cs_decision cs) p = Some False) }"

definition is_accepted :: "dag \<Rightarrow> constraint \<Rightarrow> bool option" where
  "is_accepted d p = do { cs \<leftarrow> state_of d p; Some (fmlookup (cs_decision cs) p = Some True) }"

definition constraint_parents :: "dag \<Rightarrow> constraint \<Rightarrow> constraint fset option" where
  "constraint_parents d c = do {
     v0 \<leftarrow> fmlookup (dag_vertex d) (before c);
     v1 \<leftarrow> fmlookup (dag_vertex d) (after c);
     Some (fset_of_list (parent_constraints v0 @ parent_constraints v1)) }"

text \<open>The body of the loop over the constraints of a new vertex.\<close>

definition insert_constraint :: "env \<Rightarrow> constraint \<Rightarrow> dag \<Rightarrow> dag option" where
  "insert_constraint E c d = do {
     c_parents \<leftarrow> constraint_parents d c;
     rejected \<leftarrow> run_any (is_rejected d) (env_constraints E c_parents);
     d' \<leftarrow> run_fold (add_constraint_child c) (env_constraints E c_parents) d;
     let new_state = conflict_set_new c c_parents;
     let new_state = (if rejected
       then new_state\<lparr>cs_decision := fmupd c False (cs_decision new_state)\<rparr> else new_state);
     Some (d'\<lparr>dag_state := map_try_insert (conflict_set_key c) new_state (dag_state d')\<rparr>) }"

definition insert_vertex :: "env \<Rightarrow> vertex \<Rightarrow> dag \<Rightarrow> dag option" where
  "insert_vertex E vx d = (let h = env_hash E vx in do {
     let d1 = d\<lparr>dag_vertex := fmupd h vx (dag_vertex d),
                dag_children := map_try_insert h {||} (dag_children d)\<rparr>;
     d2 \<leftarrow> run_fold (insert_constraint E)
            (env_constraints E (fset_of_list (parent_constraints vx)) @ [unity h]) d1;
     let d3 = map_child h (vx_parents vx) d2;
     Some (d3\<lparr>dag_graph := fmupd h vx (dag_graph d3),
              dag_pending_query := fmupd h vx (dag_pending_query d3),
              dag_frontier := fmupd h vx (fold fmdrop (vx_parents vx) (dag_frontier d3))\<rparr>) })"

definition get_known_children :: "dag \<Rightarrow> hash \<Rightarrow> dag_error + hash fset" where
  "get_known_children d vhash =
     (case fmlookup (dag_children d) vhash of None \<Rightarrow> Inl NotFound | Some cs \<Rightarrow> Inr cs)"

definition try_insert :: "env \<Rightarrow> vertex \<Rightarrow> dag \<Rightarrow> (dag \<times> (dag_error + hash fset)) option" where
  "try_insert E vx d = do {
     r \<leftarrow> check_vertex E d vx;
     (case r of
        Inl e \<Rightarrow>
          (case e of
             MissingParents _ \<Rightarrow>
               let d1 = map_child (env_hash E vx) (vx_parents vx) d in
               Some (d1\<lparr>dag_vertex := fmupd (env_hash E vx) vx (dag_vertex d1)\<rparr>, Inl e)
           | WaitingOnParents _ \<Rightarrow>
               let d1 = map_child (env_hash E vx) (vx_parents vx) d in
               Some (d1\<lparr>dag_vertex := fmupd (env_hash E vx) vx (dag_vertex d1)\<rparr>, Inl e)
           | _ \<Rightarrow> Some (d, Inl e))
      | Inr _ \<Rightarrow> do {
          d1 \<leftarrow> insert_vertex E vx d;
          Some (d1, case get_known_children d1 (env_hash E vx) of
                      Inl e \<Rightarrow> Inl e
                    | Inr cs \<Rightarrow> Inr (ffilter (\<lambda>w. w |\<notin>| fmdom (dag_graph d1)) cs)) }) }"

text \<open>
  The work list of \<open>retry_pending\<close> is a stack; its top is the head of the list here, the end
  of the vector in the code.
\<close>

primrec retry_loop ::
  "nat \<Rightarrow> env \<Rightarrow> hash list \<Rightarrow> hash fset \<Rightarrow> dag \<Rightarrow> (dag \<times> hash fset) option" where
  "retry_loop 0 E queue successes d = None"
| "retry_loop (Suc n) E queue successes d =
     (case queue of
        [] \<Rightarrow> Some (d, successes)
      | vhash # rest \<Rightarrow>
        (case fmlookup (dag_vertex d) vhash of
           None \<Rightarrow> retry_loop n E rest successes d
         | Some vx \<Rightarrow> do {
             (d', r) \<leftarrow> try_insert E vx d;
             (case r of
                Inl _ \<Rightarrow> retry_loop n E rest successes d'
              | Inr waiting \<Rightarrow>
                  retry_loop n E (rev (env_hashes E waiting) @ rest) (finsert vhash successes) d') }))"

definition retry_fuel :: "hash list \<Rightarrow> dag \<Rightarrow> nat" where
  "retry_fuel hashes d =
     Suc (length hashes + fcard (fmdom (dag_vertex d)) * fcard (fmdom (dag_vertex d)))"

definition retry_pending ::
  "env \<Rightarrow> hash list \<Rightarrow> dag \<Rightarrow> (dag \<times> (dag_error + hash fset)) option" where
  "retry_pending E hashes d = do {
     (d', successes) \<leftarrow> retry_loop (retry_fuel hashes d) E (rev hashes) {||} d;
     Some (d', Inr successes) }"

text \<open>\<open>DAG::new\<close>: the initial vertices are inserted unchecked and decided at once.\<close>

definition accept_initial :: "constraint \<Rightarrow> dag \<Rightarrow> dag option" where
  "accept_initial c = update_state c (\<lambda>cs. cs\<lparr>cs_decision := fmupd c True (cs_decision cs)\<rparr>)"

definition insert_initial :: "env \<Rightarrow> vertex \<Rightarrow> dag \<Rightarrow> dag option" where
  "insert_initial E vx d = do {
     d1 \<leftarrow> insert_vertex E vx d;
     let d2 = d1\<lparr>dag_pending_query := fmdrop (env_hash E vx) (dag_pending_query d1)\<rparr>;
     run_fold accept_initial (parent_constraints vx @ [unity (env_hash E vx)]) d2 }"

definition empty_dag :: "dag_config \<Rightarrow> dag" where
  "empty_dag cfg =
     \<lparr>dag_config = cfg, dag_vertex = fmempty, dag_graph = fmempty, dag_pending_query = fmempty,
      dag_children = fmempty, dag_state = fmempty, dag_frontier = fmempty\<rparr>"

definition dag_new :: "env \<Rightarrow> dag_config \<Rightarrow> vertex list \<Rightarrow> (dag_error + dag) option" where
  "dag_new E cfg init =
     try_bind (Some (dag_config_check cfg)) (\<lambda>_. do {
       d \<leftarrow> run_fold (insert_initial E) init (empty_dag cfg);
       Some (Inr d) })"

section \<open>Recording the result of a query\<close>

primrec progeny_with_chits :: "nat \<Rightarrow> env \<Rightarrow> dag \<Rightarrow> constraint \<Rightarrow> constraint list option" where
  "progeny_with_chits 0 E d c = None"
| "progeny_with_chits (Suc n) E d c = do {
     cs \<leftarrow> state_of d c;
     ch \<leftarrow> fmlookup (cs_children cs) c;
     sets \<leftarrow> run_map (\<lambda>e. progeny_with_chits n E d e) (env_constraints E ch);
     b \<leftarrow> fmlookup (cs_chit cs) c;
     Some (concat sets @ (if b then [c] else [])) }"

primrec reject_progeny :: "nat \<Rightarrow> env \<Rightarrow> constraint \<Rightarrow> dag \<Rightarrow> dag option" where
  "reject_progeny 0 E c d = None"
| "reject_progeny (Suc n) E c d = do {
     cs \<leftarrow> state_of d c;
     d' \<leftarrow> update_state c (\<lambda>cs. cs\<lparr>cs_decision := fmupd c False (cs_decision cs)\<rparr>) d;
     ch \<leftarrow> fmlookup (cs_children cs) c;
     run_fold (\<lambda>e. reject_progeny n E e) (env_constraints E ch) d' }"

definition confidence_of :: "env \<Rightarrow> dag \<Rightarrow> constraint \<Rightarrow> nat option" where
  "confidence_of E d c = do {
     ps \<leftarrow> progeny_with_chits (depth_bound d) E d c;
     Some (length (unique ps)) }"

definition opposite_confidence :: "env \<Rightarrow> dag \<Rightarrow> constraint \<Rightarrow> nat option" where
  "opposite_confidence E d c =
     (case conflict c of None \<Rightarrow> Some 0 | Some opp \<Rightarrow> confidence_of E d opp)"

definition has_conflict :: "dag \<Rightarrow> constraint \<Rightarrow> bool" where
  "has_conflict d c =
     (case conflict c of
        None \<Rightarrow> False
      | Some opp \<Rightarrow> conflict_set_key opp |\<in>| fmdom (dag_state d))"

text \<open>The state variables of the conflict set after a vote for \<open>c\<close>.\<close>

definition count_vote :: "constraint \<Rightarrow> nat \<Rightarrow> nat \<Rightarrow> conflict_set \<Rightarrow> conflict_set option" where
  "count_vote c c_conf opp_conf cs =
     (let cs = cs\<lparr>cs_confidence := fmupd c c_conf (cs_confidence cs)\<rparr>;
          cs = (if c_conf > opp_conf then cs\<lparr>cs_preferred := c\<rparr> else cs)
      in if cs_last cs \<noteq> c
         then Some (cs\<lparr>cs_last := c, cs_count := fmupd c 1 (cs_count cs)\<rparr>)
         else do {
           n \<leftarrow> fmlookup (cs_count cs) c;
           Some (cs\<lparr>cs_count := fmupd c (n + 1) (cs_count cs)\<rparr>) })"

definition decision_reached ::
  "env \<Rightarrow> dag \<Rightarrow> nat \<Rightarrow> constraint fset \<Rightarrow> bool \<Rightarrow> bool option" where
  "decision_reached E d c_count c_parents cflct =
     (if c_count \<ge> cfg_thresh_accepted (dag_config d) then Some True
      else do {
        parents_accepted \<leftarrow> run_all (is_accepted d) (env_constraints E c_parents);
        Some (parents_accepted \<and> \<not> cflct \<and>
              c_count \<ge> cfg_thresh_safe_early_commit (dag_config d)) })"

definition accept_constraint :: "env \<Rightarrow> constraint \<Rightarrow> dag \<Rightarrow> dag option" where
  "accept_constraint E c d = do {
     d' \<leftarrow> update_state c
       (\<lambda>cs. cs\<lparr>cs_decision := fmupd c True (cs_decision cs), cs_preferred := c\<rparr>) d;
     (case conflict c of
        None \<Rightarrow> Some d'
      | Some opp \<Rightarrow> reject_progeny (depth_bound d') E opp d') }"

definition vote_for :: "env \<Rightarrow> constraint \<Rightarrow> dag \<Rightarrow> dag option" where
  "vote_for E c d = do {
     c_conf \<leftarrow> confidence_of E d c;
     let cflct = has_conflict d c;
     opp_conf \<leftarrow> opposite_confidence E d c;
     cs \<leftarrow> state_of d c;
     cs' \<leftarrow> count_vote c c_conf opp_conf cs;
     c_count \<leftarrow> fmlookup (cs_count cs') c;
     c_parents \<leftarrow> fmlookup (cs_parents cs') c;
     let d1 = d\<lparr>dag_state := fmupd (conflict_set_key c) cs' (dag_state d)\<rparr>;
     decided \<leftarrow> decision_reached E d1 c_count c_parents cflct;
     if decided then accept_constraint E c d1 else Some d1 }"

definition reset_count :: "constraint \<Rightarrow> dag \<Rightarrow> dag option" where
  "reset_count c = update_state c (\<lambda>cs. cs\<lparr>cs_count := fmupd c 0 (cs_count cs)\<rparr>)"

definition award_chit :: "constraint \<Rightarrow> dag \<Rightarrow> dag option" where
  "award_chit c = update_state c (\<lambda>cs. cs\<lparr>cs_chit := fmupd c True (cs_chit cs)\<rparr>)"

definition record_query_result ::
  "env \<Rightarrow> hash \<Rightarrow> bool \<Rightarrow> dag \<Rightarrow> (dag \<times> (dag_error + unit)) option" where
  "record_query_result E vhash strongly_preferred d =
     (case fmlookup (dag_pending_query d) vhash of
        Some vx \<Rightarrow> do {
          let d0 = d\<lparr>dag_pending_query := fmdrop vhash (dag_pending_query d)\<rparr>;
          d1 \<leftarrow> (if strongly_preferred then award_chit (unity vhash) d0 else Some d0);
          r \<leftarrow> get_active_ancestor_constraints E d1 vx;
          (case r of
             Inl _ \<Rightarrow> None
           | Inr cs \<Rightarrow> do {
               d2 \<leftarrow> run_fold (if strongly_preferred then vote_for E else reset_count)
                      (cs @ [unity vhash]) d1;
               Some (d2, Inr ()) }) }
      | None \<Rightarrow>
          Some (d, Inl (if vhash |\<in>| fmdom (dag_graph d) then AlreadyRecorded
                        else if vhash |\<in>| fmdom (dag_vertex d) then WaitingOnInsert
                        else NotFound)))"

section \<open>Queries\<close>

definition is_preferred :: "dag \<Rightarrow> hash \<Rightarrow> (dag_error + bool) option" where
  "is_preferred d vhash =
     (case fmlookup (dag_vertex d) vhash of
        None \<Rightarrow> Some (Inl NotFound)
      | Some vx \<Rightarrow>
        (case fmlookup (dag_graph d) vhash of
           None \<Rightarrow> Some (Inl WaitingOnInsert)
         | Some _ \<Rightarrow> do {
             b \<leftarrow> run_all (\<lambda>c. do { cs \<leftarrow> state_of d c; Some (cs_preferred cs = c) })
                    (parent_constraints vx);
             Some (Inr b) }))"

text \<open>One constraint's status; the assertion of the code fails on a rejected one.\<close>

definition constraint_status :: "dag \<Rightarrow> constraint \<Rightarrow> (bool \<times> bool) option" where
  "constraint_status d c = do {
     cs \<leftarrow> state_of d c;
     let s = (case fmlookup (cs_decision cs) c of
                Some True \<Rightarrow> (True, True)
              | Some False \<Rightarrow> (False, True)
              | None \<Rightarrow> (cs_preferred cs = c, False));
     if fst s \<or> \<not> snd s then Some s else None }"

definition query :: "env \<Rightarrow> dag \<Rightarrow> hash \<Rightarrow> (dag_error + bool \<times> bool) option" where
  "query E d vhash =
     (case fmlookup (dag_graph d) vhash of
        Some vx \<Rightarrow> do {
          cs \<leftarrow> state_of d (unity vhash);
          (case fmlookup (cs_decision cs) (unity vhash) of
             Some True \<Rightarrow> Some (Inr (True, True))
           | Some False \<Rightarrow> Some (Inr (False, True))
           | None \<Rightarrow>
               try_bind (get_active_ancestor_constraints E d vx) (\<lambda>cs. do {
                 states \<leftarrow> run_map (constraint_status d) cs;
                 Some (Inr (\<forall>s \<in> set states. fst s, False)) })) }
      | None \<Rightarrow>
          Some (Inl (if vhash |\<in>| fmdom (dag_vertex d) then WaitingOnInsert else NotFound)))"

definition get_vertex :: "dag \<Rightarrow> hash \<Rightarrow> vertex option" where
  "get_vertex d vhash = fmlookup (dag_vertex d) vhash"

definition strongly_preferred :: "env \<Rightarrow> dag \<Rightarrow> hash \<Rightarrow> bool option" where
  "strongly_preferred E d vhash = do {
     r \<leftarrow> query E d vhash;
     Some (case r of Inl _ \<Rightarrow> False | Inr (preferred, _) \<Rightarrow> preferred) }"

definition get_frontier :: "env \<Rightarrow> dag \<Rightarrow> vertex list option" where
  "get_frontier E d = do {
     hs \<leftarrow> run_filter (strongly_preferred E d) (env_hashes E (fmdom (dag_frontier d)));
     vxs \<leftarrow> run_map (fmlookup (dag_frontier d)) hs;
     Some (sort_key vx_timestamp vxs) }"

end
