(* ===== verification/Ranked_Walk.thy ===== *)
theory Ranked_Walk
  imports Taurus_Prelude
begin

text \<open>
  The contract the code's recursive walks rest on: in a state that satisfies an invariant every
  step from a node leads to a node of smaller rank. Then a walk with fuel above the rank of its
  start never runs out, and no node is its own proper successor.
\<close>

locale ranked_walk =
  fixes inv :: "'s \<Rightarrow> bool"
    and nodes :: "'s \<Rightarrow> 'n set"
    and step :: "'s \<Rightarrow> 'n \<Rightarrow> 'n set"
    and rank :: "'s \<Rightarrow> 'n \<Rightarrow> nat"
  assumes step_node: "inv s \<Longrightarrow> n \<in> nodes s \<Longrightarrow> m \<in> step s n \<Longrightarrow> m \<in> nodes s"
    and step_rank: "inv s \<Longrightarrow> n \<in> nodes s \<Longrightarrow> m \<in> step s n \<Longrightarrow> rank s m < rank s n"
begin

lemma fuel_induct:
  assumes "inv s" "n \<in> nodes s" "rank s n < k"
    and "\<And>k n. n \<in> nodes s \<Longrightarrow> (\<And>m. m \<in> step s n \<Longrightarrow> P k m) \<Longrightarrow> P (Suc k) n"
  shows "P k n"
  using assms(2,3)
proof (induction k arbitrary: n)
  case (Suc k)
  show ?case
  proof (rule assms(4))
    fix m assume "m \<in> step s n"
    with Suc.prems assms(1) have "m \<in> nodes s" "rank s m < rank s n"
      by (blast intro: step_node step_rank)+
    then have "m \<in> nodes s" "rank s m < k" using Suc.prems(2) by linarith+
    then show "P k m" by (rule Suc.IH)
  qed (rule Suc.prems)
qed simp

lemma walk_node:
  assumes "inv s" "(m, n) \<in> {(m, n). m \<in> step s n}\<^sup>*" "n \<in> nodes s"
  shows "m \<in> nodes s"
  using assms(2,3) by (induction rule: converse_rtrancl_induct) (auto intro: step_node[OF assms(1)])

lemma walk_rank:
  assumes "inv s" "(m, n) \<in> {(m, n). m \<in> step s n}\<^sup>+" "n \<in> nodes s"
  shows "m \<in> nodes s \<and> rank s m < rank s n"
  using assms(2)
proof (induction rule: converse_trancl_induct)
  case (base y)
  then show ?case using assms by (auto intro: step_node step_rank)
next
  case (step y z)
  then have "z \<in> nodes s" "rank s z < rank s n" and "(y, z) \<in> {(m, n). m \<in> step s n}"
    by auto
  then show ?case using assms(1) step_node[of s z y] step_rank[of s z y] by auto
qed

lemma walk_irrefl:
  assumes "inv s" "n \<in> nodes s"
  shows "(n, n) \<notin> {(m, n). m \<in> step s n}\<^sup>+"
  using walk_rank[OF assms(1) _ assms(2), of n] by blast

end

end
