(* ===== verification/Dag_Inv.thy ===== *)
theory Dag_Inv
  imports Dag Ranked_Walk
begin

text \<open>
  The invariant of the graph: how its maps agree with one another, that heights grow from parent
  to child, and that the constraint graph holds exactly the constraints of the inserted vertices
  with exactly the edges the code means it to have. The accessors read the state of one
  constraint; the lemmas say what each primitive update does to them.
\<close>

section \<open>Iteration orders\<close>

lemma env_okD:
  assumes "env_ok E"
  shows "set (env_hashes E S) = fset S" "distinct (env_hashes E S)"
    "set (env_constraints E T) = fset T" "distinct (env_constraints E T)"
  using assms unfolding env_ok_def by (metis fset_of_list.rep_eq)+

section \<open>Reading the state of one constraint\<close>

definition tracked :: "dag \<Rightarrow> constraint \<Rightarrow> bool" where
  "tracked d c \<longleftrightarrow> state_of d c \<noteq> None"

definition decision_of :: "dag \<Rightarrow> constraint \<Rightarrow> bool option" where
  "decision_of d c = (case state_of d c of Some cs \<Rightarrow> fmlookup (cs_decision cs) c | None \<Rightarrow> None)"

definition children_of :: "dag \<Rightarrow> constraint \<Rightarrow> constraint fset" where
  "children_of d c =
     (case state_of d c of
        Some cs \<Rightarrow> (case fmlookup (cs_children cs) c of Some S \<Rightarrow> S | None \<Rightarrow> {||})
      | None \<Rightarrow> {||})"

definition recorded_parents :: "dag \<Rightarrow> constraint \<Rightarrow> constraint set" where
  "recorded_parents d c =
     (case state_of d c of
        Some cs \<Rightarrow> (case fmlookup (cs_parents cs) c of Some S \<Rightarrow> fset S | None \<Rightarrow> {})
      | None \<Rightarrow> {})"

definition chit_of :: "dag \<Rightarrow> constraint \<Rightarrow> bool" where
  "chit_of d c = (case state_of d c of Some cs \<Rightarrow> fmlookup (cs_chit cs) c = Some True | None \<Rightarrow> False)"

definition count_of :: "dag \<Rightarrow> constraint \<Rightarrow> nat" where
  "count_of d c =
     (case state_of d c of
        Some cs \<Rightarrow> (case fmlookup (cs_count cs) c of Some n \<Rightarrow> n | None \<Rightarrow> 0)
      | None \<Rightarrow> 0)"

definition preferred_of :: "dag \<Rightarrow> constraint \<Rightarrow> bool" where
  "preferred_of d c = (case state_of d c of Some cs \<Rightarrow> cs_preferred cs = c | None \<Rightarrow> False)"

definition states_wf :: "dag \<Rightarrow> bool" where
  "states_wf d \<longleftrightarrow> (\<forall>c cs. state_of d c = Some cs \<longrightarrow> conflict_set_wf c cs)"

lemma trackedE: "tracked d c \<Longrightarrow> (\<And>cs. state_of d c = Some cs \<Longrightarrow> P) \<Longrightarrow> P"
  by (auto simp: tracked_def)

lemma tracked_opposite [simp]: "tracked d (opposite c) = tracked d c"
  by (simp add: tracked_def state_of_def)

lemma state_of_opposite [simp]: "state_of d (opposite c) = state_of d c"
  by (simp add: state_of_def)

lemma states_wfD: "states_wf d \<Longrightarrow> state_of d c = Some cs \<Longrightarrow> conflict_set_wf c cs"
  by (simp add: states_wf_def)

lemma decision_of_tracked: "decision_of d c = Some b \<Longrightarrow> tracked d c"
  by (auto simp: decision_of_def tracked_def split: option.splits)

lemma undecided_iff: "undecided d c \<longleftrightarrow> decision_of d c = None"
  by (auto simp: undecided_def decision_of_def fmlookup_dom_iff split: option.splits)

lemma state_of_cong: "dag_state d = dag_state e \<Longrightarrow> state_of d c = state_of e c"
  by (simp add: state_of_def)

section \<open>What depends on the conflict sets alone\<close>

lemma state_of_frame [simp, frame_simps]:
  "state_of (d\<lparr>dag_vertex := a1\<rparr>) c = state_of d c"
  "state_of (d\<lparr>dag_graph := a2\<rparr>) c = state_of d c"
  "state_of (d\<lparr>dag_pending_query := a3\<rparr>) c = state_of d c"
  "state_of (d\<lparr>dag_children := a4\<rparr>) c = state_of d c"
  "state_of (d\<lparr>dag_frontier := a5\<rparr>) c = state_of d c"
  by (simp_all add: state_of_def)

lemma accessors_cong:
  assumes "dag_state d = dag_state e"
  shows "tracked d = tracked e" "decision_of d = decision_of e" "children_of d = children_of e"
    "chit_of d = chit_of e" "count_of d = count_of e" "preferred_of d = preferred_of e"
    "states_wf d = states_wf e" "recorded_parents d = recorded_parents e"
  using state_of_cong[OF assms]
  by (simp_all add: fun_eq_iff tracked_def decision_of_def children_of_def chit_of_def count_of_def
      preferred_of_def states_wf_def recorded_parents_def)

section \<open>Updating one conflict set\<close>

text \<open>
  An update of one conflict set that leaves every table's keys in place. Where it changes table
  entries, it changes those of the constraint it is applied to.
\<close>

lemma state_of_update:
  assumes "state_of d c = Some cs"
  shows "state_of (d\<lparr>dag_state := fmupd (conflict_set_key c) cs' (dag_state d)\<rparr>) e =
    (if e |\<in>| pair_of c then Some cs' else state_of d e)"
  by (auto simp: state_of_def conflict_set_key_eq_iff)

lemma update_state_total:
  "tracked d c \<Longrightarrow> \<exists>cs. state_of d c = Some cs \<and>
     update_state c f d = Some (d\<lparr>dag_state := fmupd (conflict_set_key c) (f cs) (dag_state d)\<rparr>)"
  by (auto simp: tracked_def update_state_def)

lemma update_stateE:
  assumes "update_state c f d = Some d'"
  obtains cs where "state_of d c = Some cs"
    and "d' = d\<lparr>dag_state := fmupd (conflict_set_key c) (f cs) (dag_state d)\<rparr>"
  using assms by (auto simp: update_state_def bind_eq_Some_conv)

text \<open>
  Two conflict sets with the same links: the tables that shape the constraint graph agree, and a
  decision once taken stays taken.
\<close>

definition same_links :: "conflict_set \<Rightarrow> conflict_set \<Rightarrow> bool" where
  "same_links cs cs' \<longleftrightarrow>
     cs_children cs' = cs_children cs \<and> cs_parents cs' = cs_parents cs \<and>
     fmdom (cs_decision cs) |\<subseteq>| fmdom (cs_decision cs')"

text \<open>
  A step of the graph that leaves everything but the voting variables alone.
\<close>

definition same_maps :: "dag \<Rightarrow> dag \<Rightarrow> bool" where
  "same_maps d d' \<longleftrightarrow>
     dag_config d' = dag_config d \<and> dag_vertex d' = dag_vertex d \<and> dag_graph d' = dag_graph d \<and>
     dag_pending_query d' = dag_pending_query d \<and> dag_children d' = dag_children d \<and>
     dag_frontier d' = dag_frontier d"

definition votes_only :: "dag \<Rightarrow> dag \<Rightarrow> bool" where
  "votes_only d d' \<longleftrightarrow>
     same_maps d d' \<and>
     (\<forall>c. tracked d' c = tracked d c) \<and>
     (\<forall>c cs cs'. state_of d c = Some cs \<longrightarrow> state_of d' c = Some cs' \<longrightarrow> same_links cs cs') \<and>
     (states_wf d \<longrightarrow> states_wf d')"

lemma votes_only_refl [simp, intro]: "votes_only d d"
  by (simp add: votes_only_def same_maps_def same_links_def)

lemma same_links_trans: "same_links a b \<Longrightarrow> same_links b c \<Longrightarrow> same_links a c"
  by (auto simp: same_links_def)

lemma votes_only_trans [trans]:
  assumes "votes_only d e" "votes_only e f"
  shows "votes_only d f"
proof -
  have "same_links cs cs'" if "state_of d c = Some cs" "state_of f c = Some cs'" for c cs cs'
  proof -
    have "tracked e c" using assms(1) that(1) by (simp add: votes_only_def tracked_def)
    then obtain cs1 where "state_of e c = Some cs1" by (rule trackedE)
    then have "same_links cs cs1" "same_links cs1 cs'"
      using that assms unfolding votes_only_def by blast+
    then show ?thesis by (rule same_links_trans)
  qed
  then show ?thesis using assms by (simp add: votes_only_def same_maps_def)
qed

lemma votes_only_fields:
  assumes "votes_only d d'"
  shows "dag_config d' = dag_config d" "dag_vertex d' = dag_vertex d" "dag_graph d' = dag_graph d"
    "dag_pending_query d' = dag_pending_query d" "dag_children d' = dag_children d"
    "dag_frontier d' = dag_frontier d" "depth_bound d' = depth_bound d"
  using assms by (simp_all add: votes_only_def same_maps_def depth_bound_def)

lemma votes_only_tracked: "votes_only d d' \<Longrightarrow> tracked d' c = tracked d c"
  by (simp add: votes_only_def)

lemma votes_only_wf: "votes_only d d' \<Longrightarrow> states_wf d \<Longrightarrow> states_wf d'"
  by (simp add: votes_only_def)

lemma votes_only_cases:
  assumes "votes_only d d'"
  obtains "state_of d c = None" "state_of d' c = None"
  | cs cs' where "state_of d c = Some cs" "state_of d' c = Some cs'" "same_links cs cs'"
proof (cases "state_of d c")
  case None
  moreover have "\<not> tracked d' c" using None votes_only_tracked[OF assms] by (simp add: tracked_def)
  ultimately show ?thesis using that(1) by (auto simp: tracked_def)
next
  case (Some cs)
  then have "tracked d' c" using assms by (simp add: votes_only_def tracked_def)
  then show ?thesis using Some assms that(2) unfolding votes_only_def by (blast elim: trackedE)
qed

lemma votes_only_children: "votes_only d d' \<Longrightarrow> children_of d' c = children_of d c"
  by (erule votes_only_cases[where c = c]) (simp_all add: children_of_def same_links_def)

lemma votes_only_parents: "votes_only d d' \<Longrightarrow> recorded_parents d' c = recorded_parents d c"
  by (erule votes_only_cases[where c = c]) (simp_all add: recorded_parents_def same_links_def)

lemma votes_only_decided:
  "votes_only d d' \<Longrightarrow> decision_of d c = Some b \<Longrightarrow> \<exists>b'. decision_of d' c = Some b'"
  by (erule votes_only_cases[where c = c])
     (auto simp: decision_of_def same_links_def fmlookup_dom_iff[symmetric] intro: fmdomI)

lemma state_of_pair: "e |\<in>| pair_of c \<Longrightarrow> state_of d e = state_of d c"
  by (simp add: pair_of_key state_of_def del: pair_of_iff)

lemma states_wf_update:
  assumes "state_of d c = Some cs" "states_wf d" "conflict_set_wf c cs'"
  shows "states_wf (d\<lparr>dag_state := fmupd (conflict_set_key c) cs' (dag_state d)\<rparr>)"
  unfolding states_wf_def
proof (intro allI impI)
  fix e x assume x: "state_of (d\<lparr>dag_state := fmupd (conflict_set_key c) cs' (dag_state d)\<rparr>) e = Some x"
  show "conflict_set_wf e x"
  proof (cases "e |\<in>| pair_of c")
    case True
    then have "x = cs'" and "conflict_set_key e = conflict_set_key c"
      using x by (simp_all add: state_of_update[OF assms(1)] pair_of_key del: pair_of_iff)
    then show ?thesis using assms(3) conflict_set_wf_same_key by blast
  next
    case False
    then show ?thesis using x assms(2)
      by (simp add: state_of_update[OF assms(1)] states_wf_def del: pair_of_iff)
  qed
qed

lemma votes_only_update:
  assumes "state_of d c = Some cs" "same_links cs cs'"
    and "conflict_set_wf c cs \<Longrightarrow> conflict_set_wf c cs'"
  shows "votes_only d (d\<lparr>dag_state := fmupd (conflict_set_key c) cs' (dag_state d)\<rparr>)"
    (is "votes_only d ?d'")
proof -
  note upd = state_of_update[OF assms(1), of cs']
  have pair: "state_of d e = Some cs" if "e |\<in>| pair_of c" for e
    using assms(1) state_of_pair[OF that] by simp
  have "same_maps d ?d'" by (simp add: same_maps_def)
  moreover have "tracked ?d' e = tracked d e" for e
    using pair[of e] by (simp add: tracked_def upd del: pair_of_iff)
  moreover have "same_links x y" if "state_of d e = Some x" "state_of ?d' e = Some y" for e x y
    using that pair[of e] assms(2) by (auto simp: upd same_links_def simp del: pair_of_iff split: if_splits)
  moreover have "states_wf ?d'" if "states_wf d"
    using states_wf_update[OF assms(1) that] assms(3) states_wfD[OF that assms(1)] by blast
  ultimately show ?thesis by (simp add: votes_only_def)
qed

end
