(* ===== verification/Dag_Graph.thy ===== *)
theory Dag_Graph
  imports Dag_Inv
begin

text \<open>
  The invariant \<open>dag_inv\<close> of the graph and the two ranked walks it supports: along parents,
  where the number of lower vertices drops, and along the children of a constraint, where the
  number of higher vertices drops.
\<close>

section \<open>The constraint graph of a vertex graph\<close>

text \<open>The constraints that the vertices of a graph commit to, and the parents of a constraint.\<close>

definition constraints_in :: "(hash, vertex) fmap \<Rightarrow> constraint set" where
  "constraints_in g =
     {c. \<exists>h v. fmlookup g h = Some v \<and> (c \<in> set (parent_constraints v) \<or> c = unity h)}"

definition parents_in :: "(hash, vertex) fmap \<Rightarrow> constraint \<Rightarrow> constraint set" where
  "parents_in g e =
     {c. \<exists>v. (fmlookup g (before e) = Some v \<or> fmlookup g (after e) = Some v) \<and>
             c \<in> set (parent_constraints v)}"

text \<open>
  The conflict sets are those of the constraints \<open>R\<close>, and the recorded children of a
  constraint are the constraints of \<open>R\<close> it is a parent of in the graph \<open>g\<close>.
\<close>

definition state_ok :: "(hash, vertex) fmap \<Rightarrow> constraint set \<Rightarrow> dag \<Rightarrow> bool" where
  "state_ok g R d \<longleftrightarrow>
     states_wf d \<and>
     (\<forall>c. tracked d c \<longleftrightarrow> c \<in> R \<or> opposite c \<in> R) \<and>
     (\<forall>c. fset (children_of d c) = {e \<in> R. c \<in> parents_in g e}) \<and>
     (\<forall>c. recorded_parents d c \<subseteq> parents_in g c)"

section \<open>The invariant\<close>

definition graph_ok :: "(hash, vertex) fmap \<Rightarrow> bool" where
  "graph_ok g \<longleftrightarrow>
     (\<forall>h v. fmlookup g h = Some v \<longrightarrow>
        distinct (vx_parents v) \<and>
        (\<forall>p \<in> set (vx_parents v). \<exists>u. fmlookup g p = Some u \<and> vx_height u < vx_height v) \<and>
        unat (vx_height v) < fcard (fmdom g))"

text \<open>No parent of a vertex is a proper ancestor of another.\<close>

definition graph_rel :: "(hash, vertex) fmap \<Rightarrow> (hash \<times> hash) set" where
  "graph_rel g = {(p, q). \<exists>v. fmlookup g q = Some v \<and> p \<in> set (vx_parents v)}"

definition antichain_ok :: "(hash, vertex) fmap \<Rightarrow> bool" where
  "antichain_ok g \<longleftrightarrow>
     (\<forall>h v. fmlookup g h = Some v \<longrightarrow>
        (\<forall>p \<in> set (vx_parents v). \<forall>q \<in> set (vx_parents v). (p, q) \<notin> (graph_rel g)\<^sup>+))"

definition maps_ok :: "(vertex \<Rightarrow> hash) \<Rightarrow> dag \<Rightarrow> bool" where
  "maps_ok H d \<longleftrightarrow>
     (\<forall>h v. fmlookup (dag_graph d) h = Some v \<longrightarrow> fmlookup (dag_vertex d) h = Some v) \<and>
     (\<forall>h v. fmlookup (dag_vertex d) h = Some v \<longrightarrow> H v = h) \<and>
     (\<forall>h v. fmlookup (dag_pending_query d) h = Some v \<longrightarrow>
        fmlookup (dag_graph d) h = Some v \<and> vx_parents v \<noteq> [])"

definition frontier_ok :: "dag \<Rightarrow> bool" where
  "frontier_ok d \<longleftrightarrow>
     (\<forall>h v. fmlookup (dag_frontier d) h = Some v \<longleftrightarrow>
        fmlookup (dag_graph d) h = Some v \<and>
        \<not> (\<exists>k w. fmlookup (dag_graph d) k = Some w \<and> h \<in> set (vx_parents w)))"

definition children_ok :: "dag \<Rightarrow> bool" where
  "children_ok d \<longleftrightarrow>
     fmdom (dag_graph d) |\<subseteq>| fmdom (dag_children d) \<and>
     (\<forall>p S. fmlookup (dag_children d) p = Some S \<longrightarrow> S |\<subseteq>| fmdom (dag_vertex d)) \<and>
     (\<forall>h v p. fmlookup (dag_vertex d) h = Some v \<longrightarrow> p \<in> set (vx_parents v) \<longrightarrow>
        (\<exists>S. fmlookup (dag_children d) p = Some S \<and> h |\<in>| S))"

definition roots_ok :: "dag \<Rightarrow> bool" where
  "roots_ok d \<longleftrightarrow>
     (\<forall>h v. fmlookup (dag_graph d) h = Some v \<longrightarrow> vx_parents v = [] \<longrightarrow>
        (\<exists>b. decision_of d (unity h) = Some b))"

definition dag_inv :: "(vertex \<Rightarrow> hash) \<Rightarrow> dag \<Rightarrow> bool" where
  "dag_inv H d \<longleftrightarrow>
     graph_ok (dag_graph d) \<and> maps_ok H d \<and> state_ok (dag_graph d) (constraints_in (dag_graph d)) d \<and>
     frontier_ok d \<and> children_ok d \<and> roots_ok d \<and> antichain_ok (dag_graph d)"

lemma dag_invD:
  assumes "dag_inv H d"
  shows "graph_ok (dag_graph d)" "maps_ok H d"
    "state_ok (dag_graph d) (constraints_in (dag_graph d)) d"
    "frontier_ok d" "children_ok d" "roots_ok d" "states_wf d"
    "antichain_ok (dag_graph d)"
  using assms by (simp_all add: dag_inv_def state_ok_def)

lemma graph_okD:
  assumes "graph_ok g" "fmlookup g h = Some v"
  shows "distinct (vx_parents v)" "unat (vx_height v) < fcard (fmdom g)"
    and "\<And>p. p \<in> set (vx_parents v) \<Longrightarrow> \<exists>u. fmlookup g p = Some u \<and> vx_height u < vx_height v"
  using assms unfolding graph_ok_def by blast+

lemma inv_vertex: "dag_inv H d \<Longrightarrow> fmlookup (dag_graph d) h = Some v \<Longrightarrow> fmlookup (dag_vertex d) h = Some v"
  by (simp add: dag_inv_def maps_ok_def)

lemma inv_pending:
  assumes "dag_inv H d" "fmlookup (dag_pending_query d) h = Some v"
  shows "fmlookup (dag_graph d) h = Some v" "vx_parents v \<noteq> []"
  using assms by (simp_all add: dag_inv_def maps_ok_def)

lemma inv_tracked: "dag_inv H d \<Longrightarrow> c \<in> constraints_in (dag_graph d) \<Longrightarrow> tracked d c"
  by (simp add: dag_inv_def state_ok_def)

lemma inv_children: "dag_inv H d \<Longrightarrow>
    fset (children_of d c) = {e \<in> constraints_in (dag_graph d). c \<in> parents_in (dag_graph d) e}"
  by (simp add: dag_inv_def state_ok_def)

lemma unity_in_constraints_in: "fmlookup g h = Some v \<Longrightarrow> unity h \<in> constraints_in g"
  by (auto simp: constraints_in_def)

lemma parent_constraint_in_constraints_in:
  "fmlookup g h = Some v \<Longrightarrow> c \<in> set (parent_constraints v) \<Longrightarrow> c \<in> constraints_in g"
  by (auto simp: constraints_in_def)

lemma graph_subset_vertex: "maps_ok H d \<Longrightarrow> fmdom (dag_graph d) |\<subseteq>| fmdom (dag_vertex d)"
  by (auto simp: maps_ok_def fmlookup_dom_iff)

lemma fcard_graph_vertex: "maps_ok H d \<Longrightarrow> fcard (fmdom (dag_graph d)) \<le> fcard (fmdom (dag_vertex d))"
  by (rule fcard_mono) (rule graph_subset_vertex)

lemma constraints_in_ends:
  assumes "graph_ok g" "c \<in> constraints_in g"
  shows "before c |\<in>| fmdom g \<and> after c |\<in>| fmdom g"
proof -
  from assms(2) obtain h v where v: "fmlookup g h = Some v"
    and "c \<in> set (parent_constraints v) \<or> c = unity h" by (auto simp: constraints_in_def)
  then show ?thesis
    using graph_okD(3)[OF assms(1) v] parent_constraints_ends[of c v] v
    by (auto simp: fmlookup_dom_iff)
qed

text \<open>Voting keeps the invariant.\<close>

lemma state_ok_votes: "state_ok g R d \<Longrightarrow> votes_only d d' \<Longrightarrow> state_ok g R d'"
  by (auto simp: state_ok_def votes_only_tracked votes_only_children votes_only_wf votes_only_parents)

lemma dag_inv_votes:
  assumes "dag_inv H d" "votes_only d d'"
  shows "dag_inv H d'"
proof -
  have "roots_ok d'"
    using dag_invD(6)[OF assms(1)] votes_only_decided[OF assms(2)] votes_only_fields[OF assms(2)]
    unfolding roots_ok_def by metis
  then show ?thesis
    using assms state_ok_votes[OF dag_invD(3)[OF assms(1)] assms(2)]
    by (simp add: dag_inv_def votes_only_fields[OF assms(2)] maps_ok_def frontier_ok_def children_ok_def)
qed

text \<open>Forgetting a pending query keeps it too.\<close>

lemma dag_inv_pending_drop:
  "dag_inv H d \<Longrightarrow> dag_inv H (d\<lparr>dag_pending_query := fmdrop h (dag_pending_query d)\<rparr>)"
  by (auto simp: dag_inv_def maps_ok_def state_ok_def frontier_ok_def children_ok_def roots_ok_def
      accessors_cong[of "d\<lparr>dag_pending_query := fmdrop h (dag_pending_query d)\<rparr>" d] split: if_splits)

section \<open>Ranks\<close>

definition height_in :: "(hash, vertex) fmap \<Rightarrow> hash \<Rightarrow> u64" where
  "height_in g h = (case fmlookup g h of Some v \<Rightarrow> vx_height v | None \<Rightarrow> 0)"

definition parents_of :: "dag \<Rightarrow> hash \<Rightarrow> hash set" where
  "parents_of d h = (case fmlookup (dag_graph d) h of Some v \<Rightarrow> set (vx_parents v) | None \<Rightarrow> {})"

definition constraint_height :: "(hash, vertex) fmap \<Rightarrow> constraint \<Rightarrow> u64" where
  "constraint_height g c = max (height_in g (before c)) (height_in g (after c))"

definition vertex_rank :: "dag \<Rightarrow> hash \<Rightarrow> nat" where
  "vertex_rank d h =
     card {k \<in> fset (fmdom (dag_graph d)). height_in (dag_graph d) k < height_in (dag_graph d) h}"

definition constraint_rank :: "dag \<Rightarrow> constraint \<Rightarrow> nat" where
  "constraint_rank d c =
     card {k \<in> fset (fmdom (dag_graph d)). constraint_height (dag_graph d) c < height_in (dag_graph d) k}"

lemma card_filter_less:
  assumes "finite A" "\<And>x. P x \<Longrightarrow> Q x" "a \<in> A" "Q a" "\<not> P a"
  shows "card {x \<in> A. P x} < card {x \<in> A. Q x}"
proof (rule psubset_card_mono)
  show "finite {x \<in> A. Q x}" using assms(1) by simp
  show "{x \<in> A. P x} \<subset> {x \<in> A. Q x}"
    using assms(2-5) by (intro psubsetI notI) (blast, blast)
qed

lemma parent_height_less:
  assumes "graph_ok (dag_graph d)" "p \<in> parents_of d h"
  shows "p |\<in>| fmdom (dag_graph d) \<and> height_in (dag_graph d) p < height_in (dag_graph d) h"
  using assms graph_okD(3)[OF assms(1)]
  by (fastforce simp: parents_of_def height_in_def split: option.splits intro: fmdomI)

lemma vertex_rank_less:
  assumes "graph_ok (dag_graph d)" "p \<in> parents_of d h"
  shows "vertex_rank d p < vertex_rank d h"
proof -
  let ?h = "height_in (dag_graph d)"
  have p: "p \<in> fset (fmdom (dag_graph d))" "?h p < ?h h" using parent_height_less[OF assms] by auto
  then show ?thesis unfolding vertex_rank_def
    by (intro card_filter_less[of _ _ _ p]) (auto intro: less_trans)
qed

lemma parents_in_height:
  assumes "graph_ok g" "c \<in> parents_in g e"
  shows "constraint_height g c < constraint_height g e"
proof -
  from assms(2) obtain k v where v: "fmlookup g k = Some v" "c \<in> set (parent_constraints v)"
    and k: "k = before e \<or> k = after e" by (auto simp: parents_in_def)
  have "height_in g p < height_in g k" if "p \<in> set (vx_parents v)" for p
    using graph_okD(3)[OF assms(1) v(1) that] v(1) by (auto simp: height_in_def)
  then have "constraint_height g c < height_in g k"
    using parent_constraints_ends[OF v(2)] by (simp add: constraint_height_def)
  also have "\<dots> \<le> constraint_height g e" using k by (auto simp: constraint_height_def)
  finally show ?thesis .
qed

lemma constraint_rank_less:
  assumes "graph_ok (dag_graph d)" "c \<in> parents_in (dag_graph d) e"
    and "before e |\<in>| fmdom (dag_graph d)" "after e |\<in>| fmdom (dag_graph d)"
  shows "constraint_rank d e < constraint_rank d c"
proof -
  let ?g = "dag_graph d"
  have less: "constraint_height ?g c < constraint_height ?g e" using parents_in_height[OF assms(1,2)] .
  obtain k where k: "k \<in> fset (fmdom ?g)" "height_in ?g k = constraint_height ?g e"
  proof (cases "height_in ?g (before e) \<le> height_in ?g (after e)")
    case True
    then show ?thesis using assms(4) that[of "after e"] by (simp add: constraint_height_def max_def)
  next
    case False
    then show ?thesis using assms(3) that[of "before e"] by (simp add: constraint_height_def max_def)
  qed
  with less show ?thesis unfolding constraint_rank_def
    by (intro card_filter_less[of _ _ _ k]) (auto intro: less_trans)
qed

lemma rank_below_depth_bound:
  assumes "maps_ok H d"
  shows "vertex_rank d h < depth_bound d" "constraint_rank d c < depth_bound d"
proof -
  have "card {k \<in> fset (fmdom (dag_graph d)). P k} \<le> fcard (fmdom (dag_graph d))" for P
    by (auto simp: fcard.rep_eq intro!: card_mono)
  then have "card {k \<in> fset (fmdom (dag_graph d)). P k} < depth_bound d" for P
    unfolding depth_bound_def
    by (rule le_imp_less_Suc[OF order_trans[OF _ fcard_graph_vertex[OF assms]]])
  then show "vertex_rank d h < depth_bound d" "constraint_rank d c < depth_bound d"
    by (simp_all add: vertex_rank_def constraint_rank_def)
qed

section \<open>The two walks\<close>

interpretation ancestry: ranked_walk "dag_inv H" "\<lambda>d. fset (fmdom (dag_graph d))" parents_of vertex_rank
  for H
proof
  fix d h p
  assume "dag_inv H d" "p \<in> parents_of d h"
  then show "p \<in> fset (fmdom (dag_graph d))" "vertex_rank d p < vertex_rank d h"
    using parent_height_less vertex_rank_less dag_invD(1) by blast+
qed

definition tracked_in_graph :: "dag \<Rightarrow> constraint set" where
  "tracked_in_graph d = {c. tracked d c}"

interpretation progeny: ranked_walk "dag_inv H" tracked_in_graph
  "\<lambda>d c. fset (children_of d c)" constraint_rank for H
proof
  fix d c e
  assume inv: "dag_inv H d" and "e \<in> fset (children_of d c)"
  then have e: "e \<in> constraints_in (dag_graph d)" "c \<in> parents_in (dag_graph d) e"
    using inv_children[OF inv] by auto
  show "e \<in> tracked_in_graph d" using inv_tracked[OF inv e(1)] by (simp add: tracked_in_graph_def)
  show "constraint_rank d e < constraint_rank d c"
    using constraint_rank_less[OF dag_invD(1)[OF inv] e(2)]
      constraints_in_ends[OF dag_invD(1)[OF inv] e(1)] by blast
qed

end
