(* ===== verification/Dag_Ancestry.thy ===== *)
theory Dag_Ancestry
  imports Dag_Graph
begin

text \<open>
  The walks along the ancestry: \<open>decided_height\<close>, \<open>gather_ancestors\<close>,
  \<open>get_active_ancestors\<close> and \<open>get_active_ancestor_constraints\<close>. In a graph that
  satisfies the invariant none of them crashes; each is compared with the set of vertices that a
  relation on the graph reaches.
\<close>

section \<open>Reachability among ancestors\<close>

definition parent_rel :: "dag \<Rightarrow> (hash \<times> hash) set" where
  "parent_rel d = {(p, q). p \<in> parents_of d q}"

lemma parent_rel_graph: "parent_rel d = graph_rel (dag_graph d)"
  by (auto simp: parent_rel_def graph_rel_def parents_of_def split: option.splits)

text \<open>Steps from undecided vertices, and steps from vertices above a height.\<close>

definition undecided_rel :: "dag \<Rightarrow> (hash \<times> hash) set" where
  "undecided_rel d = {(p, q). p \<in> parents_of d q \<and> decision_of d (unity q) = None}"

definition above_rel :: "dag \<Rightarrow> u64 \<Rightarrow> (hash \<times> hash) set" where
  "above_rel d t = {(p, q). p \<in> parents_of d q \<and> t < height_in (dag_graph d) q}"

definition undecided_reach :: "dag \<Rightarrow> hash \<Rightarrow> hash set" where
  "undecided_reach d h = {k. (k, h) \<in> (undecided_rel d)\<^sup>*}"

lemma parents_of_eq: "fmlookup (dag_graph d) h = Some v \<Longrightarrow> parents_of d h = set (vx_parents v)"
  by (simp add: parents_of_def)

lemma height_in_eq: "fmlookup g h = Some v \<Longrightarrow> height_in g h = vx_height v"
  by (simp add: height_in_def)

lemma graph_node: "h \<in> fset (fmdom (dag_graph d)) \<Longrightarrow>
    (\<And>v. fmlookup (dag_graph d) h = Some v \<Longrightarrow> P) \<Longrightarrow> P"
  by (auto simp: fmlookup_dom_iff)

lemma undecided_reach_unfold:
  "undecided_reach d h =
     insert h (if decision_of d (unity h) = None then \<Union>p \<in> parents_of d h. undecided_reach d p else {})"
proof -
  have "(k, h) \<in> (undecided_rel d)\<^sup>* \<longleftrightarrow>
      k = h \<or> (\<exists>p. (k, p) \<in> (undecided_rel d)\<^sup>* \<and> (p, h) \<in> undecided_rel d)" for k
    by (metis rtrancl.simps)
  then show ?thesis by (auto simp: undecided_reach_def undecided_rel_def)
qed

lemma parent_rel_node:
  assumes "dag_inv H d" "(k, h) \<in> (parent_rel d)\<^sup>*" "h |\<in>| fmdom (dag_graph d)"
  shows "k |\<in>| fmdom (dag_graph d)"
  using ancestry.walk_node[OF assms(1), of k h] assms(2,3) by (simp add: parent_rel_def)

lemma parent_rel_height:
  assumes "dag_inv H d" "(k, h) \<in> (parent_rel d)\<^sup>+"
  shows "height_in (dag_graph d) k < height_in (dag_graph d) h"
  using assms(2) parent_height_less[OF dag_invD(1)[OF assms(1)]]
  by (induction rule: trancl_induct) (auto simp: parent_rel_def intro: less_trans)

lemma undecided_rel_subset: "undecided_rel d \<subseteq> parent_rel d"
  by (auto simp: undecided_rel_def parent_rel_def)

lemma above_rel_subset: "above_rel d t \<subseteq> parent_rel d"
  by (auto simp: above_rel_def parent_rel_def)

lemma undecided_reach_node:
  assumes "dag_inv H d" "k \<in> undecided_reach d h" "h |\<in>| fmdom (dag_graph d)"
  shows "k |\<in>| fmdom (dag_graph d)"
proof (rule parent_rel_node[OF assms(1) _ assms(3)])
  show "(k, h) \<in> (parent_rel d)\<^sup>*"
    using assms(2) rtrancl_mono[OF undecided_rel_subset] by (auto simp: undecided_reach_def)
qed

lemma node_state:
  assumes "dag_inv H d" "fmlookup (dag_graph d) h = Some v"
  obtains cs where "state_of d (unity h) = Some cs"
    and "fmlookup (cs_decision cs) (unity h) = decision_of d (unity h)"
    and "fmlookup (dag_vertex d) h = Some v"
proof -
  have "tracked d (unity h)"
    using inv_tracked[OF assms(1)] unity_in_constraints_in[OF assms(2)] by blast
  then obtain cs where "state_of d (unity h) = Some cs" by (rule trackedE)
  with that inv_vertex[OF assms] show ?thesis by (auto simp: decision_of_def)
qed

section \<open>The decided height\<close>

text \<open>
  What \<open>decided_height\<close> computes: an error exactly when a rejected vertex is reached through
  undecided ones, and otherwise the least height of the accepted vertices so reached.
\<close>

definition decided_height_spec :: "dag \<Rightarrow> hash \<Rightarrow> dag_error + u64 \<Rightarrow> bool" where
  "decided_height_spec d h r \<longleftrightarrow>
     (if \<exists>k \<in> undecided_reach d h. decision_of d (unity k) = Some False
      then r = Inl RejectedAncestor
      else \<exists>k \<in> undecided_reach d h. decision_of d (unity k) = Some True \<and>
             r = Inr (height_in (dag_graph d) k) \<and>
             (\<forall>j \<in> undecided_reach d h. decision_of d (unity j) = Some True \<longrightarrow>
                height_in (dag_graph d) k \<le> height_in (dag_graph d) j))"

definition min_spec :: "dag \<Rightarrow> hash list \<Rightarrow> dag_error + u64 list \<Rightarrow> bool" where
  "min_spec d ps r \<longleftrightarrow>
     (case r of
        Inl e \<Rightarrow> e = RejectedAncestor \<and>
          (\<exists>p \<in> set ps. \<exists>k \<in> undecided_reach d p. decision_of d (unity k) = Some False)
      | Inr hs \<Rightarrow> length hs = length ps \<and> (\<forall>i < length ps. decided_height_spec d (ps ! i) (Inr (hs ! i))))"

lemma try_map_decided_height:
  assumes "\<And>p. p \<in> set ps \<Longrightarrow> \<exists>r. f p = Some r \<and> decided_height_spec d p r"
  shows "\<exists>r. try_map f ps = Some r \<and> min_spec d ps r"
  using assms
proof (induction ps)
  case Nil
  show ?case by (simp add: min_spec_def)
next
  case (Cons p ps)
  then obtain r rs where r: "f p = Some r" "decided_height_spec d p r"
    and rs: "try_map f ps = Some rs" "min_spec d ps rs" by (metis list.set_intros)
  show ?case
  proof (cases r)
    case (Inl e)
    with r show ?thesis by (auto simp: min_spec_def decided_height_spec_def split: if_splits)
  next
    case r': (Inr h)
    show ?thesis
    proof (cases rs)
      case (Inl e)
      with r rs r' show ?thesis by (auto simp: min_spec_def)
    next
      case (Inr hs)
      with r rs r' show ?thesis by (auto simp: min_spec_def nth_Cons split: nat.splits)
    qed
  qed
qed

text \<open>The minimum over several starts.\<close>

lemma min_spec_Min:
  assumes "min_spec d ps (Inr hs)" "ps \<noteq> []"
  shows "\<exists>p \<in> set ps. \<exists>k \<in> undecided_reach d p. decision_of d (unity k) = Some True \<and>
      Min (set hs) = height_in (dag_graph d) k"
    and "\<And>p k. p \<in> set ps \<Longrightarrow> k \<in> undecided_reach d p \<Longrightarrow> decision_of d (unity k) = Some True \<Longrightarrow>
      Min (set hs) \<le> height_in (dag_graph d) k"
    and "\<And>p k. p \<in> set ps \<Longrightarrow> k \<in> undecided_reach d p \<Longrightarrow> decision_of d (unity k) \<noteq> Some False"
proof -
  have len: "length hs = length ps"
    and spec: "\<And>i. i < length ps \<Longrightarrow> decided_height_spec d (ps ! i) (Inr (hs ! i))"
    using assms(1) by (auto simp: min_spec_def)
  have "hs \<noteq> []" using len assms(2) by auto
  then have "Min (set hs) \<in> set hs" by simp
  then obtain i where "i < length ps" "hs ! i = Min (set hs)" by (auto simp: in_set_conv_nth len)
  with spec[of i] show "\<exists>p \<in> set ps. \<exists>k \<in> undecided_reach d p. decision_of d (unity k) = Some True \<and>
      Min (set hs) = height_in (dag_graph d) k"
    by (force simp: decided_height_spec_def split: if_splits)
  fix p k assume p: "p \<in> set ps" and k: "k \<in> undecided_reach d p"
  then obtain i where i: "i < length ps" "p = ps ! i" by (auto simp: in_set_conv_nth)
  have "Min (set hs) \<le> hs ! i" using i len by simp
  moreover have "decision_of d (unity k) \<noteq> Some False \<and>
      (decision_of d (unity k) = Some True \<longrightarrow> hs ! i \<le> height_in (dag_graph d) k)"
    using spec[OF i(1)] k i(2) by (auto simp: decided_height_spec_def split: if_splits)
  ultimately show "decision_of d (unity k) \<noteq> Some False"
    and "decision_of d (unity k) = Some True \<Longrightarrow> Min (set hs) \<le> height_in (dag_graph d) k"
    by auto
qed

lemma foldr_min_Min: "hs \<noteq> [] \<Longrightarrow> foldr min hs (- 1 :: u64) = Min (set hs)"
proof (induction hs)
  case (Cons h hs)
  then show ?case by (cases hs) (simp_all add: min_def)
qed simp

lemma decided_height_walk:
  assumes inv: "dag_inv H d" and "h |\<in>| fmdom (dag_graph d)" "vertex_rank d h < n"
  shows "\<exists>r. decided_height n d h = Some r \<and> decided_height_spec d h r"
proof (rule ancestry.fuel_induct[OF inv assms(2,3)])
  fix n h
  assume "h \<in> fset (fmdom (dag_graph d))"
    and IH: "\<And>p. p \<in> parents_of d h \<Longrightarrow>
      \<exists>r. decided_height n d p = Some r \<and> decided_height_spec d p r"
  then obtain v where v: "fmlookup (dag_graph d) h = Some v" by (rule_tac graph_node)
  from node_state[OF inv this] obtain cs where cs: "state_of d (unity h) = Some cs"
    "fmlookup (cs_decision cs) (unity h) = decision_of d (unity h)"
    "fmlookup (dag_vertex d) h = Some v" .
  note unfold = undecided_reach_unfold[of d h] parents_of_eq[OF v] height_in_eq[OF v]
  show "\<exists>r. decided_height (Suc n) d h = Some r \<and> decided_height_spec d h r"
  proof (cases "decision_of d (unity h)")
    case (Some b)
    with cs unfold show ?thesis by (cases b) (auto simp: decided_height_spec_def)
  next
    case None
    with v dag_invD(6)[OF inv] have ne: "vx_parents v \<noteq> []" by (fastforce simp: roots_ok_def)
    from IH obtain r where r: "try_map (decided_height n d) (vx_parents v) = Some r"
      "min_spec d (vx_parents v) r"
      using try_map_decided_height[of "vx_parents v" "decided_height n d" d] unfold(2) by auto
    show ?thesis
    proof (cases r)
      case (Inl e)
      with r None cs unfold show ?thesis by (auto simp: decided_height_spec_def min_spec_def)
    next
      case (Inr hs)
      then have len: "length hs = length (vx_parents v)" using r(2) by (simp add: min_spec_def)
      have "decided_height (Suc n) d h = Some (Inr (Min (set hs)))"
      proof -
        have "hs \<noteq> []" using len ne by auto
        then show ?thesis using cs None r(1) Inr by (simp add: foldr_min_Min)
      qed
      moreover have "decided_height_spec d h (Inr (Min (set hs)))"
      proof -
        note spec = min_spec_Min[OF r(2)[unfolded Inr] ne]
        have reach: "k \<in> undecided_reach d h \<longleftrightarrow>
            k = h \<or> (\<exists>p \<in> set (vx_parents v). k \<in> undecided_reach d p)" for k
          using unfold None by simp
        have "\<not> (\<exists>k \<in> undecided_reach d h. decision_of d (unity k) = Some False)"
          using spec(3) None by (auto simp: reach)
        moreover obtain k where "k \<in> undecided_reach d h" "decision_of d (unity k) = Some True"
          "Min (set hs) = height_in (dag_graph d) k" using spec(1) reach by blast
        moreover have "Min (set hs) \<le> height_in (dag_graph d) j"
          if "j \<in> undecided_reach d h" "decision_of d (unity j) = Some True" for j
          using that spec(2)[of _ j] None by (auto simp: reach)
        ultimately show ?thesis unfolding decided_height_spec_def by auto
      qed
      ultimately show ?thesis by blast
    qed
  qed
qed

section \<open>The ancestors above a height\<close>

lemma gather_ancestors_walk:
  assumes inv: "dag_inv H d" and "h |\<in>| fmdom (dag_graph d)" "vertex_rank d h < n"
  shows "\<exists>S. gather_ancestors n d h t = Some S \<and> fset S = {k. (k, h) \<in> (above_rel d t)\<^sup>+}"
proof (rule ancestry.fuel_induct[OF inv assms(2,3)])
  fix n h
  assume "h \<in> fset (fmdom (dag_graph d))"
    and IH: "\<And>p. p \<in> parents_of d h \<Longrightarrow>
      \<exists>S. gather_ancestors n d p t = Some S \<and> fset S = {k. (k, p) \<in> (above_rel d t)\<^sup>+}"
  then obtain v where v: "fmlookup (dag_graph d) h = Some v" by (rule_tac graph_node)
  note eqs = parents_of_eq[OF v] height_in_eq[OF v] inv_vertex[OF inv v]
  have step: "(k, h) \<in> (above_rel d t)\<^sup>+ \<longleftrightarrow>
      t < vx_height v \<and> (k \<in> set (vx_parents v) \<or>
        (\<exists>p \<in> set (vx_parents v). (k, p) \<in> (above_rel d t)\<^sup>+))" for k
    using eqs by (subst trancl.simps) (auto simp: above_rel_def)
  from IH obtain G where G: "\<And>p. p \<in> set (vx_parents v) \<Longrightarrow>
      gather_ancestors n d p t = Some (G p) \<and> fset (G p) = {k. (k, p) \<in> (above_rel d t)\<^sup>+}"
    unfolding eqs by metis
  then have "run_map (\<lambda>p. gather_ancestors n d p t) (vx_parents v) = Some (map G (vx_parents v))"
    by (intro run_map_total) simp
  then show "\<exists>S. gather_ancestors (Suc n) d h t = Some S \<and> fset S = {k. (k, h) \<in> (above_rel d t)\<^sup>+}"
    using eqs G step by (auto simp: foldr_funion fset_of_list.rep_eq)
qed


section \<open>The active ancestors\<close>

lemma sort_key_decorated:
  "map snd (sort_key fst (map (\<lambda>h. (f h, h)) hs)) = sort_key f hs"
proof -
  have ins: "insort_key fst (f x, x) (map (\<lambda>h. (f h, h)) ys) = map (\<lambda>h. (f h, h)) (insort_key f x ys)"
    for x ys by (induction ys) auto
  have "sort_key fst (map (\<lambda>h. (f h, h)) hs) = map (\<lambda>h. (f h, h)) (sort_key f hs)"
    by (induction hs) (simp_all add: ins)
  then show ?thesis by (simp add: comp_def)
qed

lemma sort_by_height_total:
  assumes "dag_inv H d" "set hs \<subseteq> fset (fmdom (dag_graph d))"
  shows "\<exists>ss. sort_by_height d hs = Some ss \<and> set ss = set hs \<and> (distinct hs \<longrightarrow> distinct ss) \<and>
    sorted (map (height_in (dag_graph d)) ss)"
proof -
  let ?h = "height_in (dag_graph d)"
  let ?ks = "map (\<lambda>h. (?h h, h)) hs"
  have "run_map (\<lambda>h. do { vx \<leftarrow> fmlookup (dag_vertex d) h; Some (vx_height vx, h) }) hs = Some ?ks"
  proof (rule run_map_total)
    fix h assume "h \<in> set hs"
    then obtain v where "fmlookup (dag_graph d) h = Some v" using assms(2) graph_node by blast
    with inv_vertex[OF assms(1) this]
    show "do { vx \<leftarrow> fmlookup (dag_vertex d) h; Some (vx_height vx, h) } = Some (?h h, h)"
      by (simp add: height_in_def)
  qed
  moreover have "map snd (sort_key fst ?ks) = sort_key ?h hs"
    by (rule sort_key_decorated)
  moreover have "sorted (map ?h hs)" if "length hs < 2"
    using that by (cases hs; cases "tl hs") auto
  ultimately show ?thesis by (auto simp: sort_by_height_def)
qed

text \<open>Parents that a new vertex may name.\<close>

definition parents_known :: "dag \<Rightarrow> vertex \<Rightarrow> bool" where
  "parents_known d vx \<longleftrightarrow> vx_parents vx \<noteq> [] \<and> set (vx_parents vx) \<subseteq> fset (fmdom (dag_graph d))"

definition rejected_reach :: "dag \<Rightarrow> vertex \<Rightarrow> bool" where
  "rejected_reach d vx \<longleftrightarrow>
     (\<exists>p \<in> set (vx_parents vx). \<exists>k \<in> undecided_reach d p. decision_of d (unity k) = Some False)"

text \<open>
  The height down to which ancestors are gathered: the least height of an accepted vertex that a
  parent reaches through undecided ones. Gathering goes on from the vertices above it only.
\<close>

definition decided_floor :: "dag \<Rightarrow> vertex \<Rightarrow> u64 \<Rightarrow> bool" where
  "decided_floor d vx t \<longleftrightarrow>
     (\<exists>p \<in> set (vx_parents vx). \<exists>k \<in> undecided_reach d p.
        decision_of d (unity k) = Some True \<and> t = height_in (dag_graph d) k) \<and>
     (\<forall>p \<in> set (vx_parents vx). \<forall>k \<in> undecided_reach d p.
        decision_of d (unity k) = Some True \<longrightarrow> t \<le> height_in (dag_graph d) k)"

lemma decided_floor_unique: "decided_floor d vx t \<Longrightarrow> decided_floor d vx u \<Longrightarrow> t = u"
  unfolding decided_floor_def by (metis order_antisym)

text \<open>
  The outcome: an error exactly if a rejected vertex is reached through undecided ones or a parent
  descends from another, and otherwise exactly the undecided vertices among the parents and their
  gathered ancestors. Every ancestor reached through undecided vertices is among those.
\<close>

definition active_ancestors_spec :: "dag \<Rightarrow> vertex \<Rightarrow> dag_error + hash list \<Rightarrow> bool" where
  "active_ancestors_spec d vx r \<longleftrightarrow>
     (case r of
        Inl e \<Rightarrow> e = RejectedAncestor \<and> rejected_reach d vx \<or>
          e = SelfReferentialParent \<and> \<not> rejected_reach d vx \<and>
          (\<exists>p \<in> set (vx_parents vx). \<exists>q \<in> set (vx_parents vx). (p, q) \<in> (parent_rel d)\<^sup>+)
      | Inr hs \<Rightarrow> \<not> rejected_reach d vx \<and>
          (\<forall>p \<in> set (vx_parents vx). \<forall>q \<in> set (vx_parents vx). (p, q) \<notin> (parent_rel d)\<^sup>+) \<and>
          sorted (map (height_in (dag_graph d)) hs) \<and>
          (distinct (vx_parents vx) \<longrightarrow> distinct hs) \<and>
          (\<exists>t. decided_floor d vx t \<and>
             (\<forall>k. k \<in> set hs \<longleftrightarrow> decision_of d (unity k) = None \<and>
                (\<exists>p \<in> set (vx_parents vx). (k, p) \<in> (above_rel d t)\<^sup>*))) \<and>
          (\<forall>p \<in> set (vx_parents vx). \<forall>k \<in> undecided_reach d p.
             decision_of d (unity k) = None \<longrightarrow> k \<in> set hs))"

text \<open>A walk through undecided vertices stays above the decided height of its start.\<close>

lemma undecided_above:
  assumes inv: "dag_inv H d" and p: "p |\<in>| fmdom (dag_graph d)"
    and ok: "\<And>k. k \<in> undecided_reach d p \<Longrightarrow> decision_of d (unity k) \<noteq> Some False"
    and t: "\<And>k. k \<in> undecided_reach d p \<Longrightarrow> decision_of d (unity k) = Some True \<Longrightarrow>
      t \<le> height_in (dag_graph d) k"
    and q: "q \<in> undecided_reach d p" "decision_of d (unity q) = None"
  shows "t < height_in (dag_graph d) q"
proof -
  have "q |\<in>| fmdom (dag_graph d)" using undecided_reach_node[OF inv q(1) p] .
  from decided_height_walk[OF inv this, of "depth_bound d"]
  obtain r where r: "decided_height_spec d q r"
    using rank_below_depth_bound[OF dag_invD(2)[OF inv]] by blast
  have trans: "k \<in> undecided_reach d p" if "k \<in> undecided_reach d q" for k
    using that q(1) by (auto simp: undecided_reach_def intro: rtrancl_trans)
  have "\<not> (\<exists>k \<in> undecided_reach d q. decision_of d (unity k) = Some False)" using ok trans by blast
  from r[unfolded decided_height_spec_def if_not_P[OF this]]
  obtain k where k: "k \<in> undecided_reach d q" "decision_of d (unity k) = Some True" by blast
  then have "k \<noteq> q" using q(2) by auto
  then have "(k, q) \<in> (undecided_rel d)\<^sup>+" using k(1) by (simp add: undecided_reach_def rtrancl_eq_or_trancl)
  then have "(k, q) \<in> (parent_rel d)\<^sup>+" by (rule trancl_mono[OF _ undecided_rel_subset])
  then have "height_in (dag_graph d) k < height_in (dag_graph d) q" by (rule parent_rel_height[OF inv])
  moreover have "t \<le> height_in (dag_graph d) k" using t trans k by blast
  ultimately show ?thesis by simp
qed

lemma undecided_gathered:
  assumes inv: "dag_inv H d" and p: "p |\<in>| fmdom (dag_graph d)"
    and ok: "\<And>k. k \<in> undecided_reach d p \<Longrightarrow> decision_of d (unity k) \<noteq> Some False"
    and t: "\<And>k. k \<in> undecided_reach d p \<Longrightarrow> decision_of d (unity k) = Some True \<Longrightarrow>
      t \<le> height_in (dag_graph d) k"
    and k: "(k, p) \<in> (undecided_rel d)\<^sup>+"
  shows "(k, p) \<in> (above_rel d t)\<^sup>+"
proof -
  have step: "(y, z) \<in> above_rel d t" if "(y, z) \<in> undecided_rel d" "z \<in> undecided_reach d p" for y z
  proof -
    have z: "y \<in> parents_of d z" "decision_of d (unity z) = None"
      using that(1) by (simp_all add: undecided_rel_def)
    have "t < height_in (dag_graph d) z" by (rule undecided_above[OF inv p ok t that(2) z(2)])
    with z(1) show ?thesis by (simp add: above_rel_def)
  qed
  show ?thesis using k
  proof (induction rule: converse_trancl_induct)
    case (base y)
    then show ?case using step[of y p] by (auto simp: undecided_reach_def)
  next
    case (step y z)
    then have "z \<in> undecided_reach d p" by (simp add: undecided_reach_def)
    with step show ?case using \<open>\<And>y z. _ \<Longrightarrow> _ \<Longrightarrow> (y, z) \<in> above_rel d t\<close>[of y z] by auto
  qed
qed

text \<open>Every ancestor at or above a height is gathered, so no parent that is one is overlooked.\<close>

lemma parent_gathered:
  assumes inv: "dag_inv H d" and p: "(p, q) \<in> (parent_rel d)\<^sup>+" "t \<le> height_in (dag_graph d) p"
  shows "(p, q) \<in> (above_rel d t)\<^sup>+"
  using p
proof (induction rule: trancl_induct)
  case (base q)
  then have "(p, q) \<in> (parent_rel d)\<^sup>+" by blast
  from parent_rel_height[OF inv this] base show ?case by (auto simp: above_rel_def parent_rel_def)
next
  case (step r q)
  then have "(p, q) \<in> (parent_rel d)\<^sup>+" by (meson trancl.trancl_into_trancl)
  from parent_rel_height[OF inv this] step have "(r, q) \<in> above_rel d t"
    by (auto simp: above_rel_def parent_rel_def)
  with step show ?case by (meson trancl.trancl_into_trancl)
qed

lemma undecided_reach_height:
  assumes inv: "dag_inv H d" and k: "k \<in> undecided_reach d p"
  shows "height_in (dag_graph d) k \<le> height_in (dag_graph d) p"
proof (cases "k = p")
  case False
  then have "(k, p) \<in> (undecided_rel d)\<^sup>+" using k by (simp add: undecided_reach_def rtrancl_eq_or_trancl)
  then have "(k, p) \<in> (parent_rel d)\<^sup>+" by (rule trancl_mono[OF _ undecided_rel_subset])
  from parent_rel_height[OF inv this] show ?thesis by simp
qed simp

lemma active_ancestors_walk:
  assumes inv: "dag_inv H d" and E: "env_ok E" and ps: "parents_known d vx"
  shows "\<exists>r. get_active_ancestors E d vx = Some r \<and> active_ancestors_spec d vx r"
proof -
  let ?ps = "vx_parents vx" and ?n = "depth_bound d"
  note rank = rank_below_depth_bound(1)[OF dag_invD(2)[OF inv]]
  have ne: "?ps \<noteq> []" and node: "\<And>p. p \<in> set ?ps \<Longrightarrow> p |\<in>| fmdom (dag_graph d)"
    using ps by (auto simp: parents_known_def)
  then have known: "\<not> (\<exists>p \<in> set ?ps. p |\<notin>| fmdom (dag_vertex d))"
    using graph_subset_vertex[OF dag_invD(2)[OF inv]] by blast
  obtain r where r: "try_map (decided_height ?n d) ?ps = Some r" "min_spec d ?ps r"
    using try_map_decided_height[of ?ps "decided_height ?n d"] decided_height_walk[OF inv node rank] by blast
  show ?thesis
  proof (cases r)
    case (Inl e)
    with r known show ?thesis
      by (auto simp: get_active_ancestors_def active_ancestors_spec_def min_spec_def rejected_reach_def)
  next
    case (Inr hs)
    note spec = min_spec_Min[OF r(2)[unfolded Inr] ne]
    define t where "t = Min (set hs)"
    have "hs \<noteq> []" using r(2) ne Inr by (auto simp: min_spec_def)
    then have t: "min_opt hs = Some t" by (simp add: t_def min_opt_Min)
    have no_rej: "\<not> rejected_reach d vx" using spec(3) by (auto simp: rejected_reach_def)
    have "\<forall>p \<in> set ?ps. \<exists>S. gather_ancestors ?n d p t = Some S \<and> fset S = {k. (k, p) \<in> (above_rel d t)\<^sup>+}"
      using gather_ancestors_walk[OF inv node rank] by blast
    from bchoice[OF this] obtain G
      where G: "\<And>p. p \<in> set ?ps \<Longrightarrow> gather_ancestors ?n d p t = Some (G p)"
        "\<And>p. p \<in> set ?ps \<Longrightarrow> fset (G p) = {k. (k, p) \<in> (above_rel d t)\<^sup>+}" by blast
    then have gm: "run_map (\<lambda>p. gather_ancestors ?n d p t) ?ps = Some (map G ?ps)"
      by (intro run_map_total) simp
    define A where "A = foldr (|\<union>|) (map G ?ps) {||}"
    have A: "k |\<in>| A \<longleftrightarrow> (\<exists>p \<in> set ?ps. (k, p) \<in> (above_rel d t)\<^sup>+)" for k
      using G(2) by (auto simp: A_def foldr_funion)
    have A_anc: "\<exists>p \<in> set ?ps. (k, p) \<in> (parent_rel d)\<^sup>+" if "k |\<in>| A" for k
      using that unfolding A by (meson trancl_mono above_rel_subset)
    have set_A: "set (env_hashes E A) = fset A" and dist_A: "distinct (env_hashes E A)"
      using env_okD[OF E] by blast+
    let ?all = "env_hashes E A @ ?ps"
    have all: "\<exists>p \<in> set ?ps. (k, p) \<in> (parent_rel d)\<^sup>*" if "k \<in> set ?all" for k
    proof -
      have "k |\<in>| A \<or> k \<in> set ?ps" using that set_A by auto
      then show ?thesis using A_anc by (meson rtrancl.rtrancl_refl trancl_into_rtrancl)
    qed
    have all_node: "k |\<in>| fmdom (dag_graph d)" if "k \<in> set ?all" for k
      using all[OF that] parent_rel_node[OF inv _ node] by blast
    define u where "u = filter (\<lambda>k. decision_of d (unity k) = None) ?all"
    have "run_filter (undecided_vertex d) ?all = Some u" unfolding u_def
    proof (rule run_filter_total)
      fix k assume "k \<in> set ?all"
      then obtain v where "fmlookup (dag_graph d) k = Some v" using all_node graph_node by blast
      from node_state[OF inv this] obtain cs where "state_of d (unity k) = Some cs"
        "fmlookup (cs_decision cs) (unity k) = decision_of d (unity k)" .
      then show "undecided_vertex d k = Some (decision_of d (unity k) = None)"
        by (auto simp: undecided_vertex_def fmlookup_dom_iff)
    qed
    moreover obtain ss where ss: "sort_by_height d u = Some ss" "set ss = set u"
      "distinct u \<longrightarrow> distinct ss" "sorted (map (height_in (dag_graph d)) ss)"
      using sort_by_height_total[OF inv, of u] all_node by (auto simp: u_def)
    ultimately have res: "get_active_ancestors E d vx =
        Some (if \<exists>p \<in> set ?ps. p |\<in>| A then Inl SelfReferentialParent else Inr ss)"
      using known r(1) Inr t gm by (simp add: get_active_ancestors_def A_def)
    show ?thesis
    proof (cases "\<exists>p \<in> set ?ps. p |\<in>| A")
      case True
      then have "\<exists>p \<in> set ?ps. \<exists>q \<in> set ?ps. (p, q) \<in> (parent_rel d)\<^sup>+" using A_anc by meson
      with True res no_rej show ?thesis by (simp add: active_ancestors_spec_def)
    next
      case False
      have "k \<in> set ss" if p: "p \<in> set ?ps" and k: "k \<in> undecided_reach d p"
        "decision_of d (unity k) = None" for p k
      proof (cases "k = p")
        case True
        with p k ss(2) show ?thesis by (simp add: u_def)
      next
        case False
        then have "(k, p) \<in> (undecided_rel d)\<^sup>+"
          using k(1) by (simp add: undecided_reach_def rtrancl_eq_or_trancl)
        then have "(k, p) \<in> (above_rel d t)\<^sup>+"
          using undecided_gathered[OF inv node[OF p], of t k] spec(2,3)[OF p] by (simp add: t_def)
        then have "k |\<in>| A" using p by (auto simp: A)
        with k ss(2) set_A show ?thesis by (simp add: u_def)
      qed
      moreover have "distinct ss" if "distinct ?ps"
        using that False dist_A set_A ss(3) by (auto simp: u_def)
      moreover have "\<exists>t. decided_floor d vx t \<and>
          (\<forall>k. k \<in> set ss \<longleftrightarrow> decision_of d (unity k) = None \<and>
            (\<exists>p \<in> set ?ps. (k, p) \<in> (above_rel d t)\<^sup>*))"
      proof (intro exI conjI allI)
        show "decided_floor d vx t" using spec(1,2) unfolding decided_floor_def t_def by blast
        fix k
        have "k \<in> set ?all \<longleftrightarrow> (\<exists>p \<in> set ?ps. (k, p) \<in> (above_rel d t)\<^sup>*)"
          using set_A by (auto simp: A rtrancl_eq_or_trancl)
        then show "k \<in> set ss \<longleftrightarrow> decision_of d (unity k) = None \<and>
            (\<exists>p \<in> set ?ps. (k, p) \<in> (above_rel d t)\<^sup>*)"
          using ss(2) by (auto simp: u_def)
      qed
      moreover have "(p, q) \<notin> (parent_rel d)\<^sup>+" if p: "p \<in> set ?ps" and q: "q \<in> set ?ps" for p q
      proof
        assume pq: "(p, q) \<in> (parent_rel d)\<^sup>+"
        obtain r where "decided_height_spec d p r"
          using decided_height_walk[OF inv node[OF p] rank] by blast
        moreover have "\<not> (\<exists>k \<in> undecided_reach d p. decision_of d (unity k) = Some False)"
          using spec(3)[OF p] by blast
        ultimately obtain k where k: "k \<in> undecided_reach d p" "decision_of d (unity k) = Some True"
          unfolding decided_height_spec_def by (simp only: if_False) blast
        have "t \<le> height_in (dag_graph d) k" using spec(2)[OF p k] by (simp add: t_def)
        also have "\<dots> \<le> height_in (dag_graph d) p" using undecided_reach_height[OF inv k(1)] .
        finally have "p |\<in>| A" using parent_gathered[OF inv pq] q by (auto simp: A)
        with False p show False by blast
      qed
      ultimately show ?thesis using False res no_rej ss(4)
        by (simp add: active_ancestors_spec_def)
    qed
  qed
qed


text \<open>
  With a parent that is known but waits to be inserted, the walk crashes at that parent, unless one
  before it ends the walk with an error.
\<close>

lemma decided_height_outside:
  assumes "dag_inv H d" "h |\<notin>| fmdom (dag_graph d)"
  shows "decided_height n d h = None"
proof -
  have "unity h \<notin> constraints_in (dag_graph d)"
    using constraints_in_ends[OF dag_invD(1)[OF assms(1)], of "unity h"] assms(2) by auto
  then have "\<not> tracked d (unity h)"
    using dag_invD(3)[OF assms(1)] by (simp add: state_ok_def)
  then show ?thesis by (cases n) (simp_all add: tracked_def)
qed

lemma waiting_parent_walk:
  assumes inv: "dag_inv H d" and "set as \<subseteq> fset (fmdom (dag_graph d))" "q |\<notin>| fmdom (dag_graph d)"
  shows "try_map (decided_height (depth_bound d) d) (as @ q # bs) =
    (if \<exists>p \<in> set as. \<exists>k \<in> undecided_reach d p. decision_of d (unity k) = Some False
     then Some (Inl RejectedAncestor) else None)"
  using assms(2)
proof (induction as)
  case Nil
  then show ?case by (simp add: decided_height_outside[OF inv assms(3)])
next
  case (Cons p as)
  then obtain r where r: "decided_height (depth_bound d) d p = Some r" "decided_height_spec d p r"
    using decided_height_walk[OF inv, of p "depth_bound d"] rank_below_depth_bound(1)[OF dag_invD(2)[OF inv]]
    by auto
  show ?case
  proof (cases "\<exists>k \<in> undecided_reach d p. decision_of d (unity k) = Some False")
    case True
    with r show ?thesis by (auto simp: decided_height_spec_def)
  next
    case False
    with r obtain t where "r = Inr t" unfolding decided_height_spec_def by (simp only: if_False) blast
    with r(1) False Cons show ?thesis by auto
  qed
qed

text \<open>So the outcome is known for every vertex.\<close>

definition active_ancestors_outcome :: "dag \<Rightarrow> vertex \<Rightarrow> (dag_error + hash list) option \<Rightarrow> bool" where
  "active_ancestors_outcome d vx r \<longleftrightarrow>
     (if \<not> set (vx_parents vx) \<subseteq> fset (fmdom (dag_vertex d)) then r = Some (Inl NotFound)
      else if vx_parents vx = [] then r = None
      else if set (vx_parents vx) \<subseteq> fset (fmdom (dag_graph d))
        then (\<exists>res. r = Some res \<and> active_ancestors_spec d vx res)
      else r = (if \<exists>p \<in> set (takeWhile (\<lambda>p. p |\<in>| fmdom (dag_graph d)) (vx_parents vx)).
                     \<exists>k \<in> undecided_reach d p. decision_of d (unity k) = Some False
                then Some (Inl RejectedAncestor) else None))"

lemma active_ancestors_total:
  assumes inv: "dag_inv H d" and E: "env_ok E"
  shows "active_ancestors_outcome d vx (get_active_ancestors E d vx)"
proof -
  let ?ps = "vx_parents vx"
  consider (unknown) "\<not> set ?ps \<subseteq> fset (fmdom (dag_vertex d))"
    | (empty) "set ?ps \<subseteq> fset (fmdom (dag_vertex d))" "?ps = []"
    | (known) "set ?ps \<subseteq> fset (fmdom (dag_vertex d))" "parents_known d vx"
    | (waiting) "set ?ps \<subseteq> fset (fmdom (dag_vertex d))" "\<not> set ?ps \<subseteq> fset (fmdom (dag_graph d))"
    by (auto simp: parents_known_def)
  then show ?thesis
  proof cases
    case unknown
    then show ?thesis by (auto simp: active_ancestors_outcome_def get_active_ancestors_def)
  next
    case empty
    then show ?thesis by (simp add: active_ancestors_outcome_def get_active_ancestors_def)
  next
    case known
    then show ?thesis using active_ancestors_walk[OF inv E known(2)]
      by (simp add: active_ancestors_outcome_def parents_known_def)
  next
    case waiting
    let ?as = "takeWhile (\<lambda>p. p |\<in>| fmdom (dag_graph d)) ?ps"
    obtain q bs where ps: "?ps = ?as @ q # bs" "q |\<notin>| fmdom (dag_graph d)"
    proof -
      have "dropWhile (\<lambda>p. p |\<in>| fmdom (dag_graph d)) ?ps \<noteq> []"
        using waiting(2) by (auto simp: dropWhile_eq_Nil_conv)
      then obtain q bs where "dropWhile (\<lambda>p. p |\<in>| fmdom (dag_graph d)) ?ps = q # bs"
        by (meson neq_Nil_conv)
      with that show thesis by (metis dropWhile_eq_Cons_conv takeWhile_dropWhile_id)
    qed
    have "set ?as \<subseteq> fset (fmdom (dag_graph d))" by (auto dest: set_takeWhileD)
    from waiting_parent_walk[OF inv this ps(2), of bs] have
      "try_map (decided_height (depth_bound d) d) ?ps =
         (if \<exists>p \<in> set ?as. \<exists>k \<in> undecided_reach d p. decision_of d (unity k) = Some False
          then Some (Inl RejectedAncestor) else None)" using ps(1) by simp
    moreover have "\<not> (\<exists>p \<in> set ?ps. p |\<notin>| fmdom (dag_vertex d))" "?ps \<noteq> []" using waiting by auto
    ultimately show ?thesis using waiting
      by (auto simp: active_ancestors_outcome_def get_active_ancestors_def)
  qed
qed


section \<open>The active constraints\<close>

text \<open>The constraints of an ancestor, and those that a reader of the graph would call active.\<close>

definition ancestor_constraint :: "dag \<Rightarrow> (hash \<Rightarrow> hash \<Rightarrow> bool) \<Rightarrow> vertex \<Rightarrow> constraint \<Rightarrow> bool" where
  "ancestor_constraint d reach vx c \<longleftrightarrow>
     c \<in> set (parent_constraints vx) \<or>
     (\<exists>p \<in> set (vx_parents vx). \<exists>k v. reach p k \<and> decision_of d (unity k) = None \<and>
        fmlookup (dag_graph d) k = Some v \<and> c \<in> set (parent_constraints v))"

definition active_constraints_spec :: "dag \<Rightarrow> vertex \<Rightarrow> dag_error + constraint list \<Rightarrow> bool" where
  "active_constraints_spec d vx r \<longleftrightarrow>
     (case r of
        Inl e \<Rightarrow> e = RejectedAncestor \<and> rejected_reach d vx \<or>
          e = SelfReferentialParent \<and> \<not> rejected_reach d vx \<and>
          (\<exists>p \<in> set (vx_parents vx). \<exists>q \<in> set (vx_parents vx). (p, q) \<in> (parent_rel d)\<^sup>+)
      | Inr cs \<Rightarrow> \<not> rejected_reach d vx \<and>
          (\<forall>p \<in> set (vx_parents vx). \<forall>q \<in> set (vx_parents vx). (p, q) \<notin> (parent_rel d)\<^sup>+) \<and>
          distinct cs \<and>
          (\<exists>t. decided_floor d vx t \<and>
             (\<forall>c. c \<in> set cs \<longleftrightarrow> decision_of d c = None \<and>
                ancestor_constraint d (\<lambda>p k. (k, p) \<in> (above_rel d t)\<^sup>*) vx c)) \<and>
          (\<forall>c \<in> set cs. decision_of d c = None \<and>
             ancestor_constraint d (\<lambda>p k. (k, p) \<in> (parent_rel d)\<^sup>*) vx c) \<and>
          (\<forall>c. decision_of d c = None \<longrightarrow>
             ancestor_constraint d (\<lambda>p k. k \<in> undecided_reach d p) vx c \<longrightarrow> c \<in> set cs))"

lemma active_constraints_walk:
  assumes inv: "dag_inv H d" and E: "env_ok E" and ps: "parents_known d vx"
  shows "\<exists>r. get_active_ancestor_constraints E d vx = Some r \<and> active_constraints_spec d vx r"
proof -
  let ?ps = "vx_parents vx"
  obtain r where r: "get_active_ancestors E d vx = Some r" "active_ancestors_spec d vx r"
    using active_ancestors_walk[OF assms] by blast
  show ?thesis
  proof (cases r)
    case (Inl e)
    with r show ?thesis
      by (simp add: get_active_ancestor_constraints_def active_ancestors_spec_def active_constraints_spec_def)
  next
    case (Inr hs)
    have node: "p |\<in>| fmdom (dag_graph d)" if "p \<in> set ?ps" for p
      using ps that by (auto simp: parents_known_def)
    have hs: "\<not> rejected_reach d vx \<and>
        (\<forall>p \<in> set ?ps. \<forall>q \<in> set ?ps. (p, q) \<notin> (parent_rel d)\<^sup>+)"
      "\<And>p k. p \<in> set ?ps \<Longrightarrow> k \<in> undecided_reach d p \<Longrightarrow> decision_of d (unity k) = None \<Longrightarrow> k \<in> set hs"
      using r(2) unfolding active_ancestors_spec_def Inr by (simp_all only: sum.case) blast+
    obtain t where t: "decided_floor d vx t" "\<And>k. k \<in> set hs \<longleftrightarrow> decision_of d (unity k) = None \<and>
        (\<exists>p \<in> set ?ps. (k, p) \<in> (above_rel d t)\<^sup>*)"
      using r(2) unfolding active_ancestors_spec_def Inr by (simp only: sum.case) blast
    have hs_path: "\<exists>p \<in> set ?ps. (k, p) \<in> (parent_rel d)\<^sup>*" if "k \<in> set hs" for k
      using that rtrancl_mono[OF above_rel_subset, of d t] unfolding t(2) by blast
    have "\<exists>v. fmlookup (dag_graph d) k = Some v" if "k \<in> set hs" for k
      using hs_path[OF that] parent_rel_node[OF inv _ node] graph_node by (metis fmlookup_dom_iff)
    then obtain V where V: "\<And>k. k \<in> set hs \<Longrightarrow> fmlookup (dag_graph d) k = Some (V k)" by metis
    then have look: "run_map (fmlookup (dag_vertex d)) hs = Some (map V hs)"
      by (intro run_map_total) (blast intro: inv_vertex[OF inv])
    define cs where "cs = filter (undecided d)
      (unique (concat (map parent_constraints (map V hs)) @ parent_constraints vx))"
    have mem: "c \<in> set cs \<longleftrightarrow> decision_of d c = None \<and>
        (c \<in> set (parent_constraints vx) \<or> (\<exists>k \<in> set hs. c \<in> set (parent_constraints (V k))))" for c
      by (auto simp: cs_def undecided_iff)
    have exact: "\<forall>c. c \<in> set cs \<longleftrightarrow> decision_of d c = None \<and>
        ancestor_constraint d (\<lambda>p k. (k, p) \<in> (above_rel d t)\<^sup>*) vx c"
    proof
      fix c
      have "(\<exists>k \<in> set hs. c \<in> set (parent_constraints (V k))) \<longleftrightarrow>
          (\<exists>k \<in> set hs. \<exists>v. fmlookup (dag_graph d) k = Some v \<and> c \<in> set (parent_constraints v))"
        using V by auto
      also have "\<dots> \<longleftrightarrow> (\<exists>p \<in> set ?ps. \<exists>k v. (k, p) \<in> (above_rel d t)\<^sup>* \<and>
          decision_of d (unity k) = None \<and> fmlookup (dag_graph d) k = Some v \<and>
          c \<in> set (parent_constraints v))"
        using t(2) by blast
      finally show "c \<in> set cs \<longleftrightarrow> decision_of d c = None \<and>
          ancestor_constraint d (\<lambda>p k. (k, p) \<in> (above_rel d t)\<^sup>*) vx c"
        unfolding mem ancestor_constraint_def by simp
    qed
    have sound: "\<forall>c \<in> set cs. decision_of d c = None \<and>
        ancestor_constraint d (\<lambda>p k. (k, p) \<in> (parent_rel d)\<^sup>*) vx c"
    proof
      fix c assume "c \<in> set cs"
      then have c: "decision_of d c = None" "c \<in> set (parent_constraints vx) \<or>
          (\<exists>k \<in> set hs. c \<in> set (parent_constraints (V k)))" by (simp_all add: mem)
      have "\<exists>p \<in> set ?ps. \<exists>j v. (j, p) \<in> (parent_rel d)\<^sup>* \<and> decision_of d (unity j) = None \<and>
          fmlookup (dag_graph d) j = Some v \<and> c \<in> set (parent_constraints v)"
        if k: "k \<in> set hs" "c \<in> set (parent_constraints (V k))" for k
        using hs_path[OF k(1)] V[OF k(1)] k t(2)[of k] by blast
      with c show "decision_of d c = None \<and>
          ancestor_constraint d (\<lambda>p k. (k, p) \<in> (parent_rel d)\<^sup>*) vx c"
        unfolding ancestor_constraint_def by blast
    qed
    have complete: "\<forall>c. decision_of d c = None \<longrightarrow>
        ancestor_constraint d (\<lambda>p k. k \<in> undecided_reach d p) vx c \<longrightarrow> c \<in> set cs"
      using hs(2) V unfolding mem ancestor_constraint_def by (metis option.inject)
    have "\<exists>t. decided_floor d vx t \<and> (\<forall>c. c \<in> set cs \<longleftrightarrow> decision_of d c = None \<and>
        ancestor_constraint d (\<lambda>p k. (k, p) \<in> (above_rel d t)\<^sup>*) vx c)"
      by (rule exI[of _ t]) (rule conjI[OF t(1) exact])
    moreover have "distinct cs" by (simp add: cs_def)
    ultimately have "active_constraints_spec d vx (Inr cs)"
      unfolding active_constraints_spec_def sum.case
      by (intro conjI hs(1)[THEN conjunct1] hs(1)[THEN conjunct2] sound complete)
    moreover have "get_active_ancestor_constraints E d vx = Some (Inr cs)"
      using r(1) Inr look by (simp add: get_active_ancestor_constraints_def cs_def)
    ultimately show ?thesis by blast
  qed
qed

lemma active_constraints_tracked:
  assumes "dag_inv H d" "active_constraints_spec d vx (Inr cs)" "c \<in> set cs"
    and "fmlookup (dag_graph d) h = Some vx"
  shows "tracked d c"
proof -
  have "ancestor_constraint d (\<lambda>p k. (k, p) \<in> (parent_rel d)\<^sup>*) vx c"
    using assms(2,3) by (simp add: active_constraints_spec_def)
  then have "c \<in> constraints_in (dag_graph d)"
    using assms(4) by (auto simp: ancestor_constraint_def constraints_in_def)
  then show ?thesis by (rule inv_tracked[OF assms(1)])
qed

end
