(* ===== verification/Dag_Insert.thy ===== *)
theory Dag_Insert
  imports Dag_Ancestry
begin

text \<open>
  Insertion: \<open>insert\<close> as a change of the constraint graph, \<open>check_vertex\<close>,
  \<open>try_insert\<close>. An insertion into a graph that satisfies the invariant returns, keeps the
  invariant, and leaves every recorded vote alone.
\<close>

section \<open>What an insertion leaves alone\<close>

text \<open>
  Known conflict sets change at most in their children; new ones carry no vote, and no decision
  but a rejection.
\<close>

definition unvoted :: "conflict_set \<Rightarrow> bool" where
  "unvoted cs \<longleftrightarrow>
     (\<forall>x. fmlookup (cs_decision cs) x \<noteq> Some True \<and> fmlookup (cs_chit cs) x \<noteq> Some True \<and>
        (\<forall>n. fmlookup (cs_count cs) x = Some n \<longrightarrow> n = 0))"

definition state_grows :: "dag \<Rightarrow> dag \<Rightarrow> bool" where
  "state_grows d d' \<longleftrightarrow>
     (\<forall>x cs. state_of d x = Some cs \<longrightarrow> (\<exists>ch. state_of d' x = Some (cs\<lparr>cs_children := ch\<rparr>))) \<and>
     (\<forall>x cs. state_of d x = None \<longrightarrow> state_of d' x = Some cs \<longrightarrow> unvoted cs)"

definition insert_frame :: "dag \<Rightarrow> dag \<Rightarrow> bool" where
  "insert_frame d d' \<longleftrightarrow> same_maps d d' \<and> state_grows d d'"

lemma insert_frame_grows: "insert_frame d d' \<Longrightarrow> state_grows d d'"
  by (simp add: insert_frame_def)

lemma state_grows_old:
  assumes "state_grows d d'" "state_of d x = Some cs"
  obtains ch where "state_of d' x = Some (cs\<lparr>cs_children := ch\<rparr>)"
  using assms unfolding state_grows_def by blast

lemma state_grows_fresh:
  "state_grows d d' \<Longrightarrow> state_of d x = None \<Longrightarrow> state_of d' x = Some cs \<Longrightarrow> unvoted cs"
  unfolding state_grows_def by blast

lemma state_grows_same: "dag_state d = dag_state d' \<Longrightarrow> state_grows d d'"
proof -
  assume "dag_state d = dag_state d'"
  then have st: "state_of d' x = state_of d x" for x by (simp add: state_of_def)
  have "\<exists>ch. cs = cs\<lparr>cs_children := ch\<rparr>" for cs :: conflict_set
    by (rule exI[of _ "cs_children cs"]) simp
  then show ?thesis by (simp add: state_grows_def st)
qed

lemma state_grows_trans:
  assumes "state_grows d e" "state_grows e f"
  shows "state_grows d f"
proof -
  have old: "\<exists>ch. state_of f x = Some (cs\<lparr>cs_children := ch\<rparr>)" if st: "state_of d x = Some cs" for x cs
  proof -
    obtain ch1 where "state_of e x = Some (cs\<lparr>cs_children := ch1\<rparr>)"
      using state_grows_old[OF assms(1) st] .
    then obtain ch2 where "state_of f x = Some (cs\<lparr>cs_children := ch1\<rparr>\<lparr>cs_children := ch2\<rparr>)"
      using state_grows_old[OF assms(2)] by blast
    then show ?thesis by auto
  qed
  have new: "unvoted cs" if "state_of d x = None" "state_of f x = Some cs" for x cs
  proof (cases "state_of e x")
    case None
    then show ?thesis using that state_grows_fresh[OF assms(2)] by blast
  next
    case (Some cs1)
    obtain ch where "state_of f x = Some (cs1\<lparr>cs_children := ch\<rparr>)"
      using state_grows_old[OF assms(2) Some] .
    then show ?thesis using that state_grows_fresh[OF assms(1) that(1) Some] by (simp add: unvoted_def)
  qed
  show ?thesis using old new unfolding state_grows_def by blast
qed

lemma insert_frame_refl [simp, intro]: "insert_frame d d"
  by (simp add: insert_frame_def same_maps_def state_grows_same)

lemma insert_frame_trans [trans]: "insert_frame d e \<Longrightarrow> insert_frame e f \<Longrightarrow> insert_frame d f"
  unfolding insert_frame_def by (auto simp: same_maps_def intro: state_grows_trans)

lemma insert_frame_fields:
  assumes "insert_frame d d'"
  shows "dag_config d' = dag_config d" "dag_vertex d' = dag_vertex d" "dag_graph d' = dag_graph d"
    "dag_pending_query d' = dag_pending_query d" "dag_children d' = dag_children d"
    "dag_frontier d' = dag_frontier d"
  using assms by (simp_all add: insert_frame_def state_grows_def same_maps_def)

lemma state_grows_accessors:
  assumes "state_grows d d'" "tracked d x"
  shows "tracked d' x" "decision_of d' x = decision_of d x" "chit_of d' x = chit_of d x"
    "count_of d' x = count_of d x" "preferred_of d' x = preferred_of d x"
    "recorded_parents d' x = recorded_parents d x"
proof -
  obtain cs where cs: "state_of d x = Some cs" using assms(2) by (rule trackedE)
  obtain ch where "state_of d' x = Some (cs\<lparr>cs_children := ch\<rparr>)"
    using assms(1) cs unfolding state_grows_def by blast
  with cs show "tracked d' x" "decision_of d' x = decision_of d x" "chit_of d' x = chit_of d x"
    "count_of d' x = count_of d x" "preferred_of d' x = preferred_of d x"
    "recorded_parents d' x = recorded_parents d x"
    by (simp_all add: tracked_def decision_of_def chit_of_def count_of_def preferred_of_def
        recorded_parents_def)
qed

lemma state_grows_new:
  assumes "state_grows d d'" "\<not> tracked d x"
  shows "decision_of d' x \<noteq> Some True" "\<not> chit_of d' x" "count_of d' x = 0"
  using assms unfolding state_grows_def
  by (auto simp: tracked_def decision_of_def chit_of_def count_of_def unvoted_def split: option.splits)

section \<open>Registering children in the constraint graph\<close>

lemma add_constraint_child_total:
  assumes wf: "states_wf d" and p: "tracked d p"
  shows "\<exists>d'. add_constraint_child c p d = Some d' \<and> states_wf d' \<and> insert_frame d d' \<and>
    (\<forall>x. tracked d' x = tracked d x) \<and>
    (\<forall>x. children_of d' x = (if x = p then finsert c (children_of d x) else children_of d x))"
proof -
  obtain cs where cs: "state_of d p = Some cs" using p by (rule trackedE)
  note wf_cs = states_wfD[OF wf cs]
  obtain S where S: "fmlookup (cs_children cs) p = Some S"
    using conflict_set_wf_lookup(5)[OF wf_cs, of p] by auto
  let ?cs' = "cs\<lparr>cs_children := fmupd p (finsert c S) (cs_children cs)\<rparr>"
  let ?d' = "d\<lparr>dag_state := fmupd (conflict_set_key p) ?cs' (dag_state d)\<rparr>"
  note upd = state_of_update[OF cs, of ?cs']
  have pair: "state_of d x = Some cs" if "x |\<in>| pair_of p" for x
    using cs state_of_pair[OF that] by simp
  have wf': "conflict_set_wf p ?cs'" using wf_cs by (simp add: conflict_set_wf_def finsert_absorb)
  have "add_constraint_child c p d = Some ?d'"
    using cs S by (simp add: add_constraint_child_def update_state_def)
  moreover have "states_wf ?d'"
    by (rule states_wf_update[OF cs wf wf'])
  moreover have "insert_frame d ?d'"
  proof -
    have "\<exists>ch. state_of ?d' x = Some (cs1\<lparr>cs_children := ch\<rparr>)" if "state_of d x = Some cs1" for x cs1
    proof (cases "x |\<in>| pair_of p")
      case True
      then have "state_of ?d' x = Some ?cs'" by (simp add: upd del: pair_of_iff)
      moreover have "cs1 = cs" using that pair[OF True] by simp
      ultimately show ?thesis by auto
    next
      case False
      then show ?thesis using that by (auto simp: upd simp del: pair_of_iff intro: exI[of _ "cs_children cs1"])
    qed
    then show ?thesis
      using pair by (auto simp: insert_frame_def state_grows_def same_maps_def upd simp del: pair_of_iff split: if_splits)
  qed
  moreover have "tracked ?d' x = tracked d x" for x
    using pair by (simp add: tracked_def upd del: pair_of_iff)
  moreover have "children_of ?d' x = (if x = p then finsert c (children_of d x) else children_of d x)" for x
    using pair[of x] cs S by (auto simp: children_of_def upd simp del: pair_of_iff split: if_splits)
      (simp_all add: pair_of_def)
  ultimately show ?thesis by blast
qed

lemma add_constraint_children_total:
  assumes "states_wf d" "\<And>p. p \<in> set ps \<Longrightarrow> tracked d p"
  shows "\<exists>d'. run_fold (add_constraint_child c) ps d = Some d' \<and> states_wf d' \<and> insert_frame d d' \<and>
    (\<forall>x. tracked d' x = tracked d x) \<and>
    (\<forall>x. children_of d' x = (if x \<in> set ps then finsert c (children_of d x) else children_of d x))"
  using assms
proof (induction ps arbitrary: d)
  case (Cons p ps)
  obtain d1 where d1: "add_constraint_child c p d = Some d1" "states_wf d1" "insert_frame d d1"
    "\<And>x. tracked d1 x = tracked d x"
    "\<And>x. children_of d1 x = (if x = p then finsert c (children_of d x) else children_of d x)"
    using add_constraint_child_total[OF Cons.prems(1), of p c] Cons.prems(2) by auto
  obtain d2 where d2: "run_fold (add_constraint_child c) ps d1 = Some d2" "states_wf d2"
    "insert_frame d1 d2" "\<And>x. tracked d2 x = tracked d1 x"
    "\<And>x. children_of d2 x = (if x \<in> set ps then finsert c (children_of d1 x) else children_of d1 x)"
    using Cons.IH[OF d1(2)] Cons.prems(2) d1(4) by auto
  have "run_fold (add_constraint_child c) (p # ps) d = Some d2" using d1(1) d2(1) by simp
  moreover have "insert_frame d d2" using d1(3) d2(3) by (rule insert_frame_trans)
  moreover have "children_of d2 x =
      (if x \<in> set (p # ps) then finsert c (children_of d x) else children_of d x)" for x
    by (simp add: d1(5) d2(5))
  ultimately show ?case using d2(2,4) d1(4) by blast
qed simp


section \<open>Inserting one constraint\<close>

lemma constraint_parents_total:
  assumes tab: "\<And>k v. fmlookup g k = Some v \<Longrightarrow> fmlookup (dag_vertex d) k = Some v"
    and ends: "before c |\<in>| fmdom g" "after c |\<in>| fmdom g"
  obtains S where "constraint_parents d c = Some S" "fset S = parents_in g c"
proof -
  obtain v0 v1 where v: "fmlookup g (before c) = Some v0" "fmlookup g (after c) = Some v1"
    using ends by (auto simp: fmlookup_dom_iff)
  then have "constraint_parents d c = Some (fset_of_list (parent_constraints v0 @ parent_constraints v1))"
    by (simp add: constraint_parents_def tab)
  moreover have "fset (fset_of_list (parent_constraints v0 @ parent_constraints v1)) = parents_in g c"
    using v by (auto simp: parents_in_def fset_of_list.rep_eq)
  ultimately show ?thesis by (rule that)
qed

lemma is_rejected_total:
  "tracked d p \<Longrightarrow> is_rejected d p = Some (decision_of d p = Some False)"
  by (auto simp: is_rejected_def decision_of_def tracked_def)

lemma is_accepted_total:
  "tracked d p \<Longrightarrow> is_accepted d p = Some (decision_of d p = Some True)"
  by (auto simp: is_accepted_def decision_of_def tracked_def)

text \<open>The conflict set of a constraint met for the first time.\<close>

definition fresh_set :: "constraint \<Rightarrow> constraint fset \<Rightarrow> bool \<Rightarrow> conflict_set" where
  "fresh_set c S rejected =
     (if rejected
      then (conflict_set_new c S)\<lparr>cs_decision := fmupd c False (cs_decision (conflict_set_new c S))\<rparr>
      else conflict_set_new c S)"

lemma fresh_set_facts:
  "conflict_set_wf c (fresh_set c S r)" "unvoted (fresh_set c S r)"
  "x |\<in>| pair_of c \<Longrightarrow> fmlookup (cs_children (fresh_set c S r)) x = Some {||}"
  "fmlookup (cs_decision (fresh_set c S r)) x = (if r \<and> x = c then Some False else None)"
proof -
  show "conflict_set_wf c (fresh_set c S r)"
    using conflict_set_wf_new[of c S] by (auto simp: fresh_set_def conflict_set_wf_def pair_of_def)
  show "unvoted (fresh_set c S r)"
    by (simp add: fresh_set_def unvoted_def)
qed (simp_all add: fresh_set_def)

lemma add_state_entry:
  fixes c d r S
  defines "d' \<equiv> d\<lparr>dag_state := map_try_insert (conflict_set_key c) (fresh_set c S r) (dag_state d)\<rparr>"
  assumes wf: "states_wf d"
  shows "states_wf d'" "insert_frame d d'" "tracked d' x \<longleftrightarrow> tracked d x \<or> x |\<in>| pair_of c"
    "children_of d' x = children_of d x"
    "\<not> tracked d c \<Longrightarrow> decision_of d' c = (if r then Some False else None)"
    "\<not> tracked d x \<Longrightarrow> recorded_parents d' x \<subseteq> (if x = c then fset S else {})"
proof -
  have st: "state_of d' x =
      (if x |\<in>| pair_of c \<and> state_of d x = None then Some (fresh_set c S r) else state_of d x)" for x
    by (cases "conflict_set_key x = conflict_set_key c")
       (auto simp: d'_def state_of_def pair_of_key simp del: pair_of_iff)
  show "states_wf d'"
    unfolding states_wf_def
  proof (intro allI impI)
    fix x cs assume x: "state_of d' x = Some cs"
    show "conflict_set_wf x cs"
    proof (cases "x |\<in>| pair_of c \<and> state_of d x = None")
      case True
      then have "cs = fresh_set c S r" using x by (simp add: st del: pair_of_iff)
      moreover have "conflict_set_key x = conflict_set_key c" using True by (simp add: pair_of_key del: pair_of_iff)
      ultimately show ?thesis using fresh_set_facts(1) conflict_set_wf_same_key by blast
    next
      case False
      have "state_of d x = Some cs" using x unfolding st if_not_P[OF False] .
      then show ?thesis by (rule states_wfD[OF wf])
    qed
  qed
  have "same_maps d d'" by (simp add: d'_def same_maps_def)
  moreover have "\<exists>ch. state_of d' x = Some (cs\<lparr>cs_children := ch\<rparr>)" if "state_of d x = Some cs" for x cs
    using that by (intro exI[of _ "cs_children cs"]) (simp add: st)
  moreover have "unvoted cs" if "state_of d x = None" "state_of d' x = Some cs" for x cs
    using that fresh_set_facts(2) by (auto simp: st simp del: pair_of_iff split: if_splits)
  ultimately show "insert_frame d d'" unfolding insert_frame_def state_grows_def by blast
  show "tracked d' x \<longleftrightarrow> tracked d x \<or> x |\<in>| pair_of c"
    by (auto simp: tracked_def st simp del: pair_of_iff)
  show "children_of d' x = children_of d x"
    by (simp add: children_of_def st fresh_set_facts(3) del: pair_of_iff)
  show "decision_of d' c = (if r then Some False else None)" if "\<not> tracked d c"
    using that by (simp add: decision_of_def st fresh_set_facts(4) tracked_def)
  show "recorded_parents d' x \<subseteq> (if x = c then fset S else {})" if "\<not> tracked d x"
    using that by (auto simp: recorded_parents_def st tracked_def fresh_set_def split: if_splits option.splits)
qed

lemma insert_constraint_total:
  assumes E: "env_ok E" and ok: "state_ok g R d"
    and tab: "\<And>k v. fmlookup g k = Some v \<Longrightarrow> fmlookup (dag_vertex d) k = Some v"
    and ends: "before c |\<in>| fmdom g" "after c |\<in>| fmdom g"
    and ps: "parents_in g c \<subseteq> R"
  shows "\<exists>d'. insert_constraint E c d = Some d' \<and> state_ok g (insert c R) d' \<and> insert_frame d d' \<and>
    (\<not> tracked d c \<longrightarrow> decision_of d' c =
       (if \<exists>p \<in> parents_in g c. decision_of d p = Some False then Some False else None))"
proof -
  obtain S where S: "constraint_parents d c = Some S" "fset S = parents_in g c"
    using constraint_parents_total[OF tab ends] by blast
  let ?ps = "env_constraints E S"
  have set_ps: "set ?ps = parents_in g c" using env_okD(3)[OF E] S(2) by simp
  have wf: "states_wf d" and tr: "\<And>p. p \<in> set ?ps \<Longrightarrow> tracked d p"
    using ok ps set_ps by (auto simp: state_ok_def)
  define r where "r = (\<exists>p \<in> set ?ps. decision_of d p = Some False)"
  have any: "run_any (is_rejected d) ?ps = Some r"
    unfolding r_def by (rule run_any_total) (simp add: is_rejected_total tr)
  obtain d1 where d1: "run_fold (add_constraint_child c) ?ps d = Some d1" "states_wf d1"
    "insert_frame d d1" "\<And>x. tracked d1 x = tracked d x"
    "\<And>x. children_of d1 x = (if x \<in> set ?ps then finsert c (children_of d x) else children_of d x)"
    using add_constraint_children_total[OF wf tr] by blast
  define d2 where "d2 = d1\<lparr>dag_state := map_try_insert (conflict_set_key c) (fresh_set c S r) (dag_state d1)\<rparr>"
  note entry = add_state_entry[OF d1(2), where c = c and S = S and r = r, folded d2_def]
  have "insert_constraint E c d = Some d2"
    using S(1) any d1(1) by (simp add: insert_constraint_def fresh_set_def d2_def Let_def)
  moreover have "state_ok g (insert c R) d2"
    unfolding state_ok_def
  proof (intro conjI allI)
    show "states_wf d2" by (rule entry(1))
    fix x
    show "tracked d2 x \<longleftrightarrow> x \<in> insert c R \<or> opposite x \<in> insert c R"
      using ok by (auto simp: entry(3) d1(4) state_ok_def)
    show "fset (children_of d2 x) = {e \<in> insert c R. x \<in> parents_in g e}"
      using ok by (auto simp: entry(4) d1(5) set_ps state_ok_def)
    have old: "recorded_parents d x \<subseteq> parents_in g x" using ok by (simp add: state_ok_def)
    show "recorded_parents d2 x \<subseteq> parents_in g x"
    proof (cases "tracked d x")
      case True
      then have "recorded_parents d2 x = recorded_parents d x"
        using state_grows_accessors(1,6)[OF insert_frame_grows[OF d1(3)]]
          state_grows_accessors(6)[OF insert_frame_grows[OF entry(2)]] by simp
      then show ?thesis using old by simp
    next
      case False
      then show ?thesis using entry(6)[of x] d1(4) S(2) by (auto split: if_splits)
    qed
  qed
  moreover have "insert_frame d d2" using d1(3) entry(2) by (rule insert_frame_trans)
  moreover have "decision_of d2 c = (if r then Some False else None)" if "\<not> tracked d c"
    using entry(5) that d1(4) by simp
  ultimately show ?thesis unfolding r_def set_ps by blast
qed


section \<open>The loop over the constraints of a vertex\<close>

definition rejected_by_parents :: "(hash, vertex) fmap \<Rightarrow> dag \<Rightarrow> constraint \<Rightarrow> bool option" where
  "rejected_by_parents g d c =
     (if \<exists>p \<in> parents_in g c. decision_of d p = Some False then Some False else None)"

text \<open>
  After the constraints \<open>P\<close>: those and \<open>R\<close> are tracked, and a constraint met for
  the first time is rejected exactly if one of its parents is.
\<close>

definition insert_loop_inv ::
  "(hash, vertex) fmap \<Rightarrow> constraint set \<Rightarrow> dag \<Rightarrow> constraint set \<Rightarrow> dag \<Rightarrow> bool" where
  "insert_loop_inv g R d P s \<longleftrightarrow>
     state_ok g (R \<union> P) s \<and> insert_frame d s \<and>
     (\<forall>c \<in> P. \<not> tracked d c \<longrightarrow>
        parents_in g c \<subseteq> R \<union> P \<and> decision_of s c = rejected_by_parents g s c)"

lemma insert_loop_step:
  assumes E: "env_ok E" and I: "insert_loop_inv g R d P s" and start: "state_ok g R d"
    and tab: "\<And>k v. fmlookup g k = Some v \<Longrightarrow> fmlookup (dag_vertex d) k = Some v"
    and ends: "before x |\<in>| fmdom g" "after x |\<in>| fmdom g"
    and ps: "parents_in g x \<subseteq> R \<union> P" and new: "x \<notin> P" "opposite x \<notin> P"
  shows "\<exists>s'. insert_constraint E x s = Some s' \<and> insert_loop_inv g R d (insert x P) s'"
proof -
  have ok: "state_ok g (R \<union> P) s" and fr: "insert_frame d s"
    using I by (simp_all add: insert_loop_inv_def)
  have tab': "fmlookup (dag_vertex s) k = Some v" if "fmlookup g k = Some v" for k v
    using tab[OF that] insert_frame_fields(2)[OF fr] by simp
  obtain s' where s': "insert_constraint E x s = Some s'" "state_ok g (insert x (R \<union> P)) s'"
    "insert_frame s s'" "\<not> tracked s x \<Longrightarrow> decision_of s' x = rejected_by_parents g s x"
    using insert_constraint_total[OF E ok tab' ends ps] unfolding rejected_by_parents_def by blast
  have tr: "tracked s c" if "c \<in> R \<union> P" for c using ok that by (auto simp: state_ok_def)
  have dec: "decision_of s' c = decision_of s c" if "c \<in> R \<union> P" for c
    by (rule state_grows_accessors(2)[OF insert_frame_grows[OF s'(3)] tr[OF that]])
  have rej: "rejected_by_parents g s' c = rejected_by_parents g s c" if "parents_in g c \<subseteq> R \<union> P" for c
    using dec that unfolding rejected_by_parents_def by (metis subsetD)
  have "decision_of s' c = rejected_by_parents g s' c \<and> parents_in g c \<subseteq> R \<union> insert x P"
    if c: "c \<in> insert x P" and nt: "\<not> tracked d c" for c
  proof (cases "c = x")
    case True
    have "x \<notin> R" "opposite x \<notin> R" using start nt True by (auto simp: state_ok_def)
    then have "\<not> tracked s x" using ok new by (auto simp: state_ok_def)
    then show ?thesis using s'(4) rej[OF ps] ps True by auto
  next
    case False
    then have "c \<in> P" using c by simp
    then have "parents_in g c \<subseteq> R \<union> P" "decision_of s c = rejected_by_parents g s c"
      using I nt by (simp_all add: insert_loop_inv_def)
    then show ?thesis using dec[of c] rej[of c] \<open>c \<in> P\<close> by auto
  qed
  moreover have "insert_frame d s'" using fr s'(3) by (rule insert_frame_trans)
  ultimately show ?thesis using s'(1,2) by (auto simp: insert_loop_inv_def)
qed

lemma insert_loop_list:
  assumes E: "env_ok E" and I: "insert_loop_inv g R d P s" and start: "state_ok g R d"
    and tab: "\<And>k v. fmlookup g k = Some v \<Longrightarrow> fmlookup (dag_vertex d) k = Some v"
    and xs: "\<And>x. x \<in> set xs \<Longrightarrow> before x |\<in>| fmdom g \<and> after x |\<in>| fmdom g \<and> parents_in g x \<subseteq> R \<union> P"
    and new: "distinct xs" "\<And>x. x \<in> set xs \<Longrightarrow> x \<notin> P \<and> opposite x \<notin> P"
    and one_way: "\<And>x. x \<in> set xs \<Longrightarrow> \<not> is_unity x \<Longrightarrow> opposite x \<notin> set xs"
  shows "\<exists>s'. run_fold (insert_constraint E) xs s = Some s' \<and> insert_loop_inv g R d (P \<union> set xs) s'"
proof (rule run_fold_prefix_invariant[where I = "\<lambda>pre. insert_loop_inv g R d (P \<union> set pre)"])
  show "insert_loop_inv g R d (P \<union> set []) s" using I by simp
  fix pre x post s
  assume split: "xs = pre @ x # post" and I: "insert_loop_inv g R d (P \<union> set pre) s"
  have x: "x \<in> set xs" using split by simp
  have "x \<notin> set pre" using new(1) split by simp
  moreover have "opposite x \<notin> set pre"
    using one_way[OF x] split \<open>x \<notin> set pre\<close> by (cases "is_unity x") auto
  ultimately have "\<exists>s'. insert_constraint E x s = Some s' \<and>
      insert_loop_inv g R d (insert x (P \<union> set pre)) s'"
    using xs[OF x] new(2)[OF x] by (intro insert_loop_step[OF E I start tab]) auto
  then show "\<exists>s'. insert_constraint E x s = Some s' \<and> insert_loop_inv g R d (P \<union> set (pre @ [x])) s'"
    by simp
qed


section \<open>Inserting one vertex\<close>

text \<open>What \<open>check_vertex\<close> establishes about the graph before \<open>insert\<close> runs.\<close>

definition insertable :: "(vertex \<Rightarrow> hash) \<Rightarrow> dag \<Rightarrow> vertex \<Rightarrow> bool" where
  "insertable H d vx \<longleftrightarrow>
     distinct (vx_parents vx) \<and> H vx |\<notin>| fmdom (dag_graph d) \<and>
     (\<forall>p \<in> set (vx_parents vx). \<exists>u. fmlookup (dag_graph d) p = Some u \<and> vx_height u < vx_height vx) \<and>
     unat (vx_height vx) \<le> fcard (fmdom (dag_graph d)) \<and>
     (\<forall>p \<in> set (vx_parents vx). \<forall>q \<in> set (vx_parents vx). (p, q) \<notin> (graph_rel (dag_graph d))\<^sup>+)"

lemma constraints_in_upd:
  assumes "h |\<notin>| fmdom g"
  shows "constraints_in (fmupd h vx g) = constraints_in g \<union> set (parent_constraints vx) \<union> {unity h}"
proof -
  have "fmlookup g h = None" using assms by (simp add: fmdom_notD)
  then have look: "fmlookup (fmupd h vx g) k = Some v \<longleftrightarrow> k = h \<and> v = vx \<or> fmlookup g k = Some v" for k v
    by auto
  show ?thesis unfolding constraints_in_def look by blast
qed

lemma parents_in_upd_old:
  "before e \<noteq> h \<Longrightarrow> after e \<noteq> h \<Longrightarrow> parents_in (fmupd h vx g) e = parents_in g e"
  by (simp add: parents_in_def)

lemma parents_in_upd_new: "parents_in (fmupd h vx g) (unity h) = set (parent_constraints vx)"
  by (auto simp: parents_in_def)

lemma parents_in_constraints_in: "parents_in g c \<subseteq> constraints_in g"
  by (auto simp: parents_in_def constraints_in_def)

lemma state_ok_extend:
  assumes "graph_ok g" "state_ok g (constraints_in g) d" "h |\<notin>| fmdom g" "dag_state e = dag_state d"
  shows "state_ok (fmupd h vx g) (constraints_in g) e"
proof -
  have "parents_in (fmupd h vx g) c = parents_in g c" if "c \<in> constraints_in g" for c
    using constraints_in_ends[OF assms(1) that] assms(3) by (intro parents_in_upd_old) auto
  moreover have "recorded_parents d c \<subseteq> parents_in (fmupd h vx g) c" for c
  proof (cases "before c = h \<or> after c = h")
    case True
    have "\<not> tracked d c"
    proof
      assume "tracked d c"
      then have "before c |\<in>| fmdom g \<and> after c |\<in>| fmdom g"
        using assms(2) constraints_in_ends[OF assms(1)] unfolding state_ok_def by (metis opposite_simps(3,4))
      with True assms(3) show False by blast
    qed
    then show ?thesis by (simp add: recorded_parents_def tracked_def)
  next
    case False
    then show ?thesis using assms(2) parents_in_upd_old[of c h vx g] by (simp add: state_ok_def)
  qed
  ultimately show ?thesis using assms(2)
    by (auto simp: state_ok_def accessors_cong[OF assms(4)])
qed

lemma insert_vertex_loop:
  assumes inv: "dag_inv H d" and E: "env_ok E" and ins: "insertable H d vx"
    and h: "h = H vx" and st: "dag_state d1 = dag_state d"
    and dv: "dag_vertex d1 = fmupd h vx (dag_vertex d)"
  defines "g \<equiv> fmupd h vx (dag_graph d)"
  shows "\<exists>d2. run_fold (insert_constraint E)
      (env_constraints E (fset_of_list (parent_constraints vx)) @ [unity h]) d1 = Some d2 \<and>
    insert_loop_inv g (constraints_in (dag_graph d)) d1
      (set (parent_constraints vx) \<union> {unity h}) d2"
proof -
  let ?R = "constraints_in (dag_graph d)"
  let ?xs = "env_constraints E (fset_of_list (parent_constraints vx))"
  have set_xs: "set ?xs = set (parent_constraints vx)" and dist: "distinct ?xs"
    using env_okD[OF E] by (simp_all add: fset_of_list.rep_eq)
  have new: "h |\<notin>| fmdom (dag_graph d)" and dp: "distinct (vx_parents vx)"
    using ins h by (simp_all add: insertable_def)
  have parent: "p |\<in>| fmdom (dag_graph d) \<and> p \<noteq> h" if "p \<in> set (vx_parents vx)" for p
    using ins that new by (auto simp: insertable_def intro: fmdomI)
  have start: "state_ok g ?R d1"
    unfolding g_def by (rule state_ok_extend[OF dag_invD(1,3)[OF inv] new st])
  have tab: "fmlookup (dag_vertex d1) k = Some v" if "fmlookup g k = Some v" for k v
    using that inv_vertex[OF inv] by (auto simp: g_def dv split: if_splits)
  have I0: "insert_loop_inv g ?R d1 {} d1" using start by (simp add: insert_loop_inv_def)
  have xs: "before x |\<in>| fmdom g \<and> after x |\<in>| fmdom g \<and> parents_in g x \<subseteq> ?R \<union> {}" if "x \<in> set ?xs" for x
  proof -
    have ends: "before x \<in> set (vx_parents vx)" "after x \<in> set (vx_parents vx)"
      using that set_xs parent_constraints_ends by auto
    then show ?thesis
      using parent parents_in_upd_old[of x h vx] parents_in_constraints_in by (auto simp: g_def)
  qed
  have one_way: "opposite x \<notin> set ?xs" if "x \<in> set ?xs" "\<not> is_unity x" for x
    using that constraints_of_one_way[OF dp, folded parent_constraints_def] unfolding set_xs by blast
  obtain s1 where s1: "run_fold (insert_constraint E) ?xs d1 = Some s1"
    "insert_loop_inv g ?R d1 (set (parent_constraints vx)) s1"
    using insert_loop_list[OF E I0 start tab xs dist _ one_way] set_xs by auto
  have "unity h \<notin> set (parent_constraints vx)"
    using parent_constraints_ends[of "unity h" vx] parent by auto
  then obtain d2 where "insert_constraint E (unity h) s1 = Some d2"
    "insert_loop_inv g ?R d1 (insert (unity h) (set (parent_constraints vx))) d2"
    using insert_loop_step[OF E s1(2) start tab, of "unity h"]
    by (auto simp: g_def parents_in_upd_new)
  with s1(1) show ?thesis by (simp add: run_fold_append)
qed


text \<open>The child map after the children have been registered.\<close>

lemma lookup_map_child_of:
  "fmlookup (map_child_of h p ch) q =
     (if q = p then Some (finsert h (case fmlookup ch p of Some S \<Rightarrow> S | None \<Rightarrow> {||})) else fmlookup ch q)"
  by (simp add: map_child_of_def split: option.splits)

lemma lookup_map_children:
  "fmlookup (fold (map_child_of h) ps ch) q =
     (if q \<in> set ps then Some (finsert h (case fmlookup ch q of Some S \<Rightarrow> S | None \<Rightarrow> {||}))
      else fmlookup ch q)"
  by (induction ps arbitrary: ch) (auto simp: lookup_map_child_of)

text \<open>The state after an insertion.\<close>

definition inserted :: "hash \<Rightarrow> vertex \<Rightarrow> dag \<Rightarrow> dag \<Rightarrow> bool" where
  "inserted h vx d d' \<longleftrightarrow>
     dag_config d' = dag_config d \<and>
     dag_vertex d' = fmupd h vx (dag_vertex d) \<and>
     dag_graph d' = fmupd h vx (dag_graph d) \<and>
     dag_pending_query d' = fmupd h vx (dag_pending_query d) \<and>
     dag_children d' = fold (map_child_of h) (vx_parents vx) (map_try_insert h {||} (dag_children d)) \<and>
     dag_frontier d' = fmupd h vx (fold fmdrop (vx_parents vx) (dag_frontier d)) \<and>
     state_grows d d' \<and>
     (\<forall>c. c = unity h \<or> c \<in> set (parent_constraints vx) \<longrightarrow> \<not> tracked d c \<longrightarrow>
        decision_of d' c = rejected_by_parents (dag_graph d') d' c)"

lemma state_grows_cong:
  "dag_state d = dag_state e \<Longrightarrow> dag_state d' = dag_state e' \<Longrightarrow> state_grows d d' = state_grows e e'"
  by (simp add: state_grows_def state_of_def)

lemma insert_vertex_step:
  assumes inv: "dag_inv H d" and E: "env_ok E" "env_hash E = H" and ins: "insertable H d vx"
  shows "\<exists>d'. insert_vertex E vx d = Some d' \<and> inserted (H vx) vx d d' \<and>
    state_ok (dag_graph d') (constraints_in (dag_graph d')) d'"
proof -
  let ?h = "H vx" and ?g = "fmupd (H vx) vx (dag_graph d)"
  define d1 where "d1 = d\<lparr>dag_vertex := fmupd ?h vx (dag_vertex d),
    dag_children := map_try_insert ?h {||} (dag_children d)\<rparr>"
  have d1: "dag_state d1 = dag_state d" "dag_vertex d1 = fmupd ?h vx (dag_vertex d)"
    by (simp_all add: d1_def)
  obtain d2 where d2: "run_fold (insert_constraint E)
      (env_constraints E (fset_of_list (parent_constraints vx)) @ [unity ?h]) d1 = Some d2"
    and I: "insert_loop_inv ?g (constraints_in (dag_graph d)) d1
      (set (parent_constraints vx) \<union> {unity ?h}) d2"
    using insert_vertex_loop[OF inv E(1) ins refl d1] by blast
  have new: "?h |\<notin>| fmdom (dag_graph d)" using ins by (simp add: insertable_def)
  have fr: "insert_frame d1 d2" using I by (simp add: insert_loop_inv_def)
  define d' where "d' = (map_child ?h (vx_parents vx) d2)
    \<lparr>dag_graph := fmupd ?h vx (dag_graph d2), dag_pending_query := fmupd ?h vx (dag_pending_query d2),
     dag_frontier := fmupd ?h vx (fold fmdrop (vx_parents vx) (dag_frontier d2))\<rparr>"
  have st: "dag_state d' = dag_state d2" by (simp add: d'_def map_child_def)
  have "insert_vertex E vx d = Some d'"
    using d2 E(2) by (simp add: insert_vertex_def d1_def d'_def map_child_def Let_def)
  moreover have "inserted ?h vx d d'"
  proof -
    have "state_grows d d'"
      using insert_frame_grows[OF fr] state_grows_cong[OF d1(1) st[symmetric]] by simp
    moreover have "decision_of d' c = rejected_by_parents ?g d' c"
      if "c = unity ?h \<or> c \<in> set (parent_constraints vx)" "\<not> tracked d c" for c
      using I that by (auto simp: insert_loop_inv_def rejected_by_parents_def accessors_cong[OF st]
          accessors_cong[OF d1(1)])
    ultimately show ?thesis
      by (simp add: inserted_def d'_def map_child_def insert_frame_fields[OF fr] d1_def)
  qed
  moreover have "state_ok (dag_graph d') (constraints_in (dag_graph d')) d'"
  proof -
    have "constraints_in ?g = constraints_in (dag_graph d) \<union> (set (parent_constraints vx) \<union> {unity ?h})"
      using constraints_in_upd[OF new] by auto
    moreover have "dag_graph d' = ?g"
      by (simp add: d'_def map_child_def insert_frame_fields[OF fr] d1_def)
    ultimately show ?thesis using I
      by (simp add: insert_loop_inv_def state_ok_def accessors_cong[OF st])
  qed
  ultimately show ?thesis by blast
qed


lemma insertedD:
  assumes "inserted h vx d d'"
  shows "dag_config d' = dag_config d" "dag_vertex d' = fmupd h vx (dag_vertex d)"
    "dag_graph d' = fmupd h vx (dag_graph d)"
    "dag_pending_query d' = fmupd h vx (dag_pending_query d)"
    "dag_children d' = fold (map_child_of h) (vx_parents vx) (map_try_insert h {||} (dag_children d))"
    "dag_frontier d' = fmupd h vx (fold fmdrop (vx_parents vx) (dag_frontier d))"
    "state_grows d d'"
  using assms by (simp_all add: inserted_def)

lemma graph_ok_insert:
  assumes ok: "graph_ok (dag_graph d)" and ins: "insertable H d vx"
  shows "graph_ok (fmupd (H vx) vx (dag_graph d))"
  unfolding graph_ok_def
proof (intro allI impI conjI ballI)
  let ?g = "dag_graph d" and ?h = "H vx"
  have new: "fmlookup ?g ?h = None" using ins by (auto simp: insertable_def fmdom_notD)
  have card: "fcard (fmdom (fmupd ?h vx ?g)) = Suc (fcard (fmdom ?g))"
    using ins by (simp add: insertable_def fcard_finsert_disjoint)
  fix k v assume look: "fmlookup (fmupd ?h vx ?g) k = Some v"
  show "distinct (vx_parents v)"
    using look ins graph_okD(1)[OF ok] by (auto simp: insertable_def split: if_splits)
  show "unat (vx_height v) < fcard (fmdom (fmupd ?h vx ?g))"
    unfolding card using look ins graph_okD(2)[OF ok]
    by (auto simp: insertable_def less_Suc_eq_le less_imp_le split: if_splits)
  fix p assume p: "p \<in> set (vx_parents v)"
  have "\<exists>u. fmlookup ?g p = Some u \<and> vx_height u < vx_height v"
    using look p ins graph_okD(3)[OF ok] by (auto simp: insertable_def split: if_splits)
  then show "\<exists>u. fmlookup (fmupd ?h vx ?g) p = Some u \<and> vx_height u < vx_height v"
    using new by auto
qed

lemma graph_parent_known:
  "graph_ok g \<Longrightarrow> fmlookup g k = Some v \<Longrightarrow> p \<in> set (vx_parents v) \<Longrightarrow> fmlookup g h = None \<Longrightarrow> p \<noteq> h"
  by (metis graph_okD(3) option.distinct(1))

text \<open>A new vertex is nobody's parent, so it adds no ancestor to an old one.\<close>

lemma graph_rel_insert:
  assumes ok: "graph_ok g" and new: "fmlookup g h = None" and ne: "h \<notin> set (vx_parents vx)"
    and q: "(p, q) \<in> (graph_rel (fmupd h vx g))\<^sup>+" "q \<noteq> h"
  shows "(p, q) \<in> (graph_rel g)\<^sup>+"
  using q
proof (induction rule: trancl_induct)
  case (base q)
  then show ?case by (auto simp: graph_rel_def)
next
  case (step r q)
  then have "(r, q) \<in> graph_rel g" by (auto simp: graph_rel_def)
  moreover have "r \<noteq> h"
    using graph_parent_known[OF ok _ _ new] calculation by (auto simp: graph_rel_def)
  ultimately show ?case using step by (meson trancl.trancl_into_trancl)
qed

lemma antichain_ok_insert:
  assumes inv: "dag_inv H d" and ins: "insertable H d vx"
  shows "antichain_ok (fmupd (H vx) vx (dag_graph d))"
  unfolding antichain_ok_def
proof (intro allI impI ballI notI)
  let ?g = "dag_graph d" and ?h = "H vx"
  fix k v p q
  assume look: "fmlookup (fmupd ?h vx ?g) k = Some v"
    and pq: "p \<in> set (vx_parents v)" "q \<in> set (vx_parents v)" "(p, q) \<in> (graph_rel (fmupd ?h vx ?g))\<^sup>+"
  have new: "fmlookup ?g ?h = None" using ins by (auto simp: insertable_def fmdom_notD)
  have ne: "?h \<notin> set (vx_parents vx)" using ins new by (auto simp: insertable_def)
  have "q \<noteq> ?h"
    using look pq(2) ne graph_parent_known[OF dag_invD(1)[OF inv] _ _ new] by (auto split: if_splits)
  then have "(p, q) \<in> (graph_rel ?g)\<^sup>+"
    by (rule graph_rel_insert[OF dag_invD(1)[OF inv] new ne pq(3)])
  then show False
    using look pq(1,2) ins dag_invD(8)[OF inv] by (auto simp: insertable_def antichain_ok_def split: if_splits)
qed

lemma frontier_ok_insert:
  assumes inv: "dag_inv H d" and ins: "insertable H d vx" and i: "inserted (H vx) vx d d'"
  shows "frontier_ok d'"
  unfolding frontier_ok_def
proof (intro allI)
  let ?g = "dag_graph d" and ?h = "H vx"
  fix k v
  have new: "fmlookup ?g ?h = None" using ins by (auto simp: insertable_def fmdom_notD)
  have parent: "p \<noteq> ?h" if "fmlookup ?g j = Some w" "p \<in> set (vx_parents w)" for j w p
    using graph_okD(3)[OF dag_invD(1)[OF inv] that] new by auto
  have parent': "p \<noteq> ?h" if "p \<in> set (vx_parents vx)" for p
    using ins that new by (auto simp: insertable_def)
  have children: "(\<exists>j w. fmlookup (fmupd ?h vx ?g) j = Some w \<and> k \<in> set (vx_parents w)) \<longleftrightarrow>
      k \<in> set (vx_parents vx) \<or> (\<exists>j w. fmlookup ?g j = Some w \<and> k \<in> set (vx_parents w))"
    using new by (metis fmupd_lookup option.inject option.distinct(1))
  have old: "fmlookup (dag_frontier d) k = Some v \<longleftrightarrow> fmlookup ?g k = Some v \<and>
      \<not> (\<exists>j w. fmlookup ?g j = Some w \<and> k \<in> set (vx_parents w))"
    using dag_invD(4)[OF inv] by (simp add: frontier_ok_def)
  show "fmlookup (dag_frontier d') k = Some v \<longleftrightarrow> fmlookup (dag_graph d') k = Some v \<and>
      \<not> (\<exists>j w. fmlookup (dag_graph d') j = Some w \<and> k \<in> set (vx_parents w))"
  proof (cases "k = ?h")
    case True
    have "\<not> (\<exists>j w. fmlookup (fmupd ?h vx ?g) j = Some w \<and> k \<in> set (vx_parents w))"
      unfolding children using True parent parent' by blast
    then show ?thesis using True by (simp add: insertedD[OF i])
  next
    case False
    then show ?thesis using old unfolding insertedD[OF i] children by auto
  qed
qed

lemma children_ok_register:
  assumes ok: "children_ok d" and sub: "fmdom (dag_graph d') |\<subseteq>| fmdom ch"
    and dv: "dag_vertex d' = fmupd h vx (dag_vertex d)"
    and ch: "\<And>q S. fmlookup (dag_children d) q = Some S \<Longrightarrow> fmlookup ch q = Some S"
    and ch_new: "\<And>q S. fmlookup ch q = Some S \<Longrightarrow> fmlookup (dag_children d) q = Some S \<or> S = {||}"
    and dc: "dag_children d' = fold (map_child_of h) (vx_parents vx) ch"
  shows "children_ok d'"
proof -
  have sub': "S |\<subseteq>| fmdom (dag_vertex d)" if "fmlookup ch q = Some S" for q S
    using ch_new[OF that] ok by (auto simp: children_ok_def)
  have "S |\<subseteq>| fmdom (dag_vertex d')" if "fmlookup (dag_children d') q = Some S" for q S
    using that sub' unfolding dc lookup_map_children dv
    by (cases "fmlookup ch q") (fastforce split: if_splits)+
  moreover have "\<exists>S. fmlookup (dag_children d') q = Some S \<and> k |\<in>| S"
    if look: "fmlookup (dag_vertex d') k = Some v" and q: "q \<in> set (vx_parents v)" for k v q
  proof (cases "k = h")
    case True
    then show ?thesis using look q by (simp add: dv dc lookup_map_children)
  next
    case False
    then have "fmlookup (dag_vertex d) k = Some v" using look by (simp add: dv)
    then obtain S where "fmlookup (dag_children d) q = Some S" "k |\<in>| S"
      using ok q unfolding children_ok_def by blast
    then show ?thesis using ch[of q S] by (auto simp: dc lookup_map_children)
  qed
  moreover have "fmdom (dag_graph d') |\<subseteq>| fmdom (dag_children d')"
  proof
    fix k assume "k |\<in>| fmdom (dag_graph d')"
    then have "k |\<in>| fmdom ch" using sub by blast
    then show "k |\<in>| fmdom (dag_children d')" by (simp add: fmlookup_dom_iff dc lookup_map_children)
  qed
  ultimately show ?thesis by (simp add: children_ok_def)
qed

lemma children_ok_insert:
  assumes inv: "dag_inv H d" and i: "inserted h vx d d'"
  shows "children_ok d'"
proof (rule children_ok_register[OF dag_invD(5)[OF inv]])
  show "fmdom (dag_graph d') |\<subseteq>| fmdom (map_try_insert h {||} (dag_children d))"
    using dag_invD(5)[OF inv] by (auto simp: insertedD[OF i] children_ok_def)
qed (auto simp: insertedD[OF i] split: if_splits)

text \<open>An insertion below known parents keeps the invariant.\<close>

lemma inserted_inv:
  assumes inv: "dag_inv H d" and ins: "insertable H d vx" and ne: "vx_parents vx \<noteq> []"
    and i: "inserted (H vx) vx d d'"
    and ok: "state_ok (dag_graph d') (constraints_in (dag_graph d')) d'"
  shows "dag_inv H d'"
proof -
  have "maps_ok H d'"
    using dag_invD(2)[OF inv] ne unfolding maps_ok_def insertedD[OF i] by auto
  moreover have "roots_ok d'"
    unfolding roots_ok_def
  proof (intro allI impI)
    fix k v assume v: "fmlookup (dag_graph d') k = Some v" and root: "vx_parents v = []"
    then have k: "fmlookup (dag_graph d) k = Some v" using ne by (auto simp: insertedD[OF i] split: if_splits)
    then have "tracked d (unity k)" using inv_tracked[OF inv] unity_in_constraints_in by blast
    from state_grows_accessors(2)[OF insertedD(7)[OF i] this]
    show "\<exists>b. decision_of d' (unity k) = Some b"
      using dag_invD(6)[OF inv] k root by (auto simp: roots_ok_def)
  qed
  ultimately show ?thesis
    using graph_ok_insert[OF dag_invD(1)[OF inv] ins] frontier_ok_insert[OF inv ins i]
      children_ok_insert[OF inv i] antichain_ok_insert[OF inv ins] ok
    by (simp add: dag_inv_def insertedD(3)[OF i])
qed

end
