(* ===== verification/Dag_Check.thy ===== *)
theory Dag_Check
  imports Dag_Insert
begin

text \<open>
  \<open>check_vertex\<close> and \<open>try_insert\<close>: what a vertex must satisfy to enter the graph, what
  each error means, and what the graph is afterwards.
\<close>

section \<open>The checks\<close>

text \<open>The greatest parent height, and the room left for one more height.\<close>

definition parent_height :: "dag \<Rightarrow> vertex \<Rightarrow> u64" where
  "parent_height d vx = Max ((\<lambda>p. height_in (dag_graph d) p) ` set (vx_parents vx))"

definition capacity :: "dag \<Rightarrow> bool" where
  "capacity d \<longleftrightarrow> fcard (fmdom (dag_vertex d)) < 2 ^ 64"

text \<open>Two opposite constraints among the active ones.\<close>

definition conflicting :: "constraint list \<Rightarrow> bool" where
  "conflicting cs \<longleftrightarrow> (\<exists>c \<in> set cs. \<not> is_unity c \<and> opposite c \<in> set cs)"

lemma conflicting_check:
  "(\<exists>c \<in> set cs. (case conflict c of Some cflct \<Rightarrow> cflct \<in> set cs | None \<Rightarrow> False)) \<longleftrightarrow> conflicting cs"
  by (auto simp: conflicting_def conflict_eq split: if_splits)

lemma run_map_heights:
  assumes "dag_inv H d" "set ps \<subseteq> fset (fmdom (dag_graph d))"
  shows "run_map (\<lambda>p. do { v \<leftarrow> fmlookup (dag_vertex d) p; Some (vx_height v) }) ps =
    Some (map (height_in (dag_graph d)) ps)"
proof (rule run_map_total)
  fix p assume "p \<in> set ps"
  then obtain v where "fmlookup (dag_graph d) p = Some v" using assms(2) graph_node by blast
  with inv_vertex[OF assms(1) this]
  show "do { v \<leftarrow> fmlookup (dag_vertex d) p; Some (vx_height v) } = Some (height_in (dag_graph d) p)"
    by (simp add: height_in_def)
qed

text \<open>
  The outcome of the checks in a graph that satisfies the invariant, in the order of the code: the
  first condition that fails gives the error.
\<close>

definition check_outcome :: "env \<Rightarrow> dag \<Rightarrow> vertex \<Rightarrow> dag_error + unit \<Rightarrow> bool" where
  "check_outcome E d vx r \<longleftrightarrow>
     (if vx_version vx \<noteq> VERSION then r = Inl (VertexError (BadVersion VERSION (vx_version vx)))
      else if vx_parents vx = [] then r = Inl (VertexError (MissingField ''parents''))
      else if \<not> distinct (vx_parents vx) then r = Inl (VertexError DuplicateParents)
      else if env_hash E vx |\<in>| fmdom (dag_graph d) then r = Inl AlreadyInserted
      else if \<not> set (vx_parents vx) \<subseteq> fset (fmdom (dag_vertex d))
        then r = Inl (MissingParents (filter (\<lambda>p. p |\<notin>| fmdom (dag_vertex d)) (vx_parents vx)))
      else if \<not> set (vx_parents vx) \<subseteq> fset (fmdom (dag_graph d))
        then r = Inl (WaitingOnParents (filter (\<lambda>p. p |\<notin>| fmdom (dag_graph d)) (vx_parents vx)))
      else if vx_height vx \<noteq> 1 + parent_height d vx
        then r = Inl (BadHeight (1 + parent_height d vx) (vx_height vx))
      else
        (\<exists>cs. get_active_ancestor_constraints E d vx = Some (Inr cs) \<and>
           active_constraints_spec d vx (Inr cs) \<and>
           r = (if conflicting cs then Inl ConflictingAncestors else Inr ())) \<or>
        (\<exists>e. active_constraints_spec d vx (Inl e) \<and> r = Inl e))"

lemma check_vertex_walk:
  assumes inv: "dag_inv H d" and E: "env_ok E"
  shows "\<exists>r. check_vertex E d vx = Some r \<and> check_outcome E d vx r"
proof -
  let ?ps = "vx_parents vx"
  consider (early) "vx_version vx \<noteq> VERSION \<or> ?ps = [] \<or> \<not> distinct ?ps \<or> env_hash E vx |\<in>| fmdom (dag_graph d)"
    | (unknown) "vx_version vx = VERSION" "?ps \<noteq> []" "distinct ?ps" "env_hash E vx |\<notin>| fmdom (dag_graph d)"
        "\<not> set ?ps \<subseteq> fset (fmdom (dag_graph d))"
    | (known) "vx_version vx = VERSION" "?ps \<noteq> []" "distinct ?ps" "env_hash E vx |\<notin>| fmdom (dag_graph d)"
        "set ?ps \<subseteq> fset (fmdom (dag_graph d))" by blast
  then show ?thesis
  proof cases
    case early
    then show ?thesis
      by (auto simp: check_vertex_def check_outcome_def sanity_checks_def length_unique_eq_iff
          eq_commute[of "length ?ps"])
  next
    case unknown
    have sane: "sanity_checks vx = Inr ()" using unknown by (simp add: sanity_checks_ok_iff)
    show ?thesis
    proof (cases "set ?ps \<subseteq> fset (fmdom (dag_vertex d))")
      case True
      then have "filter (\<lambda>h. h |\<in>| fmdom (dag_vertex d) \<and> h |\<notin>| fmdom (dag_graph d)) ?ps =
          filter (\<lambda>h. h |\<notin>| fmdom (dag_graph d)) ?ps" by (intro filter_cong) auto
      with True unknown sane show ?thesis
        by (auto simp: check_vertex_def check_outcome_def filter_empty_conv Let_def)
    next
      case False
      then have "filter (\<lambda>h. h |\<notin>| fmdom (dag_vertex d)) ?ps \<noteq> []" by (auto simp: filter_empty_conv)
      with False unknown sane show ?thesis
        by (simp add: check_vertex_def check_outcome_def Let_def)
    qed
  next
    case known
    have sub: "set ?ps \<subseteq> fset (fmdom (dag_vertex d))"
      using known(5) graph_subset_vertex[OF dag_invD(2)[OF inv]] by (auto simp: less_eq_fset.rep_eq)
    have missing: "filter (\<lambda>h. h |\<notin>| fmdom (dag_vertex d)) ?ps = []"
      "filter (\<lambda>h. h |\<in>| fmdom (dag_vertex d) \<and> h |\<notin>| fmdom (dag_graph d)) ?ps = []"
      using sub known(5) by (auto simp: filter_empty_conv)
    have max: "max_opt (map (height_in (dag_graph d)) ?ps) = Some (parent_height d vx)"
      using known(2) by (simp add: max_opt_Max parent_height_def)
    have "sanity_checks vx = Inr ()" using known by (simp add: sanity_checks_ok_iff)
    note body = check_vertex_def[of E d vx] this known(4) missing run_map_heights[OF inv known(5)] max
    note out = check_outcome_def[of E d vx] known(1-5) sub
    show ?thesis
    proof (cases "vx_height vx = 1 + parent_height d vx")
      case False
      then show ?thesis using body out by simp
    next
      case True
      obtain r where r: "get_active_ancestor_constraints E d vx = Some r" "active_constraints_spec d vx r"
        using active_constraints_walk[OF inv E] known by (auto simp: parents_known_def)
      show ?thesis
      proof (cases r)
        case (Inl e)
        then have "check_vertex E d vx = Some (Inl e)" using body True r(1) by simp
        moreover have "check_outcome E d vx (Inl e)" using out True r(2) Inl by auto
        ultimately show ?thesis by blast
      next
        case (Inr cs)
        then have "check_vertex E d vx = Some (if conflicting cs then Inl ConflictingAncestors else Inr ())"
          using body True r(1) by (simp add: conflicting_check)
        moreover have "check_outcome E d vx (if conflicting cs then Inl ConflictingAncestors else Inr ())"
          using out True r Inr by auto
        ultimately show ?thesis by blast
      qed
    qed
  qed
qed


section \<open>A vertex that passes\<close>

lemma check_ok_facts:
  assumes "check_outcome E d vx (Inr ())"
  shows "vx_version vx = VERSION" "vx_parents vx \<noteq> []" "distinct (vx_parents vx)"
    "env_hash E vx |\<notin>| fmdom (dag_graph d)" "set (vx_parents vx) \<subseteq> fset (fmdom (dag_graph d))"
    "vx_height vx = 1 + parent_height d vx" "\<not> rejected_reach d vx"
    "\<exists>cs. get_active_ancestor_constraints E d vx = Some (Inr cs) \<and> \<not> conflicting cs"
    "\<forall>p \<in> set (vx_parents vx). \<forall>q \<in> set (vx_parents vx). (p, q) \<notin> (parent_rel d)\<^sup>+"
  using assms unfolding check_outcome_def active_constraints_spec_def
  by (simp_all split: if_splits) blast+

text \<open>Without an overflow of the height, passing means being insertable.\<close>

lemma parent_height_facts:
  assumes ok: "graph_ok (dag_graph d)" and ne: "vx_parents vx \<noteq> []"
    and sub: "set (vx_parents vx) \<subseteq> fset (fmdom (dag_graph d))"
  shows "unat (parent_height d vx) < fcard (fmdom (dag_graph d))"
    and "\<And>p. p \<in> set (vx_parents vx) \<Longrightarrow> height_in (dag_graph d) p \<le> parent_height d vx"
proof -
  have "parent_height d vx \<in> (\<lambda>p. height_in (dag_graph d) p) ` set (vx_parents vx)"
    unfolding parent_height_def using ne by (intro Max_in) auto
  then obtain p where p: "p \<in> set (vx_parents vx)" "parent_height d vx = height_in (dag_graph d) p" by blast
  then obtain v where "fmlookup (dag_graph d) p = Some v" using sub graph_node by blast
  with p(2) graph_okD(2)[OF ok this] show "unat (parent_height d vx) < fcard (fmdom (dag_graph d))"
    by (simp add: height_in_def)
  show "height_in (dag_graph d) p \<le> parent_height d vx" if "p \<in> set (vx_parents vx)" for p
    unfolding parent_height_def using that by (intro Max_ge) auto
qed

lemma check_ok_insertable:
  assumes inv: "dag_inv H d" and H: "env_hash E = H" and cap: "capacity d"
    and ok: "check_outcome E d vx (Inr ())"
  shows "insertable H d vx"
proof -
  note facts = check_ok_facts[OF ok]
  note ph = parent_height_facts[OF dag_invD(1)[OF inv] facts(2,5)]
  have "fcard (fmdom (dag_graph d)) < 2 ^ 64"
    using fcard_graph_vertex[OF dag_invD(2)[OF inv]] cap by (simp add: capacity_def)
  then have "unat (parent_height d vx) + 1 < 2 ^ 64" using ph(1) by simp
  then have un: "unat (1 + parent_height d vx) = unat (parent_height d vx) + 1"
    by (simp add: unat_word_ariths)
  then have less: "parent_height d vx < 1 + parent_height d vx" by (simp add: word_less_nat_alt)
  have "\<exists>u. fmlookup (dag_graph d) p = Some u \<and> vx_height u < vx_height vx"
    if p: "p \<in> set (vx_parents vx)" for p
  proof -
    obtain u where "fmlookup (dag_graph d) p = Some u" using p facts(5) graph_node by blast
    then show ?thesis using ph(2)[OF p] less facts(6) by (auto simp: height_in_def)
  qed
  moreover have "unat (vx_height vx) \<le> fcard (fmdom (dag_graph d))"
    using un ph(1) facts(6) by simp
  ultimately show ?thesis using facts H by (simp add: insertable_def parent_rel_graph)
qed

section \<open>Inserting with the checks\<close>

definition registered :: "hash \<Rightarrow> vertex \<Rightarrow> dag \<Rightarrow> dag" where
  "registered h vx d =
     d\<lparr>dag_children := fold (map_child_of h) (vx_parents vx) (dag_children d),
       dag_vertex := fmupd h vx (dag_vertex d)\<rparr>"

lemma registered_inv:
  assumes inv: "dag_inv H d" and new: "H vx |\<notin>| fmdom (dag_graph d)"
  shows "dag_inv H (registered (H vx) vx d)"
proof -
  let ?d = "registered (H vx) vx d"
  have fields: "dag_graph ?d = dag_graph d" "dag_pending_query ?d = dag_pending_query d"
    "dag_frontier ?d = dag_frontier d" "dag_state ?d = dag_state d"
    "dag_vertex ?d = fmupd (H vx) vx (dag_vertex d)"
    by (simp_all add: registered_def)
  have "fmlookup (dag_graph d) (H vx) = None" using new by (simp add: fmdom_notD)
  then have "maps_ok H ?d"
    using dag_invD(2)[OF inv] unfolding maps_ok_def fields by auto
  moreover have "children_ok ?d"
    by (rule children_ok_register[OF dag_invD(5)[OF inv], where ch = "dag_children d"])
       (use dag_invD(5)[OF inv] in \<open>simp_all add: registered_def children_ok_def\<close>)
  ultimately show ?thesis using inv
    by (simp add: dag_inv_def fields state_ok_def frontier_ok_def roots_ok_def accessors_cong[OF fields(4)])
qed

text \<open>The children of a vertex that wait for it.\<close>

definition waiting_children :: "dag \<Rightarrow> hash \<Rightarrow> hash fset" where
  "waiting_children d h =
     (case fmlookup (dag_children d) h of
        Some S \<Rightarrow> ffilter (\<lambda>w. w |\<notin>| fmdom (dag_graph d)) S | None \<Rightarrow> {||})"

definition try_insert_outcome ::
  "env \<Rightarrow> vertex \<Rightarrow> dag \<Rightarrow> dag \<times> (dag_error + hash fset) \<Rightarrow> bool" where
  "try_insert_outcome E vx d res \<longleftrightarrow>
     (\<exists>r. check_vertex E d vx = Some r \<and> check_outcome E d vx r \<and>
        (case r of
           Inr _ \<Rightarrow> inserted (env_hash E vx) vx d (fst res) \<and>
             snd res = Inr (waiting_children (fst res) (env_hash E vx))
         | Inl (MissingParents ps) \<Rightarrow> res = (registered (env_hash E vx) vx d, Inl (MissingParents ps))
         | Inl (WaitingOnParents ps) \<Rightarrow> res = (registered (env_hash E vx) vx d, Inl (WaitingOnParents ps))
         | Inl e \<Rightarrow> res = (d, Inl e)))"

lemma check_error_new:
  assumes "check_outcome E d vx (Inl e)" "e = MissingParents ps \<or> e = WaitingOnParents ps"
  shows "env_hash E vx |\<notin>| fmdom (dag_graph d)"
  using assms by (auto simp: check_outcome_def split: if_splits)

lemma try_insert_walk:
  assumes inv: "dag_inv H d" and E: "env_ok E" "env_hash E = H" and cap: "capacity d"
  shows "\<exists>res. try_insert E vx d = Some res \<and> dag_inv H (fst res) \<and> try_insert_outcome E vx d res"
proof -
  let ?h = "env_hash E vx"
  obtain r where r: "check_vertex E d vx = Some r" "check_outcome E d vx r"
    using check_vertex_walk[OF inv E(1)] by blast
  show ?thesis
  proof (cases r)
    case (Inr u)
    then have ok: "check_outcome E d vx (Inr ())" using r(2) by simp
    note ins = check_ok_insertable[OF inv E(2) cap ok]
    obtain d' where d': "insert_vertex E vx d = Some d'" "inserted ?h vx d d'"
      "state_ok (dag_graph d') (constraints_in (dag_graph d')) d'"
      using insert_vertex_step[OF inv E ins] E(2) by blast
    have inv': "dag_inv H d'"
      using inserted_inv[OF inv ins check_ok_facts(2)[OF ok] _ d'(3)] d'(2) E(2) by simp
    have "?h |\<in>| fmdom (dag_graph d')" by (simp add: insertedD(3)[OF d'(2)])
    then obtain S where S: "fmlookup (dag_children d') ?h = Some S"
      using dag_invD(5)[OF inv'] unfolding children_ok_def by (meson fmlookup_dom_iff fsubsetD)
    have "try_insert E vx d = Some (d', Inr (waiting_children d' ?h))"
      using r(1) Inr d'(1) S by (simp add: try_insert_def get_known_children_def waiting_children_def)
    then show ?thesis using inv' d'(2) r Inr by (auto simp: try_insert_outcome_def)
  next
    case (Inl e)
    show ?thesis
    proof (cases "\<exists>ps. e = MissingParents ps \<or> e = WaitingOnParents ps")
      case True
      then have "?h |\<notin>| fmdom (dag_graph d)" using check_error_new r(2) Inl by blast
      then have "dag_inv H (registered ?h vx d)" using registered_inv[OF inv, of vx] E(2) by simp
      then show ?thesis using True r Inl
        by (auto simp: try_insert_def try_insert_outcome_def registered_def map_child_def Let_def)
    next
      case False
      then have "try_insert E vx d = Some (d, Inl e)"
        using r(1) Inl by (cases e) (simp_all add: try_insert_def)
      moreover have "try_insert_outcome E vx d (d, Inl e)"
        using False r Inl by (cases e) (simp_all add: try_insert_outcome_def)
      ultimately show ?thesis using inv by auto
    qed
  qed
qed

text \<open>Every vertex that names an inserted one as a parent and waits is among those returned.\<close>

lemma waiting_children_complete:
  assumes "dag_inv H d" "fmlookup (dag_vertex d) k = Some v" "h \<in> set (vx_parents v)"
    and "k |\<notin>| fmdom (dag_graph d)"
  shows "k |\<in>| waiting_children d h"
proof -
  obtain S where "fmlookup (dag_children d) h = Some S" "k |\<in>| S"
    using dag_invD(5)[OF assms(1)] assms(2,3) unfolding children_ok_def by blast
  with assms(4) show ?thesis by (simp add: waiting_children_def)
qed

lemma waiting_children_known:
  "dag_inv H d \<Longrightarrow> k |\<in>| waiting_children d h \<Longrightarrow> k |\<in>| fmdom (dag_vertex d) \<and> k |\<notin>| fmdom (dag_graph d)"
  using dag_invD(5)[of H d] by (auto simp: waiting_children_def children_ok_def split: option.splits)

end
