(* ===== verification/Dag_Retry.thy ===== *)
theory Dag_Retry
  imports Dag_Check
begin

text \<open>
  \<open>retry_pending\<close>: the work list empties, because a retried vertex puts others on it only
  when it enters the graph.
\<close>

section \<open>Growth of the graph\<close>

text \<open>
  The graph keeps its vertices and the conflict sets keep their votes; only new vertices become
  pending.
\<close>

definition extends :: "dag \<Rightarrow> dag \<Rightarrow> bool" where
  "extends d d' \<longleftrightarrow>
     dag_config d' = dag_config d \<and> state_grows d d' \<and>
     fmdom (dag_vertex d) |\<subseteq>| fmdom (dag_vertex d') \<and>
     (\<forall>h v. fmlookup (dag_graph d) h = Some v \<longrightarrow> fmlookup (dag_graph d') h = Some v) \<and>
     fmdom (dag_graph d) |\<inter>| fmdom (dag_pending_query d') |\<subseteq>| fmdom (dag_pending_query d)"

lemma extends_refl [simp, intro]: "extends d d"
  by (simp add: extends_def state_grows_same)

lemma extends_graph: "extends d d' \<Longrightarrow> h |\<in>| fmdom (dag_graph d) \<Longrightarrow> h |\<in>| fmdom (dag_graph d')"
  unfolding extends_def by (metis fmlookup_dom_iff)

lemma extends_trans [trans]:
  assumes "extends d e" "extends e f"
  shows "extends d f"
proof -
  have "fmdom (dag_graph d) |\<inter>| fmdom (dag_pending_query f) |\<subseteq>| fmdom (dag_pending_query d)"
    using assms extends_graph[OF assms(1)] unfolding extends_def by blast
  then show ?thesis using assms unfolding extends_def by (auto intro: state_grows_trans)
qed

lemma try_insert_extends:
  assumes inv: "dag_inv H d" and out: "try_insert_outcome E vx d res"
  shows "extends d (fst res)"
proof -
  obtain r where r: "check_outcome E d vx r" and res: "case r of
           Inr _ \<Rightarrow> inserted (env_hash E vx) vx d (fst res) \<and>
             snd res = Inr (waiting_children (fst res) (env_hash E vx))
         | Inl (MissingParents ps) \<Rightarrow> res = (registered (env_hash E vx) vx d, Inl (MissingParents ps))
         | Inl (WaitingOnParents ps) \<Rightarrow> res = (registered (env_hash E vx) vx d, Inl (WaitingOnParents ps))
         | Inl e \<Rightarrow> res = (d, Inl e)"
    using out unfolding try_insert_outcome_def by blast
  have reg: "extends d (registered h v d)" for h v
    by (auto simp: extends_def registered_def state_grows_same)
  show ?thesis
  proof (cases r)
    case (Inl e)
    then show ?thesis using res reg by (cases e) auto
  next
    case (Inr u)
    then have i: "inserted (env_hash E vx) vx d (fst res)" and "check_outcome E d vx (Inr ())"
      using res r by simp_all
    then have "env_hash E vx |\<notin>| fmdom (dag_graph d)" using check_ok_facts(4) by blast
    then show ?thesis
      using insertedD[OF i] by (auto simp: extends_def fmdom_notD)
  qed
qed

text \<open>A retry of a known vertex either leaves the graph alone or adds that vertex.\<close>

lemma try_insert_known:
  assumes inv: "dag_inv H d" and E: "env_ok E" "env_hash E = H" and cap: "capacity d"
    and vx: "fmlookup (dag_vertex d) h = Some vx"
  shows "\<exists>d' r. try_insert E vx d = Some (d', r) \<and> dag_inv H d' \<and> extends d d' \<and>
    fmdom (dag_vertex d') = fmdom (dag_vertex d) \<and>
    (\<forall>k. fmlookup (dag_vertex d') k = fmlookup (dag_vertex d) k) \<and>
    (case r of
       Inl e \<Rightarrow> dag_graph d' = dag_graph d \<and> check_vertex E d vx = Some (Inl e)
     | Inr W \<Rightarrow> h |\<notin>| fmdom (dag_graph d) \<and> fmdom (dag_graph d') = finsert h (fmdom (dag_graph d)) \<and>
         W |\<subseteq>| fmdom (dag_vertex d))"
proof -
  have h: "env_hash E vx = h" "h |\<in>| fmdom (dag_vertex d)"
    using dag_invD(2)[OF inv] vx E(2) by (auto simp: maps_ok_def intro: fmdomI)
  obtain d' r where res: "try_insert E vx d = Some (d', r)" "dag_inv H d'"
    "try_insert_outcome E vx d (d', r)"
    using try_insert_walk[OF inv E cap] by (metis prod.collapse)
  have ext: "extends d d'" using try_insert_extends[OF inv res(3)] by simp
  obtain c where c: "check_vertex E d vx = Some c" "check_outcome E d vx c" and out: "case c of
           Inr _ \<Rightarrow> inserted h vx d d' \<and> r = Inr (waiting_children d' h)
         | Inl (MissingParents ps) \<Rightarrow> (d', r) = (registered h vx d, Inl (MissingParents ps))
         | Inl (WaitingOnParents ps) \<Rightarrow> (d', r) = (registered h vx d, Inl (WaitingOnParents ps))
         | Inl e \<Rightarrow> (d', r) = (d, Inl e)"
    using res(3) unfolding try_insert_outcome_def h fst_conv snd_conv by blast
  have same: "fmlookup (fmupd h vx (dag_vertex d)) k = fmlookup (dag_vertex d) k" for k
    using vx by auto
  have dom_reg: "fmdom (dag_vertex (registered h vx d)) = fmdom (dag_vertex d)"
    "dag_graph (registered h vx d) = dag_graph d"
    "fmlookup (dag_vertex (registered h vx d)) k = fmlookup (dag_vertex d) k" for k
    using h(2) same by (simp_all add: registered_def finsert_absorb)
  show ?thesis
  proof (cases c)
    case (Inl e)
    then have "fmdom (dag_vertex d') = fmdom (dag_vertex d) \<and> dag_graph d' = dag_graph d \<and> r = Inl e \<and>
        (\<forall>k. fmlookup (dag_vertex d') k = fmlookup (dag_vertex d) k)"
      using out dom_reg by (cases e) auto
    then show ?thesis using res ext c(1) Inl by auto
  next
    case (Inr u)
    then have i: "inserted h vx d d'" and r: "r = Inr (waiting_children d' h)" using out by simp_all
    have dom: "fmdom (dag_vertex d') = fmdom (dag_vertex d)"
      using h(2) by (simp add: insertedD[OF i] finsert_absorb)
    moreover have "h |\<notin>| fmdom (dag_graph d)" using c(2) Inr check_ok_facts(4)[of E d vx] h by simp
    moreover have "waiting_children d' h |\<subseteq>| fmdom (dag_vertex d)"
      using waiting_children_known[OF res(2)] dom by auto
    moreover have "\<forall>k. fmlookup (dag_vertex d') k = fmlookup (dag_vertex d) k"
      using same by (simp add: insertedD[OF i])
    ultimately show ?thesis using res(1,2) ext r insertedD(3)[OF i] by auto
  qed
qed

section \<open>The work list\<close>

text \<open>The work left: the queue, and what the vertices outside the graph may still put on it.\<close>

definition retry_work :: "dag \<Rightarrow> hash list \<Rightarrow> nat" where
  "retry_work d queue =
     length queue +
     (fcard (fmdom (dag_vertex d)) - fcard (fmdom (dag_graph d))) * fcard (fmdom (dag_vertex d))"

lemma retry_loop_total:
  assumes E: "env_ok E" "env_hash E = H"
  shows "dag_inv H d \<Longrightarrow> capacity d \<Longrightarrow> retry_work d queue < n \<Longrightarrow>
    \<exists>d' S'. retry_loop n E queue S d = Some (d', S') \<and> dag_inv H d' \<and> extends d d' \<and>
      fmdom (dag_vertex d') = fmdom (dag_vertex d) \<and>
      fset S' = fset S \<union> (fset (fmdom (dag_graph d')) - fset (fmdom (dag_graph d)))"
proof (induction n arbitrary: queue S d)
  case (Suc n)
  show ?case
  proof (cases queue)
    case Nil
    then show ?thesis using Suc.prems by auto
  next
    case (Cons h rest)
    show ?thesis
    proof (cases "fmlookup (dag_vertex d) h")
      case None
      have "retry_work d rest < n" using Suc.prems(3) Cons by (simp add: retry_work_def)
      from Suc.IH[OF Suc.prems(1,2) this] show ?thesis using None Cons by simp
    next
      case (Some vx)
      obtain d1 r where d1: "try_insert E vx d = Some (d1, r)" "dag_inv H d1" "extends d d1"
        "fmdom (dag_vertex d1) = fmdom (dag_vertex d)"
        "case r of
           Inl e \<Rightarrow> dag_graph d1 = dag_graph d \<and> check_vertex E d vx = Some (Inl e)
         | Inr W \<Rightarrow> h |\<notin>| fmdom (dag_graph d) \<and> fmdom (dag_graph d1) = finsert h (fmdom (dag_graph d)) \<and>
             W |\<subseteq>| fmdom (dag_vertex d)"
        using try_insert_known[OF Suc.prems(1) E Suc.prems(2) Some] by blast
      have cap: "capacity d1" using Suc.prems(2) d1(4) by (simp add: capacity_def)
      show ?thesis
      proof (cases r)
        case (Inl e)
        then have "retry_work d1 rest < n" using Suc.prems(3) Cons d1(4,5) by (simp add: retry_work_def)
        from Suc.IH[OF d1(2) cap this, of S]
        show ?thesis using Some Cons Inl d1 extends_trans[OF d1(3)] by fastforce
      next
        case (Inr W)
        let ?N = "fcard (fmdom (dag_vertex d))" and ?g = "fcard (fmdom (dag_graph d))"
        let ?q = "rev (env_hashes E W) @ rest"
        have W: "h |\<notin>| fmdom (dag_graph d)" "fmdom (dag_graph d1) = finsert h (fmdom (dag_graph d))"
          "W |\<subseteq>| fmdom (dag_vertex d)" using d1(5) Inr by simp_all
        have g1: "fcard (fmdom (dag_graph d1)) = Suc ?g" using W by (simp add: fcard_finsert_disjoint)
        have "Suc ?g \<le> ?N" using fcard_graph_vertex[OF dag_invD(2)[OF d1(2)]] g1 d1(4) by simp
        then have "?N - ?g = Suc (?N - Suc ?g)" by simp
        then have split: "(?N - ?g) * ?N = ?N + (?N - Suc ?g) * ?N" by simp
        have "length (env_hashes E W) = fcard W"
          using env_okD(1,2)[OF E(1)] by (metis distinct_card fcard.rep_eq)
        also have "\<dots> \<le> ?N" using W(3) by (rule fcard_mono)
        finally have "retry_work d1 ?q < n"
          using Suc.prems(3) Cons d1(4) g1 split by (simp add: retry_work_def)
        from Suc.IH[OF d1(2) cap this, of "finsert h S"] obtain d' S' where
          d': "retry_loop n E ?q (finsert h S) d1 = Some (d', S')" "dag_inv H d'" "extends d1 d'"
            "fmdom (dag_vertex d') = fmdom (dag_vertex d1)"
            "fset S' = fset (finsert h S) \<union> (fset (fmdom (dag_graph d')) - fset (fmdom (dag_graph d1)))"
          by blast
        have "h |\<in>| fmdom (dag_graph d1)" using W(2) by simp
        then have "h |\<in>| fmdom (dag_graph d')"
          using d'(3) by (auto simp: extends_def fmlookup_dom_iff)
        then have "fset S' = fset S \<union> (fset (fmdom (dag_graph d')) - fset (fmdom (dag_graph d)))"
          using d'(5) W(1,2) by auto
        moreover have "retry_loop (Suc n) E queue S d = Some (d', S')"
          using Some Cons Inr d1(1) d'(1) by simp
        ultimately show ?thesis using d'(2,4) d1(4) extends_trans[OF d1(3) d'(3)] by auto
      qed
    qed
  qed
qed simp

lemma retry_pending_walk:
  assumes E: "env_ok E" "env_hash E = H" and inv: "dag_inv H d" and cap: "capacity d"
  shows "\<exists>d' S. retry_pending E hs d = Some (d', Inr S) \<and> dag_inv H d' \<and> extends d d' \<and>
    fmdom (dag_vertex d') = fmdom (dag_vertex d) \<and>
    fset S = fset (fmdom (dag_graph d')) - fset (fmdom (dag_graph d))"
proof -
  have "retry_work d (rev hs) < retry_fuel hs d"
    by (auto simp: retry_work_def retry_fuel_def intro!: le_imp_less_Suc mult_le_mono1)
  from retry_loop_total[OF E inv cap this, of "{||}"] show ?thesis
    by (auto simp: retry_pending_def)
qed

text \<open>
  Every vertex on the work list is tried: at the end it is in the graph, or the checks have refused
  it in a state on the way.
\<close>

definition refused_between :: "env \<Rightarrow> dag \<Rightarrow> dag \<Rightarrow> vertex \<Rightarrow> bool" where
  "refused_between E d d' vx \<longleftrightarrow>
     (\<exists>dm e. extends d dm \<and> extends dm d' \<and> check_vertex E dm vx = Some (Inl e))"

lemma refused_between_later: "extends d e \<Longrightarrow> refused_between E e f vx \<Longrightarrow> refused_between E d f vx"
  unfolding refused_between_def using extends_trans by blast

lemma retry_loop_tries:
  assumes E: "env_ok E" "env_hash E = H"
  shows "dag_inv H d \<Longrightarrow> capacity d \<Longrightarrow> retry_loop n E queue S d = Some (d', S') \<Longrightarrow>
    extends d d' \<and>
    (\<forall>h vx. h \<in> set queue \<longrightarrow> fmlookup (dag_vertex d) h = Some vx \<longrightarrow>
       h |\<in>| fmdom (dag_graph d') \<or> refused_between E d d' vx)"
proof (induction n arbitrary: queue S d)
  case (Suc n)
  show ?case
  proof (cases queue)
    case Nil
    then show ?thesis using Suc.prems by auto
  next
    case (Cons h rest)
    show ?thesis
    proof (cases "fmlookup (dag_vertex d) h")
      case None
      then have "retry_loop n E rest S d = Some (d', S')" using Suc.prems(3) Cons by simp
      from Suc.IH[OF Suc.prems(1,2) this] None Cons show ?thesis by auto
    next
      case (Some vx)
      obtain d1 r where d1: "try_insert E vx d = Some (d1, r)" "dag_inv H d1" "extends d d1"
        "fmdom (dag_vertex d1) = fmdom (dag_vertex d)"
        "\<And>k. fmlookup (dag_vertex d1) k = fmlookup (dag_vertex d) k"
        "case r of
           Inl e \<Rightarrow> dag_graph d1 = dag_graph d \<and> check_vertex E d vx = Some (Inl e)
         | Inr W \<Rightarrow> h |\<notin>| fmdom (dag_graph d) \<and> fmdom (dag_graph d1) = finsert h (fmdom (dag_graph d)) \<and>
             W |\<subseteq>| fmdom (dag_vertex d)"
        using try_insert_known[OF Suc.prems(1) E Suc.prems(2) Some] by blast
      have cap: "capacity d1" using Suc.prems(2) d1(4) by (simp add: capacity_def)
      obtain q T where q: "retry_loop n E q T d1 = Some (d', S')" "set rest \<subseteq> set q"
        using Suc.prems(3) Cons Some d1(1) by (cases r) auto
      note rec = Suc.IH[OF d1(2) cap q(1)]
      have here: "h |\<in>| fmdom (dag_graph d') \<or> refused_between E d d' vx"
      proof (cases r)
        case (Inl e)
        then show ?thesis using d1(6) rec extends_trans[OF d1(3)] by (auto simp: refused_between_def)
      next
        case (Inr W)
        then show ?thesis using d1(6) extends_graph[of d1 d' h] rec by auto
      qed
      show ?thesis
      proof (intro conjI allI impI)
        show "extends d d'" using extends_trans[OF d1(3)] rec by blast
        fix k wx assume k: "k \<in> set queue" "fmlookup (dag_vertex d) k = Some wx"
        show "k |\<in>| fmdom (dag_graph d') \<or> refused_between E d d' wx"
        proof (cases "k = h")
          case True
          then show ?thesis using here k(2) Some by simp
        next
          case False
          then have "k \<in> set q" using k(1) Cons q(2) by auto
          then have "k |\<in>| fmdom (dag_graph d') \<or> refused_between E d1 d' wx"
            using rec k(2) d1(5) by simp
          then show ?thesis using refused_between_later[OF d1(3)] by blast
        qed
      qed
    qed
  qed
qed simp

lemma retry_pending_tries:
  assumes "env_ok E" "env_hash E = H" "dag_inv H d" "capacity d"
    and "retry_pending E hs d = Some (d', Inr S)" "h \<in> set hs" "fmlookup (dag_vertex d) h = Some vx"
  shows "h |\<in>| fmdom (dag_graph d') \<or> refused_between E d d' vx"
  using retry_loop_tries[OF assms(1-4), of "retry_fuel hs d" "rev hs" "{||}" d'] assms(5-7)
  by (auto simp: retry_pending_def bind_eq_Some_conv)

end
