(* ===== verification/Dag_Votes.thy ===== *)
theory Dag_Votes
  imports Dag_Retry
begin

text \<open>
  Recording the result of a query: the confidence of a constraint as the number of chits in its
  progeny, the rejection of a progeny, the vote for one constraint and what it decides, and
  \<open>record_query_result\<close> as a whole.
\<close>

section \<open>The progeny of a constraint\<close>

definition progeny_rel :: "dag \<Rightarrow> (constraint \<times> constraint) set" where
  "progeny_rel d = {(e, c). e |\<in>| children_of d c}"

definition progeny_of :: "dag \<Rightarrow> constraint \<Rightarrow> constraint set" where
  "progeny_of d c = {e. (e, c) \<in> (progeny_rel d)\<^sup>*}"

definition chits_of :: "dag \<Rightarrow> constraint \<Rightarrow> constraint set" where
  "chits_of d c = {e \<in> progeny_of d c. chit_of d e}"

lemma progeny_of_unfold: "progeny_of d c = insert c (\<Union>e \<in> fset (children_of d c). progeny_of d e)"
proof -
  have "(x, c) \<in> (progeny_rel d)\<^sup>* \<longleftrightarrow>
      x = c \<or> (\<exists>e. (x, e) \<in> (progeny_rel d)\<^sup>* \<and> (e, c) \<in> progeny_rel d)" for x
    by (metis rtrancl.simps)
  then show ?thesis by (auto simp: progeny_of_def progeny_rel_def)
qed

lemma progeny_of_self [simp]: "c \<in> progeny_of d c"
  by (simp add: progeny_of_def)

lemma progeny_of_tracked:
  assumes "dag_inv H d" "e \<in> progeny_of d c" "tracked d c"
  shows "tracked d e"
  using progeny.walk_node[OF assms(1), of e c] assms(2,3)
  by (simp add: progeny_of_def progeny_rel_def tracked_in_graph_def)

lemma progeny_of_votes: "votes_only d d' \<Longrightarrow> progeny_of d' c = progeny_of d c"
  by (simp add: progeny_of_def progeny_rel_def votes_only_children)

text \<open>No constraint descends from its opposite.\<close>

lemma progeny_of_opposite:
  assumes inv: "dag_inv H d" and c: "tracked d c" "\<not> is_unity c"
  shows "c \<notin> progeny_of d (opposite c)"
proof
  assume "c \<in> progeny_of d (opposite c)"
  moreover have "c \<noteq> opposite c" using c(2) by simp
  ultimately have "(c, opposite c) \<in> (progeny_rel d)\<^sup>+"
    by (simp add: progeny_of_def rtrancl_eq_or_trancl)
  then have "constraint_rank d c < constraint_rank d (opposite c)"
    using progeny.walk_rank[OF inv, of c "opposite c"] c(1)
    by (simp add: progeny_rel_def tracked_in_graph_def)
  then show False by (simp add: constraint_rank_def constraint_height_def max.commute)
qed

lemma state_lookups:
  assumes "states_wf d" "tracked d c"
  obtains cs b S P n where "state_of d c = Some cs" "conflict_set_wf c cs"
    "fmlookup (cs_chit cs) c = Some b" "chit_of d c = b"
    "fmlookup (cs_children cs) c = Some S" "children_of d c = S"
    "fmlookup (cs_parents cs) c = Some P" "recorded_parents d c = fset P"
    "fmlookup (cs_count cs) c = Some n" "count_of d c = n"
    "fmlookup (cs_decision cs) c = decision_of d c"
proof -
  obtain cs where cs: "state_of d c = Some cs" using assms(2) by (rule trackedE)
  note wf = states_wfD[OF assms(1) cs]
  obtain b n S P where "fmlookup (cs_chit cs) c = Some b" "fmlookup (cs_count cs) c = Some n"
    "fmlookup (cs_parents cs) c = Some P" "fmlookup (cs_children cs) c = Some S"
    using conflict_set_wf_lookup[OF wf, of c] by auto
  with cs wf show ?thesis
    by (intro that[of cs b S P n])
       (simp_all add: chit_of_def children_of_def recorded_parents_def count_of_def decision_of_def)
qed

lemma progeny_with_chits_walk:
  assumes inv: "dag_inv H d" and E: "env_ok E" and "tracked d c" "constraint_rank d c < n"
  shows "\<exists>xs. progeny_with_chits n E d c = Some xs \<and> set xs = chits_of d c"
proof (rule progeny.fuel_induct[OF inv])
  show "c \<in> tracked_in_graph d" using assms(3) by (simp add: tracked_in_graph_def)
  fix n c
  assume "c \<in> tracked_in_graph d"
    and IH: "\<And>e. e \<in> fset (children_of d c) \<Longrightarrow>
      \<exists>xs. progeny_with_chits n E d e = Some xs \<and> set xs = chits_of d e"
  then have tr: "tracked d c" by (simp add: tracked_in_graph_def)
  obtain cs b S where cs: "state_of d c = Some cs" "fmlookup (cs_chit cs) c = Some b" "chit_of d c = b"
    "fmlookup (cs_children cs) c = Some S" "children_of d c = S"
    using state_lookups[OF dag_invD(7)[OF inv] tr] by metis
  let ?xs = "env_constraints E S"
  have xs: "set ?xs = fset (children_of d c)" using env_okD(3)[OF E] cs(5) by simp
  from IH obtain f where f: "\<And>e. e \<in> set ?xs \<Longrightarrow>
      progeny_with_chits n E d e = Some (f e) \<and> set (f e) = chits_of d e"
    unfolding xs by metis
  then have "run_map (\<lambda>e. progeny_with_chits n E d e) ?xs = Some (map f ?xs)"
    by (intro run_map_total) blast
  then have "progeny_with_chits (Suc n) E d c =
      Some (concat (map f ?xs) @ (if chit_of d c then [c] else []))" using cs by simp
  moreover have "set (concat (map f ?xs) @ (if chit_of d c then [c] else [])) = chits_of d c"
    unfolding chits_of_def progeny_of_unfold[of d c] using f xs by (auto simp: chits_of_def)
  ultimately show "\<exists>xs. progeny_with_chits (Suc n) E d c = Some xs \<and> set xs = chits_of d c" by blast
qed (rule assms(4))

text \<open>The confidence is the number of distinct constraints with a chit in the progeny.\<close>

lemma confidence_of_total:
  assumes "dag_inv H d" "env_ok E" "tracked d c"
  shows "confidence_of E d c = Some (card (chits_of d c))"
  using progeny_with_chits_walk[OF assms rank_below_depth_bound(2)[OF dag_invD(2)[OF assms(1)]]]
  by (auto simp: confidence_of_def length_unique)

text \<open>
  The remaining voting variables of a constraint: whether the last vote in its conflict set was
  for it, and the confidence that was stored for it.
\<close>

definition last_of :: "dag \<Rightarrow> constraint \<Rightarrow> bool" where
  "last_of d c = (case state_of d c of Some cs \<Rightarrow> cs_last cs = c | None \<Rightarrow> False)"

definition recorded_confidence :: "dag \<Rightarrow> constraint \<Rightarrow> nat" where
  "recorded_confidence d c =
     (case state_of d c of
        Some cs \<Rightarrow> (case fmlookup (cs_confidence cs) c of Some n \<Rightarrow> n | None \<Rightarrow> 0)
      | None \<Rightarrow> 0)"

section \<open>Rejecting a progeny\<close>

text \<open>
  A step that decides and leaves the other voting variables; only an acceptance may change what is
  preferred, and only in the conflict set it is in.
\<close>

definition decides :: "(constraint \<Rightarrow> bool option) \<Rightarrow> dag \<Rightarrow> dag \<Rightarrow> bool" where
  "decides f d d' \<longleftrightarrow>
     votes_only d d' \<and>
     (\<forall>x. decision_of d' x = (case f x of Some b \<Rightarrow> Some b | None \<Rightarrow> decision_of d x)) \<and>
     (\<forall>x. chit_of d' x = chit_of d x \<and> count_of d' x = count_of d x) \<and>
     (\<forall>x. last_of d' x = last_of d x \<and> recorded_confidence d' x = recorded_confidence d x) \<and>
     (\<forall>x. f x \<noteq> Some True \<longrightarrow> f (opposite x) \<noteq> Some True \<longrightarrow> preferred_of d' x = preferred_of d x)"

definition rejecting :: "constraint set \<Rightarrow> constraint \<Rightarrow> bool option" where
  "rejecting X x = (if x \<in> X then Some False else None)"

lemma decides_refl: "decides (rejecting {}) d d"
  by (simp add: decides_def rejecting_def)

lemma rejecting_not_True [simp]: "rejecting X y \<noteq> Some True"
  by (simp add: rejecting_def)

lemma decides_trans:
  "decides (rejecting X) d e \<Longrightarrow> decides (rejecting Y) e f \<Longrightarrow> decides (rejecting (X \<union> Y)) d f"
  unfolding decides_def by (auto simp: rejecting_def intro: votes_only_trans)

lemma decide_one:
  assumes cs: "state_of d c = Some cs" and wf: "states_wf d"
    and p: "p = cs_preferred cs \<or> p = c \<and> b"
  shows "decides (\<lambda>x. if x = c then Some b else None) d
    (d\<lparr>dag_state := fmupd (conflict_set_key c)
       (cs\<lparr>cs_decision := fmupd c b (cs_decision cs), cs_preferred := p\<rparr>) (dag_state d)\<rparr>)"
    (is "decides _ d ?d'")
proof -
  let ?cs' = "cs\<lparr>cs_decision := fmupd c b (cs_decision cs), cs_preferred := p\<rparr>"
  note wf_cs = states_wfD[OF wf cs]
  have "conflict_set_wf c ?cs'"
    using wf_cs p by (auto simp: conflict_set_wf_def simp del: pair_of_iff simp: pair_of_def)
  then have v: "votes_only d ?d'"
    by (intro votes_only_update[OF cs]) (auto simp: same_links_def)
  have dec: "decision_of ?d' x = (if x = c then Some b else decision_of d x) \<and>
      chit_of ?d' x = chit_of d x \<and> count_of ?d' x = count_of d x \<and>
      last_of ?d' x = last_of d x \<and> recorded_confidence ?d' x = recorded_confidence d x \<and>
      ((if x = c then Some b else None) \<noteq> Some True \<longrightarrow>
       (if opposite x = c then Some b else None) \<noteq> Some True \<longrightarrow> preferred_of ?d' x = preferred_of d x)"
    for x
  proof (cases "x |\<in>| pair_of c")
    case True
    then have "state_of ?d' x = Some ?cs'" by (simp add: state_of_update[OF cs] del: pair_of_iff)
    moreover have "state_of d x = Some cs" using state_of_pair[OF True] cs by simp
    moreover have "x = c \<or> opposite x = c" using True by auto
    ultimately show ?thesis using p
      by (auto simp: decision_of_def chit_of_def count_of_def last_of_def recorded_confidence_def
          preferred_of_def)
  next
    case False
    then have "state_of ?d' x = state_of d x" "x \<noteq> c"
      by (simp_all add: state_of_update[OF cs])
    then show ?thesis
      by (simp add: decision_of_def chit_of_def count_of_def last_of_def recorded_confidence_def
          preferred_of_def)
  qed
  then show ?thesis unfolding decides_def using v by auto
qed

lemma decides_votes: "decides f d d' \<Longrightarrow> votes_only d d'"
  by (simp add: decides_def)

lemma decides_fold:
  assumes "\<And>e s. e \<in> set xs \<Longrightarrow> votes_only d s \<Longrightarrow> \<exists>s'. f e s = Some s' \<and> decides (rejecting (P e)) s s'"
    and "votes_only d s"
  shows "\<exists>s'. run_fold f xs s = Some s' \<and> decides (rejecting (\<Union>e \<in> set xs. P e)) s s'"
  using assms
proof (induction xs arbitrary: s)
  case Nil
  then show ?case by (simp add: decides_refl)
next
  case (Cons e xs)
  obtain s1 where s1: "f e s = Some s1" "decides (rejecting (P e)) s s1"
    using Cons.prems(1)[of e s] Cons.prems(2) by auto
  have "votes_only d s1" using Cons.prems(2) decides_votes[OF s1(2)] by (rule votes_only_trans)
  then obtain s2 where s2: "run_fold f xs s1 = Some s2"
    "decides (rejecting (\<Union>e \<in> set xs. P e)) s1 s2"
    using Cons.IH[of s1] Cons.prems(1) by auto
  show ?case using s1(1) s2(1) decides_trans[OF s1(2) s2(2)] by auto
qed

lemma reject_progeny_walk:
  assumes inv: "dag_inv H d" and E: "env_ok E" and "tracked d c" "constraint_rank d c < n"
    and "votes_only d s"
  shows "\<exists>s'. reject_progeny n E c s = Some s' \<and> decides (rejecting (progeny_of d c)) s s'"
proof -
  have "\<forall>s. votes_only d s \<longrightarrow>
      (\<exists>s'. reject_progeny n E c s = Some s' \<and> decides (rejecting (progeny_of d c)) s s')"
  proof (rule progeny.fuel_induct[OF inv])
    show "c \<in> tracked_in_graph d" using assms(3) by (simp add: tracked_in_graph_def)
    fix n c
    assume "c \<in> tracked_in_graph d"
      and IH: "\<And>e. e \<in> fset (children_of d c) \<Longrightarrow> \<forall>s. votes_only d s \<longrightarrow>
        (\<exists>s'. reject_progeny n E e s = Some s' \<and> decides (rejecting (progeny_of d e)) s s')"
    then have tr: "tracked d c" by (simp add: tracked_in_graph_def)
    show "\<forall>s. votes_only d s \<longrightarrow>
        (\<exists>s'. reject_progeny (Suc n) E c s = Some s' \<and> decides (rejecting (progeny_of d c)) s s')"
    proof (intro allI impI)
      fix s assume v: "votes_only d s"
      have wf: "states_wf s" by (rule votes_only_wf[OF v dag_invD(7)[OF inv]])
      have "tracked s c" using tr votes_only_tracked[OF v] by simp
      then obtain cs S where cs: "state_of s c = Some cs" "fmlookup (cs_children cs) c = Some S"
        "children_of s c = S" using state_lookups[OF wf] by metis
      let ?s1 = "s\<lparr>dag_state := fmupd (conflict_set_key c)
        (cs\<lparr>cs_decision := fmupd c False (cs_decision cs)\<rparr>) (dag_state s)\<rparr>"
      have s1: "decides (rejecting {c}) s ?s1"
        using decide_one[OF cs(1) wf, of "cs_preferred cs" False] by (simp add: rejecting_def[abs_def])
      let ?xs = "env_constraints E S"
      have xs: "set ?xs = fset (children_of d c)"
        using env_okD(3)[OF E] cs(3) votes_only_children[OF v] by simp
      have "votes_only d ?s1" using v decides_votes[OF s1] by (rule votes_only_trans)
      then obtain s' where s': "run_fold (\<lambda>e. reject_progeny n E e) ?xs ?s1 = Some s'"
        "decides (rejecting (\<Union>e \<in> set ?xs. progeny_of d e)) ?s1 s'"
        using decides_fold[of ?xs d "\<lambda>e. reject_progeny n E e" "progeny_of d" ?s1] IH xs by blast
      have "reject_progeny (Suc n) E c s = Some s'"
        using cs s'(1) by (simp add: update_state_def)
      moreover have "decides (rejecting (progeny_of d c)) s s'"
        using decides_trans[OF s1 s'(2)] unfolding xs progeny_of_unfold[of d c] by simp
      ultimately show "\<exists>s'. reject_progeny (Suc n) E c s = Some s' \<and>
          decides (rejecting (progeny_of d c)) s s'" by blast
    qed
  qed (rule assms(4))
  with assms(5) show ?thesis by blast
qed


section \<open>The vote for one constraint\<close>

text \<open>The counter after the vote, and whether it decides the constraint.\<close>

definition next_count :: "dag \<Rightarrow> constraint \<Rightarrow> nat" where
  "next_count d c = (if last_of d c then count_of d c + 1 else 1)"

definition accepts :: "dag \<Rightarrow> constraint \<Rightarrow> bool" where
  "accepts d c \<longleftrightarrow>
     cfg_thresh_accepted (dag_config d) \<le> next_count d c \<or>
     is_unity c \<and> (\<forall>p \<in> recorded_parents d c. decision_of d p = Some True) \<and>
     cfg_thresh_safe_early_commit (dag_config d) \<le> next_count d c"

definition opposite_chits :: "dag \<Rightarrow> constraint \<Rightarrow> nat" where
  "opposite_chits d c = (if is_unity c then 0 else card (chits_of d (opposite c)))"

text \<open>
  What a vote does to each voting variable of each constraint: the counter, the stored confidence and
  the last vote of the conflict set, the preference, and the decisions. The maps and the links of the
  constraint graph stay, so nothing of the graph's state is left open.
\<close>

definition vote_effect :: "dag \<Rightarrow> constraint \<Rightarrow> dag \<Rightarrow> bool" where
  "vote_effect d c d' \<longleftrightarrow>
     votes_only d d' \<and>
     (\<forall>x. chit_of d' x = chit_of d x) \<and>
     (\<forall>x. count_of d' x = (if x = c then next_count d c else count_of d x)) \<and>
     (\<forall>x. decision_of d' x =
        (if accepts d c \<and> x = c then Some True
         else if accepts d c \<and> \<not> is_unity c \<and> x \<in> progeny_of d (opposite c) then Some False
         else decision_of d x)) \<and>
     (\<forall>x. recorded_confidence d' x = (if x = c then card (chits_of d c) else recorded_confidence d x)) \<and>
     (\<forall>x. last_of d' x = (if x |\<in>| pair_of c then x = c else last_of d x)) \<and>
     (\<forall>x. preferred_of d' x =
        (if x |\<in>| pair_of c \<and> (opposite_chits d c < card (chits_of d c) \<or> accepts d c) then x = c
         else preferred_of d x))"

text \<open>A binary constraint shares its conflict set with its opposite, so it always has a conflict.\<close>

lemma has_conflict_tracked: "tracked d c \<Longrightarrow> has_conflict d c \<longleftrightarrow> \<not> is_unity c"
  by (auto simp: has_conflict_def conflict_eq tracked_def state_of_def fmlookup_dom_iff)

lemma opposite_confidence_total:
  "dag_inv H d \<Longrightarrow> env_ok E \<Longrightarrow> tracked d c \<Longrightarrow> opposite_confidence E d c = Some (opposite_chits d c)"
  by (simp add: opposite_confidence_def opposite_chits_def conflict_eq confidence_of_total)

lemma recorded_parents_tracked:
  assumes "dag_inv H d" "p \<in> recorded_parents d c"
  shows "tracked d p"
  using assms dag_invD(3)[OF assms(1)] parents_in_constraints_in inv_tracked[OF assms(1)]
  unfolding state_ok_def by blast

text \<open>The state variables of the conflict set after the vote is counted.\<close>

lemma count_vote_total:
  assumes wf: "states_wf d" and tr: "tracked d c"
  obtains cs cs' where "state_of d c = Some cs" "count_vote c k j cs = Some cs'"
    and "fmlookup (cs_count cs') c = Some (next_count d c)"
    and "conflict_set_wf c cs'" "same_links cs cs'"
    and "cs_decision cs' = cs_decision cs" "cs_chit cs' = cs_chit cs"
    and "\<And>x. x \<noteq> c \<Longrightarrow> fmlookup (cs_count cs') x = fmlookup (cs_count cs) x"
    and "cs_last cs' = c" "cs_confidence cs' = fmupd c k (cs_confidence cs)"
    and "cs_preferred cs' = (if k > j then c else cs_preferred cs)"
    and "fmlookup (cs_parents cs') c \<noteq> None" "recorded_parents d c = fset (the (fmlookup (cs_parents cs') c))"
proof -
  obtain cs n P where cs: "state_of d c = Some cs" "conflict_set_wf c cs"
    "fmlookup (cs_count cs) c = Some n" "count_of d c = n"
    "fmlookup (cs_parents cs) c = Some P" "recorded_parents d c = fset P"
    using state_lookups[OF wf tr] by metis
  define cs1 where "cs1 = cs\<lparr>cs_confidence := fmupd c k (cs_confidence cs),
    cs_preferred := (if k > j then c else cs_preferred cs)\<rparr>"
  define cs' where "cs' = cs1\<lparr>cs_last := c, cs_count := fmupd c (next_count d c) (cs_count cs)\<rparr>"
  have last: "last_of d c \<longleftrightarrow> cs_last cs = c" using cs(1) by (simp add: last_of_def)
  have "count_vote c k j cs = Some cs'"
  proof (cases "cs_last cs = c")
    case True
    have "cs1 = cs1\<lparr>cs_last := c\<rparr>" using True by (simp add: cs1_def)
    then show ?thesis using True cs(3,4) last
      by (simp add: count_vote_def Let_def cs'_def cs1_def next_count_def)
  next
    case False
    then show ?thesis using last by (simp add: count_vote_def Let_def cs'_def cs1_def next_count_def)
  qed
  moreover have "conflict_set_wf c cs'"
    using cs(2) unfolding conflict_set_wf_def cs'_def cs1_def by (simp add: finsert_absorb)
  ultimately show ?thesis
    using cs by (intro that[of cs cs']) (simp_all add: cs'_def cs1_def same_links_def)
qed

lemma decision_reached_total:
  assumes "\<And>p. p |\<in>| P \<Longrightarrow> tracked d p" "env_ok E"
  shows "decision_reached E d n P cflct = Some
    (cfg_thresh_accepted (dag_config d) \<le> n \<or>
     (\<forall>p \<in> fset P. decision_of d p = Some True) \<and> \<not> cflct \<and>
     cfg_thresh_safe_early_commit (dag_config d) \<le> n)"
proof -
  have "run_all (is_accepted d) (env_constraints E P) =
      Some (\<forall>p \<in> set (env_constraints E P). decision_of d p = Some True)"
    using assms(1) env_okD(3)[OF assms(2)] by (intro run_all_total is_accepted_total) simp
  then show ?thesis using env_okD(3)[OF assms(2)] by (auto simp: decision_reached_def)
qed


text \<open>Accepting a constraint rejects the progeny of its opposite.\<close>

lemma accept_constraint_total:
  assumes inv: "dag_inv H d" and E: "env_ok E" and tr: "tracked d c" and v: "votes_only d s"
  shows "\<exists>s'. accept_constraint E c s = Some s' \<and> votes_only s s' \<and>
    (\<forall>x. chit_of s' x = chit_of s x \<and> count_of s' x = count_of s x) \<and>
    (\<forall>x. last_of s' x = last_of s x \<and> recorded_confidence s' x = recorded_confidence s x) \<and>
    (\<forall>x. decision_of s' x =
       (if x = c then Some True
        else if \<not> is_unity c \<and> x \<in> progeny_of d (opposite c) then Some False else decision_of s x)) \<and>
    (\<forall>x. preferred_of s' x = (if x |\<in>| pair_of c then x = c else preferred_of s x))"
proof -
  have wf: "states_wf s" by (rule votes_only_wf[OF v dag_invD(7)[OF inv]])
  obtain cs where cs: "state_of s c = Some cs"
    using tr votes_only_tracked[OF v] by (metis trackedE)
  let ?s1 = "s\<lparr>dag_state := fmupd (conflict_set_key c)
    (cs\<lparr>cs_decision := fmupd c True (cs_decision cs), cs_preferred := c\<rparr>) (dag_state s)\<rparr>"
  have s1: "decides (\<lambda>x. if x = c then Some True else None) s ?s1"
    by (rule decide_one[OF cs wf]) simp
  have upd: "update_state c (\<lambda>cs. cs\<lparr>cs_decision := fmupd c True (cs_decision cs), cs_preferred := c\<rparr>) s
      = Some ?s1" using cs by (simp add: update_state_def)
  have pref: "preferred_of ?s1 x = (if x |\<in>| pair_of c then x = c else preferred_of s x)" for x
    by (auto simp: preferred_of_def state_of_update[OF cs] simp del: pair_of_iff)
  show ?thesis
  proof (cases "is_unity c")
    case True
    then have "accept_constraint E c s = Some ?s1"
      using upd by (simp add: accept_constraint_def conflict_eq)
    then show ?thesis using s1 pref True by (auto simp: decides_def)
  next
    case False
    have v1: "votes_only d ?s1" using v decides_votes[OF s1] by (rule votes_only_trans)
    have "constraint_rank d (opposite c) < depth_bound ?s1"
      using rank_below_depth_bound(2)[OF dag_invD(2)[OF inv]] votes_only_fields(7)[OF v1] by simp
    then obtain s2 where s2: "reject_progeny (depth_bound ?s1) E (opposite c) ?s1 = Some s2"
      "decides (rejecting (progeny_of d (opposite c))) ?s1 s2"
      using reject_progeny_walk[OF inv E _ _ v1, of "opposite c"] tr by auto
    have "accept_constraint E c s = Some s2"
      using upd s2(1) False by (simp add: accept_constraint_def conflict_eq del: fun_upd_apply)
    moreover have "votes_only s s2"
      using decides_votes[OF s1] decides_votes[OF s2(2)] by (rule votes_only_trans)
    moreover have "decision_of s2 x =
       (if x = c then Some True
        else if \<not> is_unity c \<and> x \<in> progeny_of d (opposite c) then Some False else decision_of s x)" for x
      using s1 s2(2) False progeny_of_opposite[OF inv tr False] by (auto simp: decides_def rejecting_def)
    moreover have "preferred_of s2 x = (if x |\<in>| pair_of c then x = c else preferred_of s x)" for x
      using s2(2) pref[of x] by (simp add: decides_def del: pair_of_iff)
    ultimately show ?thesis using s1 s2(2) by (auto simp: decides_def)
  qed
qed

lemma vote_for_walk:
  assumes inv: "dag_inv H d" and E: "env_ok E" and tr: "tracked d c"
  shows "\<exists>d'. vote_for E c d = Some d' \<and> vote_effect d c d'"
proof -
  let ?k = "card (chits_of d c)" and ?j = "opposite_chits d c"
  obtain cs cs' where cs: "state_of d c = Some cs" "count_vote c ?k ?j cs = Some cs'"
    and n: "fmlookup (cs_count cs') c = Some (next_count d c)"
    and wf': "conflict_set_wf c cs'" and links: "same_links cs cs'"
    and same: "cs_decision cs' = cs_decision cs" "cs_chit cs' = cs_chit cs"
      "\<And>x. x \<noteq> c \<Longrightarrow> fmlookup (cs_count cs') x = fmlookup (cs_count cs) x"
      "cs_last cs' = c" "cs_confidence cs' = fmupd c ?k (cs_confidence cs)"
    and pref: "cs_preferred cs' = (if ?k > ?j then c else cs_preferred cs)"
    and P: "fmlookup (cs_parents cs') c \<noteq> None" "recorded_parents d c = fset (the (fmlookup (cs_parents cs') c))"
    using count_vote_total[OF dag_invD(7)[OF inv] tr, of ?k ?j] by blast
  obtain P where P': "fmlookup (cs_parents cs') c = Some P" "recorded_parents d c = fset P"
    using P by auto
  define d1 where "d1 = d\<lparr>dag_state := fmupd (conflict_set_key c) cs' (dag_state d)\<rparr>"
  have v1: "votes_only d d1"
    unfolding d1_def by (rule votes_only_update[OF cs(1) links]) (rule wf')
  have st: "state_of d1 x = (if x |\<in>| pair_of c then Some cs' else state_of d x)" for x
    unfolding d1_def by (rule state_of_update[OF cs(1)])
  have pair: "state_of d x = Some cs" if "x |\<in>| pair_of c" for x
    using state_of_pair[OF that] cs(1) by simp
  have acc1: "decision_of d1 x = decision_of d x" "chit_of d1 x = chit_of d x"
    "count_of d1 x = (if x = c then next_count d c else count_of d x)" for x
    using pair[of x] same n
    by (cases "x |\<in>| pair_of c"; auto simp: decision_of_def chit_of_def count_of_def st pair_of_def)+
  have acc1': "preferred_of d1 x = (if x |\<in>| pair_of c \<and> ?j < ?k then x = c else preferred_of d x)"
    "last_of d1 x = (if x |\<in>| pair_of c then x = c else last_of d x)"
    "recorded_confidence d1 x = (if x = c then ?k else recorded_confidence d x)" for x
  proof (atomize(full), cases "x |\<in>| pair_of c")
    case True
    then have "state_of d1 x = Some cs'" "state_of d x = Some cs" using st pair by (simp_all del: pair_of_iff)
    with True show "preferred_of d1 x = (if x |\<in>| pair_of c \<and> ?j < ?k then x = c else preferred_of d x) \<and>
        last_of d1 x = (if x |\<in>| pair_of c then x = c else last_of d x) \<and>
        recorded_confidence d1 x = (if x = c then ?k else recorded_confidence d x)"
      using pref same(4,5)
      by (auto simp: preferred_of_def last_of_def recorded_confidence_def simp del: pair_of_iff)
  next
    case False
    then have "state_of d1 x = state_of d x" "x \<noteq> c" using st by auto
    with False show "preferred_of d1 x = (if x |\<in>| pair_of c \<and> ?j < ?k then x = c else preferred_of d x) \<and>
        last_of d1 x = (if x |\<in>| pair_of c then x = c else last_of d x) \<and>
        recorded_confidence d1 x = (if x = c then ?k else recorded_confidence d x)"
      by (simp add: preferred_of_def last_of_def recorded_confidence_def del: pair_of_iff)
  qed
  have "tracked d1 p" if "p |\<in>| P" for p
    using recorded_parents_tracked[OF inv, of p c] that P'(2) votes_only_tracked[OF v1] by simp
  from decision_reached_total[OF this E]
  have dec: "decision_reached E d1 (next_count d c) P (has_conflict d c) = Some (accepts d c)"
    using P'(2) votes_only_fields(1)[OF v1] has_conflict_tracked[OF tr]
    by (auto simp: accepts_def acc1(1))
  have body: "vote_for E c d = (if accepts d c then accept_constraint E c d1 else Some d1)"
    using confidence_of_total[OF inv E tr] opposite_confidence_total[OF inv E tr] cs n P'(1) dec
    by (simp add: vote_for_def d1_def Let_def)
  show ?thesis
  proof (cases "accepts d c")
    case False
    then have "vote_for E c d = Some d1" using body by simp
    moreover have "vote_effect d c d1" using False v1 acc1 acc1' by (simp add: vote_effect_def del: pair_of_iff)
    ultimately show ?thesis by blast
  next
    case True
    from accept_constraint_total[OF inv E tr v1] obtain d2 where d2: "accept_constraint E c d1 = Some d2"
      "votes_only d1 d2" "\<And>x. chit_of d2 x = chit_of d1 x" "\<And>x. count_of d2 x = count_of d1 x"
      "\<And>x. decision_of d2 x =
         (if x = c then Some True
          else if \<not> is_unity c \<and> x \<in> progeny_of d (opposite c) then Some False else decision_of d1 x)"
      "\<And>x. last_of d2 x = last_of d1 x" "\<And>x. recorded_confidence d2 x = recorded_confidence d1 x"
      "\<And>x. preferred_of d2 x = (if x |\<in>| pair_of c then x = c else preferred_of d1 x)" by blast
    have "vote_effect d c d2"
      unfolding vote_effect_def using True votes_only_trans[OF v1 d2(2)] acc1 acc1' d2(3-8)
      by (simp del: pair_of_iff)
    then show ?thesis using body True d2(1) by simp
  qed
qed

end
