(* ===== verification/Dag_Record.thy ===== *)
theory Dag_Record
  imports Dag_Votes
begin

text \<open>
  \<open>record_query_result\<close> as a whole: a positive result is a chit and a vote for every active
  constraint, a negative one resets their counters. It crashes exactly when an ancestor of the
  vertex has been rejected.
\<close>

section \<open>Chits and counters\<close>

lemma update_cases:
  assumes cs: "state_of d c = Some cs"
  shows "state_of (d\<lparr>dag_state := fmupd (conflict_set_key c) cs' (dag_state d)\<rparr>) x = Some cs' \<and>
      state_of d x = Some cs \<and> (x = c \<or> x = opposite c) \<or>
    state_of (d\<lparr>dag_state := fmupd (conflict_set_key c) cs' (dag_state d)\<rparr>) x = state_of d x \<and> x \<noteq> c"
proof (cases "x |\<in>| pair_of c")
  case True
  then have "state_of d x = Some cs" using state_of_pair[OF True] cs by simp
  with True show ?thesis by (simp add: state_of_update[OF cs] pair_of_def)
qed (simp add: state_of_update[OF cs])

lemma award_chit_total:
  assumes wf: "states_wf d" and tr: "tracked d c"
  shows "\<exists>d'. award_chit c d = Some d' \<and> votes_only d d' \<and>
    (\<forall>x. chit_of d' x = (x = c \<or> chit_of d x)) \<and>
    (\<forall>x. decision_of d' x = decision_of d x \<and> count_of d' x = count_of d x \<and>
       preferred_of d' x = preferred_of d x \<and> last_of d' x = last_of d x \<and>
       recorded_confidence d' x = recorded_confidence d x)"
proof -
  obtain cs where cs: "state_of d c = Some cs" using tr by (rule trackedE)
  let ?cs' = "cs\<lparr>cs_chit := fmupd c True (cs_chit cs)\<rparr>"
  let ?d' = "d\<lparr>dag_state := fmupd (conflict_set_key c) ?cs' (dag_state d)\<rparr>"
  have "conflict_set_wf c ?cs'"
    using states_wfD[OF wf cs] unfolding conflict_set_wf_def by (simp add: finsert_absorb)
  then have "votes_only d ?d'" by (intro votes_only_update[OF cs]) (simp_all add: same_links_def)
  moreover have "chit_of ?d' x = (x = c \<or> chit_of d x) \<and> decision_of ?d' x = decision_of d x \<and>
      count_of ?d' x = count_of d x \<and> preferred_of ?d' x = preferred_of d x \<and>
      last_of ?d' x = last_of d x \<and> recorded_confidence ?d' x = recorded_confidence d x" for x
    using update_cases[OF cs, of ?cs' x]
    by (auto simp: chit_of_def decision_of_def count_of_def preferred_of_def last_of_def
        recorded_confidence_def split: if_splits)
  ultimately show ?thesis using cs by (simp add: award_chit_def update_state_def)
qed

lemma reset_count_total:
  assumes wf: "states_wf d" and tr: "tracked d c"
  shows "\<exists>d'. reset_count c d = Some d' \<and> votes_only d d' \<and>
    (\<forall>x. count_of d' x = (if x = c then 0 else count_of d x)) \<and>
    (\<forall>x. decision_of d' x = decision_of d x \<and> chit_of d' x = chit_of d x \<and>
       preferred_of d' x = preferred_of d x \<and> last_of d' x = last_of d x \<and>
       recorded_confidence d' x = recorded_confidence d x)"
proof -
  obtain cs where cs: "state_of d c = Some cs" using tr by (rule trackedE)
  let ?cs' = "cs\<lparr>cs_count := fmupd c 0 (cs_count cs)\<rparr>"
  let ?d' = "d\<lparr>dag_state := fmupd (conflict_set_key c) ?cs' (dag_state d)\<rparr>"
  have "conflict_set_wf c ?cs'"
    using states_wfD[OF wf cs] unfolding conflict_set_wf_def by (simp add: finsert_absorb)
  then have "votes_only d ?d'" by (intro votes_only_update[OF cs]) (simp_all add: same_links_def)
  moreover have "count_of ?d' x = (if x = c then 0 else count_of d x) \<and>
      decision_of ?d' x = decision_of d x \<and> chit_of ?d' x = chit_of d x \<and>
      preferred_of ?d' x = preferred_of d x \<and>
      last_of ?d' x = last_of d x \<and> recorded_confidence ?d' x = recorded_confidence d x" for x
    using update_cases[OF cs, of ?cs' x]
    by (auto simp: chit_of_def decision_of_def count_of_def preferred_of_def last_of_def
        recorded_confidence_def split: if_splits)
  ultimately show ?thesis using cs by (simp add: reset_count_def update_state_def)
qed

text \<open>The effect of a negative result, and of a sequence of votes.\<close>

definition reset_effect :: "constraint set \<Rightarrow> dag \<Rightarrow> dag \<Rightarrow> bool" where
  "reset_effect X d d' \<longleftrightarrow>
     votes_only d d' \<and>
     (\<forall>x. count_of d' x = (if x \<in> X then 0 else count_of d x)) \<and>
     (\<forall>x. decision_of d' x = decision_of d x \<and> chit_of d' x = chit_of d x \<and>
       preferred_of d' x = preferred_of d x \<and> last_of d' x = last_of d x \<and>
       recorded_confidence d' x = recorded_confidence d x)"

inductive voted :: "dag \<Rightarrow> constraint list \<Rightarrow> dag \<Rightarrow> bool" where
  voted_Nil: "voted d [] d"
| voted_Cons: "vote_effect d c e \<Longrightarrow> voted e cs f \<Longrightarrow> voted d (c # cs) f"

inductive_cases voted_NilE: "voted d [] f"
inductive_cases voted_ConsE: "voted d (c # cs) f"

lemma reset_counts_total:
  assumes "states_wf d" "\<And>c. c \<in> set cs \<Longrightarrow> tracked d c"
  shows "\<exists>d'. run_fold reset_count cs d = Some d' \<and> reset_effect (set cs) d d'"
  using assms
proof (induction cs arbitrary: d)
  case Nil
  then show ?case by (simp add: reset_effect_def)
next
  case (Cons c cs)
  obtain d1 where d1: "reset_count c d = Some d1" "votes_only d d1"
    "\<And>x. count_of d1 x = (if x = c then 0 else count_of d x)"
    "\<And>x. decision_of d1 x = decision_of d x \<and> chit_of d1 x = chit_of d x \<and>
      preferred_of d1 x = preferred_of d x \<and> last_of d1 x = last_of d x \<and>
      recorded_confidence d1 x = recorded_confidence d x"
    using reset_count_total[OF Cons.prems(1), of c] Cons.prems(2) by auto
  obtain d2 where d2: "run_fold reset_count cs d1 = Some d2" "reset_effect (set cs) d1 d2"
    using Cons.IH[OF votes_only_wf[OF d1(2) Cons.prems(1)]] Cons.prems(2) votes_only_tracked[OF d1(2)]
    by auto
  have "reset_effect (set (c # cs)) d d2"
    using d2(2) d1(2-4) votes_only_trans[OF d1(2)] unfolding reset_effect_def by auto
  with d1(1) d2(1) show ?case by auto
qed

lemma votes_total:
  assumes "dag_inv H d" "env_ok E" "\<And>c. c \<in> set cs \<Longrightarrow> tracked d c"
  shows "\<exists>d'. run_fold (vote_for E) cs d = Some d' \<and> voted d cs d'"
  using assms(1,3)
proof (induction cs arbitrary: d)
  case Nil
  then show ?case by (simp add: voted_Nil)
next
  case (Cons c cs)
  obtain d1 where d1: "vote_for E c d = Some d1" "vote_effect d c d1"
    using vote_for_walk[OF Cons.prems(1) assms(2), of c] Cons.prems(2) by auto
  have v: "votes_only d d1" using d1(2) by (simp add: vote_effect_def)
  obtain d2 where "run_fold (vote_for E) cs d1 = Some d2" "voted d1 cs d2"
    using Cons.IH[OF dag_inv_votes[OF Cons.prems(1) v]] Cons.prems(2) votes_only_tracked[OF v] by auto
  with d1 show ?case by (auto intro: voted_Cons)
qed

lemma voted_votes_only: "voted d cs d' \<Longrightarrow> votes_only d d'"
  by (induction rule: voted.induct) (auto simp: vote_effect_def intro: votes_only_trans)

lemma voted_chits: "voted d cs d' \<Longrightarrow> chit_of d' x = chit_of d x"
  by (induction rule: voted.induct) (auto simp: vote_effect_def)

text \<open>A positive result counts at least one vote for each constraint voted for.\<close>

lemma voted_count_other: "voted d cs d' \<Longrightarrow> x \<notin> set cs \<Longrightarrow> count_of d' x = count_of d x"
  by (induction rule: voted.induct) (auto simp: vote_effect_def)

lemma voted_count:
  "voted d cs d' \<Longrightarrow> distinct cs \<Longrightarrow> x \<in> set cs \<Longrightarrow> count_of d' x \<noteq> 0"
proof (induction rule: voted.induct)
  case (voted_Cons d c e cs f)
  show ?case
  proof (cases "x = c")
    case True
    then have "count_of f x = count_of e x" using voted_Cons voted_count_other by auto
    also have "\<dots> = next_count d c" using voted_Cons(1) True by (simp add: vote_effect_def)
    finally show ?thesis by (simp add: next_count_def)
  next
    case False
    then show ?thesis using voted_Cons by auto
  qed
qed simp

section \<open>Recording a result\<close>

lemma rejected_reach_cong:
  assumes "dag_graph d = dag_graph e" "decision_of d = decision_of e"
  shows "rejected_reach d vx = rejected_reach e vx"
  using assms by (simp add: rejected_reach_def undecided_reach_def undecided_rel_def parents_of_def)

definition without_pending :: "hash \<Rightarrow> dag \<Rightarrow> dag" where
  "without_pending h d = d\<lparr>dag_pending_query := fmdrop h (dag_pending_query d)\<rparr>"

lemma without_pending_simps [simp, frame_simps]:
  "dag_state (without_pending h d) = dag_state d" "dag_graph (without_pending h d) = dag_graph d"
  "dag_vertex (without_pending h d) = dag_vertex d" "dag_children (without_pending h d) = dag_children d"
  "dag_frontier (without_pending h d) = dag_frontier d" "dag_config (without_pending h d) = dag_config d"
  "dag_pending_query (without_pending h d) = fmdrop h (dag_pending_query d)"
  by (simp_all add: without_pending_def)

lemma without_pending_inv: "dag_inv H d \<Longrightarrow> dag_inv H (without_pending h d)"
  unfolding without_pending_def by (rule dag_inv_pending_drop)

lemma without_pending_accessors [simp]:
  "tracked (without_pending h d) = tracked d" "decision_of (without_pending h d) = decision_of d"
  "chit_of (without_pending h d) = chit_of d" "count_of (without_pending h d) = count_of d"
  "preferred_of (without_pending h d) = preferred_of d" "last_of (without_pending h d) = last_of d"
  "recorded_confidence (without_pending h d) = recorded_confidence d"
  using accessors_cong[of "without_pending h d" d]
  by (simp_all add: last_of_def recorded_confidence_def state_of_def fun_eq_iff)

text \<open>The error for a vertex that is not pending.\<close>

definition record_error :: "dag \<Rightarrow> hash \<Rightarrow> dag_error" where
  "record_error d h =
     (if h |\<in>| fmdom (dag_graph d) then AlreadyRecorded
      else if h |\<in>| fmdom (dag_vertex d) then WaitingOnInsert else NotFound)"

text \<open>
  What a recorded result does: \<open>d1\<close> is the state with the query no longer pending and, for a
  positive result, the chit awarded.
\<close>

definition record_effect :: "env \<Rightarrow> hash \<Rightarrow> vertex \<Rightarrow> bool \<Rightarrow> dag \<Rightarrow> dag \<Rightarrow> bool" where
  "record_effect E h vx b d d' \<longleftrightarrow>
     (\<exists>d1 cs. votes_only (without_pending h d) d1 \<and>
        (\<forall>x. chit_of d1 x = (b \<and> x = unity h \<or> chit_of d x)) \<and>
        (\<forall>x. decision_of d1 x = decision_of d x \<and> count_of d1 x = count_of d x \<and>
           preferred_of d1 x = preferred_of d x \<and> last_of d1 x = last_of d x \<and>
           recorded_confidence d1 x = recorded_confidence d x) \<and>
        get_active_ancestor_constraints E d1 vx = Some (Inr cs) \<and>
        active_constraints_spec d1 vx (Inr cs) \<and>
        (if b then voted d1 (cs @ [unity h]) d' else reset_effect (set (cs @ [unity h])) d1 d'))"

lemma pending_known:
  assumes inv: "dag_inv H d" and p: "fmlookup (dag_pending_query d) h = Some vx"
  shows "parents_known d vx" "tracked d (unity h)"
    "\<not> (\<exists>p \<in> set (vx_parents vx). \<exists>q \<in> set (vx_parents vx). (p, q) \<in> (parent_rel d)\<^sup>+)"
proof -
  note v = inv_pending[OF inv p]
  show "parents_known d vx"
    using v(2) graph_okD(3)[OF dag_invD(1)[OF inv] v(1)] by (auto simp: parents_known_def intro: fmdomI)
  show "tracked d (unity h)"
    using inv_tracked[OF inv] unity_in_constraints_in[OF v(1)] by blast
  show "\<not> (\<exists>p \<in> set (vx_parents vx). \<exists>q \<in> set (vx_parents vx). (p, q) \<in> (parent_rel d)\<^sup>+)"
    using dag_invD(8)[OF inv] v(1) unfolding antichain_ok_def parent_rel_graph by blast
qed

lemma record_walk:
  assumes inv: "dag_inv H d" and E: "env_ok E" and p: "fmlookup (dag_pending_query d) h = Some vx"
  shows "if rejected_reach d vx then record_query_result E h b d = None
    else \<exists>d'. record_query_result E h b d = Some (d', Inr ()) \<and> record_effect E h vx b d d' \<and>
      votes_only (without_pending h d) d'"
proof -
  let ?d0 = "without_pending h d"
  have inv0: "dag_inv H ?d0" by (rule without_pending_inv[OF inv])
  note known = pending_known[OF inv p]
  obtain d1 where d1: "(if b then award_chit (unity h) ?d0 else Some ?d0) = Some d1"
    "votes_only ?d0 d1" "\<And>x. chit_of d1 x = (b \<and> x = unity h \<or> chit_of d x)"
    "\<And>x. decision_of d1 x = decision_of d x \<and> count_of d1 x = count_of d x \<and>
      preferred_of d1 x = preferred_of d x \<and> last_of d1 x = last_of d x \<and>
      recorded_confidence d1 x = recorded_confidence d x"
    using award_chit_total[OF dag_invD(7)[OF inv0], of "unity h"] known(2) by (cases b) auto
  have inv1: "dag_inv H d1" by (rule dag_inv_votes[OF inv0 d1(2)])
  have g1: "dag_graph d1 = dag_graph d" using votes_only_fields(3)[OF d1(2)] by simp
  have rej: "rejected_reach d1 vx = rejected_reach d vx"
    by (rule rejected_reach_cong[OF g1]) (use d1(4) in auto)
  have pk: "parents_known d1 vx" using known(1) g1 by (simp add: parents_known_def)
  obtain r where r: "get_active_ancestor_constraints E d1 vx = Some r" "active_constraints_spec d1 vx r"
    using active_constraints_walk[OF inv1 E pk] by blast
  have body: "record_query_result E h b d = (case r of Inl _ \<Rightarrow> None | Inr cs \<Rightarrow> do {
      d2 \<leftarrow> run_fold (if b then vote_for E else reset_count) (cs @ [unity h]) d1; Some (d2, Inr ()) })"
    using p d1(1) r(1) unfolding record_query_result_def without_pending_def Let_def
    by (cases b) simp_all
  show ?thesis
  proof (cases r)
    case (Inl e)
    then have "rejected_reach d vx"
      using r(2) rej known(3) by (auto simp: active_constraints_spec_def parent_rel_graph g1)
    then show ?thesis using body Inl by simp
  next
    case (Inr cs)
    then have "\<not> rejected_reach d vx" using r(2) rej by (simp add: active_constraints_spec_def)
    have v: "fmlookup (dag_graph d1) h = Some vx" using inv_pending(1)[OF inv p] g1 by simp
    have tr: "tracked d1 c" if "c \<in> set (cs @ [unity h])" for c
      using that active_constraints_tracked[OF inv1 r(2)[unfolded Inr] _ v] known(2)
        votes_only_tracked[OF d1(2)] by auto
    have pos: "\<exists>d2. run_fold (vote_for E) (cs @ [unity h]) d1 = Some d2 \<and> voted d1 (cs @ [unity h]) d2"
      by (rule votes_total[OF inv1 E tr])
    have neg: "\<exists>d2. run_fold reset_count (cs @ [unity h]) d1 = Some d2 \<and>
        reset_effect (set (cs @ [unity h])) d1 d2"
      by (rule reset_counts_total[OF dag_invD(7)[OF inv1] tr])
    obtain d2 where d2: "run_fold (if b then vote_for E else reset_count) (cs @ [unity h]) d1 = Some d2"
      "if b then voted d1 (cs @ [unity h]) d2 else reset_effect (set (cs @ [unity h])) d1 d2"
      using pos neg by (cases b) auto
    have "votes_only d1 d2"
      using d2(2) voted_votes_only by (auto simp: reset_effect_def split: if_splits)
    then have "votes_only ?d0 d2" by (rule votes_only_trans[OF d1(2)])
    moreover have "record_effect E h vx b d d2"
      unfolding record_effect_def using d1(2-4) r Inr d2(2)
      by (intro exI[of _ d1] exI[of _ cs]) simp
    ultimately show ?thesis using \<open>\<not> rejected_reach d vx\<close> body Inr d2(1) by simp
  qed
qed

lemma record_inv:
  assumes "dag_inv H d" "votes_only (without_pending h d) d'"
  shows "dag_inv H d'"
  using dag_inv_votes[OF without_pending_inv[OF assms(1)] assms(2)] .

lemma record_not_pending:
  "fmlookup (dag_pending_query d) h = None \<Longrightarrow>
     record_query_result E h b d = Some (d, Inl (record_error d h))"
  by (simp add: record_query_result_def record_error_def)

end
