(* ===== verification/Dag_Reach.thy ===== *)
theory Dag_Reach
  imports Dag_Record
begin

text \<open>
  The graph as a state machine: it is created on a genesis vertex and then changed by insertions,
  retries and recorded results, in any order. Every reachable state satisfies the invariant
  \<open>dag_inv\<close> and never accepts a constraint without having rejected its opposite.
\<close>

section \<open>Creation\<close>

lemma dag_inv_empty: "dag_inv H (empty_dag cfg)"
  by (simp add: dag_inv_def graph_ok_def maps_ok_def state_ok_def frontier_ok_def children_ok_def
      roots_ok_def antichain_ok_def empty_dag_def states_wf_def tracked_def children_of_def
      recorded_parents_def state_of_def constraints_in_def)

lemma parent_constraints_root: "vx_parents vx = [] \<Longrightarrow> parent_constraints vx = []"
  by (simp add: parent_constraints_def)

lemma accept_initial_total:
  assumes wf: "states_wf d" and tr: "tracked d c"
  shows "\<exists>d'. accept_initial c d = Some d' \<and> votes_only d d' \<and>
    (\<forall>x. decision_of d' x = (if x = c then Some True else decision_of d x)) \<and>
    (\<forall>x. chit_of d' x = chit_of d x \<and> count_of d' x = count_of d x)"
proof -
  obtain cs where cs: "state_of d c = Some cs" using tr by (rule trackedE)
  let ?d' = "d\<lparr>dag_state := fmupd (conflict_set_key c)
    (cs\<lparr>cs_decision := fmupd c True (cs_decision cs)\<rparr>) (dag_state d)\<rparr>"
  have "decides (\<lambda>x. if x = c then Some True else None) d ?d'"
    using decide_one[OF cs wf, of "cs_preferred cs" True] by simp
  then show ?thesis using cs by (auto simp: decides_def accept_initial_def update_state_def)
qed

text \<open>A vertex without parents, inserted unchecked and accepted at once.\<close>

lemma insert_initial_root:
  assumes inv: "dag_inv H d" and E: "env_ok E" "env_hash E = H"
    and root: "vx_parents vx = []" and new: "H vx |\<notin>| fmdom (dag_graph d)"
    and height: "unat (vx_height vx) \<le> fcard (fmdom (dag_graph d))"
  shows "\<exists>d'. insert_initial E vx d = Some d' \<and> dag_inv H d' \<and> dag_config d' = dag_config d \<and>
    dag_graph d' = fmupd (H vx) vx (dag_graph d) \<and> dag_vertex d' = fmupd (H vx) vx (dag_vertex d) \<and>
    dag_pending_query d' = fmdrop (H vx) (dag_pending_query d) \<and>
    decision_of d' (unity (H vx)) = Some True \<and>
    (\<forall>c. c \<noteq> unity (H vx) \<longrightarrow> decision_of d' c = (if tracked d c then decision_of d c else None)) \<and>
    (\<forall>c. \<not> tracked d c \<longrightarrow> \<not> chit_of d' c \<and> count_of d' c = 0)"
proof -
  let ?h = "H vx"
  have ins: "insertable H d vx" using root new height by (simp add: insertable_def)
  obtain d1 where d1: "insert_vertex E vx d = Some d1" "inserted ?h vx d d1"
    "state_ok (dag_graph d1) (constraints_in (dag_graph d1)) d1"
    using insert_vertex_step[OF inv E ins] by blast
  note f1 = insertedD[OF d1(2)]
  let ?d2 = "without_pending ?h d1"
  have tr: "tracked d1 (unity ?h)"
    using d1(3) f1(3) unity_in_constraints_in[of "dag_graph d1" ?h vx] by (simp add: state_ok_def)
  have wf2: "states_wf ?d2" using d1(3) accessors_cong(7)[of ?d2 d1] by (simp add: state_ok_def)
  obtain d3 where d3: "accept_initial (unity ?h) ?d2 = Some d3" "votes_only ?d2 d3"
    "\<And>x. decision_of d3 x = (if x = unity ?h then Some True else decision_of d1 x)"
    "\<And>x. chit_of d3 x = chit_of d1 x \<and> count_of d3 x = count_of d1 x"
    using accept_initial_total[OF wf2, of "unity ?h"] tr by auto
  note f3 = votes_only_fields[OF d3(2)]
  have "insert_initial E vx d = Some d3"
    using d1(1) d3(1) E(2) parent_constraints_root[OF root]
    by (simp add: insert_initial_def without_pending_def Let_def)
  moreover have "dag_inv H d3"
    unfolding dag_inv_def
  proof (intro conjI)
    show "graph_ok (dag_graph d3)"
      using graph_ok_insert[OF dag_invD(1)[OF inv] ins] by (simp add: f3 f1)
    show "antichain_ok (dag_graph d3)"
      using antichain_ok_insert[OF inv ins] by (simp add: f3 f1)
    show "maps_ok H d3"
      using dag_invD(2)[OF inv] unfolding maps_ok_def by (auto simp: f3 f1)
    show "state_ok (dag_graph d3) (constraints_in (dag_graph d3)) d3"
    proof -
      have "state_ok (dag_graph d1) (constraints_in (dag_graph d1)) ?d2"
        using d1(3) accessors_cong[of ?d2 d1] by (simp add: state_ok_def)
      from state_ok_votes[OF this d3(2)] show ?thesis by (simp add: f3)
    qed
    show "frontier_ok d3"
      using frontier_ok_insert[OF inv ins d1(2)] by (simp add: frontier_ok_def f3)
    show "children_ok d3"
      using children_ok_insert[OF inv d1(2)] by (simp add: children_ok_def f3)
    show "roots_ok d3"
      unfolding roots_ok_def
    proof (intro allI impI)
      fix k v assume v: "fmlookup (dag_graph d3) k = Some v" and r: "vx_parents v = []"
      show "\<exists>b. decision_of d3 (unity k) = Some b"
      proof (cases "k = ?h")
        case False
        then have k: "fmlookup (dag_graph d) k = Some v" using v by (simp add: f3 f1)
        then have "tracked d (unity k)" using inv_tracked[OF inv] unity_in_constraints_in by blast
        from state_grows_accessors(2)[OF f1(7) this] show ?thesis
          using dag_invD(6)[OF inv] k r False by (auto simp: roots_ok_def d3(3))
      qed (auto simp: d3(3))
    qed
  qed
  moreover have "decision_of d1 c = (if tracked d c then decision_of d c else None)"
    if "c \<noteq> unity ?h" for c
  proof (cases "tracked d c")
    case True
    then show ?thesis using state_grows_accessors(2)[OF f1(7) True] by simp
  next
    case False
    have "\<not> tracked d1 c"
    proof
      assume "tracked d1 c"
      then have "c \<in> constraints_in (dag_graph d1) \<or> opposite c \<in> constraints_in (dag_graph d1)"
        using d1(3) by (simp add: state_ok_def)
      moreover have "constraints_in (dag_graph d1) = insert (unity ?h) (constraints_in (dag_graph d))"
        using constraints_in_upd[OF new] parent_constraints_root[OF root] by (simp add: f1)
      moreover have "opposite c \<noteq> unity ?h" using that by (metis opposite_simps(1,2))
      ultimately have "c \<in> constraints_in (dag_graph d) \<or> opposite c \<in> constraints_in (dag_graph d)"
        using that by auto
      then have "tracked d c" using inv_tracked[OF inv] tracked_opposite by blast
      with False show "False" ..
    qed
    then show ?thesis using False by (simp add: decision_of_def tracked_def split: option.split)
  qed
  moreover have "\<not> chit_of d3 c \<and> count_of d3 c = 0" if "\<not> tracked d c" for c
    using state_grows_new(2,3)[OF f1(7) that] d3(4) by simp
  moreover have "fmdrop ?h (fmupd ?h vx (dag_pending_query d)) = fmdrop ?h (dag_pending_query d)"
    by (rule fmap_ext) simp
  ultimately show ?thesis by (auto simp: d3(3) f3 f1)
qed

section \<open>Reachable states\<close>

inductive dag_reach :: "(vertex \<Rightarrow> hash) \<Rightarrow> dag_config \<Rightarrow> vertex \<Rightarrow> dag \<Rightarrow> bool"
  for H :: "vertex \<Rightarrow> hash" and cfg :: dag_config and genesis :: vertex where
  reach_new: "env_ok E \<Longrightarrow> env_hash E = H \<Longrightarrow> vx_parents genesis = [] \<Longrightarrow> vx_height genesis = 0 \<Longrightarrow>
    dag_new E cfg [genesis] = Some (Inr d) \<Longrightarrow> dag_reach H cfg genesis d"
| reach_insert: "dag_reach H cfg genesis d \<Longrightarrow> env_ok E \<Longrightarrow> env_hash E = H \<Longrightarrow> capacity d \<Longrightarrow>
    try_insert E vx d = Some (d', r) \<Longrightarrow> dag_reach H cfg genesis d'"
| reach_retry: "dag_reach H cfg genesis d \<Longrightarrow> env_ok E \<Longrightarrow> env_hash E = H \<Longrightarrow> capacity d \<Longrightarrow>
    retry_pending E hs d = Some (d', r) \<Longrightarrow> dag_reach H cfg genesis d'"
| reach_record: "dag_reach H cfg genesis d \<Longrightarrow> env_ok E \<Longrightarrow> env_hash E = H \<Longrightarrow>
    record_query_result E h b d = Some (d', r) \<Longrightarrow> dag_reach H cfg genesis d'"

text \<open>Never both orderings: accepting a constraint has rejected its opposite.\<close>

definition agreement :: "dag \<Rightarrow> bool" where
  "agreement d \<longleftrightarrow>
     (\<forall>c. decision_of d c = Some True \<longrightarrow> \<not> is_unity c \<longrightarrow> decision_of d (opposite c) = Some False)"

lemma agreement_extends:
  assumes "extends d d'" "agreement d"
  shows "agreement d'"
  unfolding agreement_def
proof (intro allI impI)
  fix c assume c: "decision_of d' c = Some True" "\<not> is_unity c"
  have g: "state_grows d d'" using assms(1) by (simp add: extends_def)
  have tr: "tracked d c"
  proof (rule ccontr)
    assume "\<not> tracked d c"
    with state_grows_new(1)[OF g] c(1) show False by blast
  qed
  then have "decision_of d c = Some True" using state_grows_accessors(2)[OF g] c(1) by simp
  then have "decision_of d (opposite c) = Some False" using assms(2) c(2) by (simp add: agreement_def)
  then show "decision_of d' (opposite c) = Some False"
    using state_grows_accessors(2)[OF g, of "opposite c"] tr by simp
qed

lemma agreement_vote:
  assumes "vote_effect d c d'" "agreement d"
  shows "agreement d'"
  unfolding agreement_def
proof (intro allI impI)
  fix x assume x: "decision_of d' x = Some True" "\<not> is_unity x"
  have dec: "decision_of d' y =
      (if accepts d c \<and> y = c then Some True
       else if accepts d c \<and> \<not> is_unity c \<and> y \<in> progeny_of d (opposite c) then Some False
       else decision_of d y)" for y
    using assms(1) by (simp add: vote_effect_def)
  show "decision_of d' (opposite x) = Some False"
  proof (cases "accepts d c \<and> x = c")
    case True
    then have "opposite x \<noteq> c" "opposite x \<in> progeny_of d (opposite c)" using x(2) by auto
    then show ?thesis using dec[of "opposite x"] True x(2) by simp
  next
    case False
    then have old: "decision_of d x = Some True" and notin: "\<not> (accepts d c \<and> \<not> is_unity c \<and> x \<in> progeny_of d (opposite c))"
      using x(1) dec[of x] by (auto split: if_splits)
    have "\<not> (accepts d c \<and> opposite x = c)"
    proof
      assume acc: "accepts d c \<and> opposite x = c"
      then have "x = opposite c" by auto
      then have "x \<in> progeny_of d (opposite c)" "\<not> is_unity c" using x(2) by auto
      with notin acc show False by blast
    qed
    then show ?thesis using dec[of "opposite x"] assms(2) old x(2) by (simp add: agreement_def)
  qed
qed

lemma agreement_voted: "voted d cs d' \<Longrightarrow> agreement d \<Longrightarrow> agreement d'"
  by (induction rule: voted.induct) (auto intro: agreement_vote)

lemma agreement_cong: "decision_of d' = decision_of d \<Longrightarrow> agreement d' = agreement d"
  by (simp add: agreement_def)

lemma agreement_record:
  assumes "record_effect E h vx b d d'" "agreement d"
  shows "agreement d'"
proof -
  obtain d1 cs where d1: "\<forall>x. decision_of d1 x = decision_of d x"
    and d': "if b then voted d1 (cs @ [unity h]) d' else reset_effect (set (cs @ [unity h])) d1 d'"
    using assms(1) unfolding record_effect_def by blast
  have a1: "agreement d1" using d1 assms(2) agreement_cong[of d1 d] by auto
  show ?thesis
  proof (cases b)
    case True
    then show ?thesis using d' agreement_voted a1 by auto
  next
    case False
    then have "decision_of d' = decision_of d1" using d' by (auto simp: reset_effect_def)
    then show ?thesis using a1 agreement_cong by blast
  qed
qed

text \<open>What one step does, seen from a state that satisfies the invariant.\<close>

lemma new_step:
  assumes "env_ok E" "env_hash E = H" "vx_parents genesis = []" "vx_height genesis = 0"
    and "dag_new E cfg [genesis] = Some (Inr d)"
  shows "dag_inv H d \<and> agreement d \<and> dag_config d = cfg \<and>
    cfg_thresh_safe_early_commit cfg \<le> cfg_thresh_accepted cfg"
proof -
  have cfg: "dag_config_check cfg = Inr ()" and i: "insert_initial E genesis (empty_dag cfg) = Some d"
    using assms(5) by (auto simp: dag_new_def dag_config_check_def bind_eq_Some_conv split: if_splits)
  have "H genesis |\<notin>| fmdom (dag_graph (empty_dag cfg))" by (simp add: empty_dag_def)
  with insert_initial_root[OF dag_inv_empty assms(1,2,3) this] assms(4) i
  have d: "dag_inv H d" "dag_config d = dag_config (empty_dag cfg)"
    "\<And>c. c \<noteq> unity (H genesis) \<Longrightarrow>
      decision_of d c = (if tracked (empty_dag cfg) c then decision_of (empty_dag cfg) c else None)"
    by auto
  have "decision_of d c = None" if "\<not> is_unity c" for c
  proof -
    have "c \<noteq> unity (H genesis)" using that by auto
    from d(3)[OF this] show ?thesis by (simp add: empty_dag_def tracked_def state_of_def)
  qed
  then have "agreement d" unfolding agreement_def by (metis option.distinct(1))
  with d cfg show ?thesis by (auto simp: empty_dag_def dag_config_check_def split: if_splits)
qed

lemma record_step:
  assumes inv: "dag_inv H d" and E: "env_ok E" and r: "record_query_result E h b d = Some (d', r)"
  shows "d' = d \<or> votes_only (without_pending h d) d' \<and> (\<exists>vx. record_effect E h vx b d d')"
proof (cases "fmlookup (dag_pending_query d) h")
  case None
  then show ?thesis using record_not_pending[OF None] r by simp
next
  case (Some vx)
  from record_walk[OF inv E Some, of b] r show ?thesis by (auto split: if_splits)
qed

lemma reach_invariant:
  assumes "dag_reach H cfg genesis d"
  shows "dag_inv H d \<and> agreement d \<and> dag_config d = cfg \<and>
    cfg_thresh_safe_early_commit cfg \<le> cfg_thresh_accepted cfg"
  using assms
proof (induction rule: dag_reach.induct)
  case (reach_new E d)
  then show ?case by (rule new_step)
next
  case (reach_insert d E vx d' r)
  then have inv: "dag_inv H d" by simp
  from try_insert_walk[OF inv reach_insert(2,3,4), of vx] reach_insert(5)
  have "dag_inv H d'" "try_insert_outcome E vx d (d', r)" by auto
  then have ext: "extends d d'" using try_insert_extends[OF inv, of E vx "(d', r)"] by simp
  then have "agreement d'" using agreement_extends reach_insert.IH by blast
  with \<open>dag_inv H d'\<close> ext reach_insert.IH show ?case by (simp add: extends_def)
next
  case (reach_retry d E hs d' r)
  then have inv: "dag_inv H d" by simp
  from retry_pending_walk[OF reach_retry(2,3) inv reach_retry(4), of hs] reach_retry(5)
  have ext: "dag_inv H d'" "extends d d'" by auto
  then have "agreement d'" using agreement_extends reach_retry.IH by blast
  with ext reach_retry.IH show ?case by (simp add: extends_def)
next
  case (reach_record d E h b d' r)
  then have inv: "dag_inv H d" by simp
  from record_step[OF inv reach_record(2,4)] reach_record.IH show ?case
    using record_inv[OF inv] agreement_record votes_only_fields(1) by fastforce
qed

lemma reach_inv: "dag_reach H cfg genesis d \<Longrightarrow> dag_inv H d"
  using reach_invariant by blast

text \<open>
  \<open>DAG::new\<close> on a genesis vertex without parents fails exactly if the early threshold
  exceeds the acceptance threshold; otherwise the graph is that vertex alone, accepted and not
  pending, and every other constraint is undecided.
\<close>

lemma dag_new_genesis:
  assumes "env_ok E" and "env_hash E = H" and "vx_parents g = []" and "vx_height g = 0"
  shows "if cfg_thresh_accepted cfg < cfg_thresh_safe_early_commit cfg
    then dag_new E cfg [g] = Some (Inl BadCfgThreshold)
    else \<exists>d. dag_new E cfg [g] = Some (Inr d) \<and> dag_inv H d \<and> dag_config d = cfg \<and>
      dag_graph d = fmupd (H g) g fmempty \<and> dag_pending_query d = fmempty \<and>
      decision_of d (unity (H g)) = Some True \<and>
      (\<forall>c. c \<noteq> unity (H g) \<longrightarrow> decision_of d c = None)"
proof (cases "cfg_thresh_accepted cfg < cfg_thresh_safe_early_commit cfg")
  case True
  then show ?thesis by (simp add: dag_new_def dag_config_check_def)
next
  case False
  have "H g |\<notin>| fmdom (dag_graph (empty_dag cfg))" by (simp add: empty_dag_def)
  with insert_initial_root[OF dag_inv_empty assms(1,2,3) this] assms(4)
  obtain d where d: "insert_initial E g (empty_dag cfg) = Some d" "dag_inv H d"
    "dag_config d = dag_config (empty_dag cfg)" "dag_graph d = fmupd (H g) g (dag_graph (empty_dag cfg))"
    "dag_pending_query d = fmdrop (H g) (dag_pending_query (empty_dag cfg))"
    "decision_of d (unity (H g)) = Some True"
    "\<And>c. c \<noteq> unity (H g) \<Longrightarrow>
      decision_of d c = (if tracked (empty_dag cfg) c then decision_of (empty_dag cfg) c else None)"
    by auto
  have "decision_of d c = None" if "c \<noteq> unity (H g)" for c
    using d(7)[OF that] by (simp add: empty_dag_def tracked_def state_of_def)
  moreover have "dag_new E cfg [g] = Some (Inr d)"
    using False d(1) by (simp add: dag_new_def dag_config_check_def)
  ultimately show ?thesis using False d(2-6) by (simp add: empty_dag_def)
qed

end
