(* ===== verification/Dag_Query.thy ===== *)
theory Dag_Query
  imports Dag_Reach "HOL-Library.Multiset"
begin

text \<open>
  The questions the graph answers: the status of a vertex, the preference of its constraints, and
  the frontier new vertices are built on.
\<close>

section \<open>The status of a vertex\<close>

text \<open>The assertion in \<open>query\<close> holds: only undecided constraints reach it.\<close>

lemma constraint_status_undecided:
  "tracked d c \<Longrightarrow> decision_of d c = None \<Longrightarrow> constraint_status d c = Some (preferred_of d c, False)"
  by (auto simp: constraint_status_def tracked_def decision_of_def preferred_of_def Let_def)

definition query_spec :: "env \<Rightarrow> dag \<Rightarrow> hash \<Rightarrow> dag_error + bool \<times> bool \<Rightarrow> bool" where
  "query_spec E d h r \<longleftrightarrow>
     (case fmlookup (dag_graph d) h of
        None \<Rightarrow> r = Inl (if h |\<in>| fmdom (dag_vertex d) then WaitingOnInsert else NotFound)
      | Some vx \<Rightarrow>
        (case decision_of d (unity h) of
           Some b \<Rightarrow> r = Inr (b, True)
         | None \<Rightarrow>
             if rejected_reach d vx then r = Inl RejectedAncestor
             else \<exists>cs. get_active_ancestor_constraints E d vx = Some (Inr cs) \<and>
               active_constraints_spec d vx (Inr cs) \<and>
               r = Inr (\<forall>c \<in> set cs. preferred_of d c, False)))"

lemma undecided_parents_known:
  assumes inv: "dag_inv H d" and v: "fmlookup (dag_graph d) h = Some vx"
    and un: "decision_of d (unity h) = None"
  shows "parents_known d vx"
    "\<not> (\<exists>p \<in> set (vx_parents vx). \<exists>q \<in> set (vx_parents vx). (p, q) \<in> (parent_rel d)\<^sup>+)"
proof -
  have "vx_parents vx \<noteq> []" using dag_invD(6)[OF inv] v un by (fastforce simp: roots_ok_def)
  then show "parents_known d vx"
    using graph_okD(3)[OF dag_invD(1)[OF inv] v] by (auto simp: parents_known_def intro: fmdomI)
  show "\<not> (\<exists>p \<in> set (vx_parents vx). \<exists>q \<in> set (vx_parents vx). (p, q) \<in> (parent_rel d)\<^sup>+)"
    using dag_invD(8)[OF inv] v unfolding antichain_ok_def parent_rel_graph by blast
qed

lemma query_walk:
  assumes inv: "dag_inv H d" and E: "env_ok E"
  shows "\<exists>r. query E d h = Some r \<and> query_spec E d h r"
proof (cases "fmlookup (dag_graph d) h")
  case None
  then show ?thesis by (simp add: query_def query_spec_def)
next
  case (Some vx)
  obtain cs where cs: "state_of d (unity h) = Some cs"
    "fmlookup (cs_decision cs) (unity h) = decision_of d (unity h)"
    by (rule node_state[OF inv Some])
  show ?thesis
  proof (cases "decision_of d (unity h)")
    case dec: (Some b)
    then show ?thesis using Some cs by (cases b) (simp_all add: query_def query_spec_def)
  next
    case None
    note known = undecided_parents_known[OF inv Some None]
    obtain r where r: "get_active_ancestor_constraints E d vx = Some r" "active_constraints_spec d vx r"
      using active_constraints_walk[OF inv E known(1)] by blast
    show ?thesis
    proof (cases r)
      case (Inl e)
      then have "e = RejectedAncestor" "rejected_reach d vx"
        using r(2) known(2) by (auto simp: active_constraints_spec_def)
      then show ?thesis using Some None cs r Inl by (simp add: query_def query_spec_def)
    next
      case (Inr ks)
      have "constraint_status d c = Some (preferred_of d c, False)" if "c \<in> set ks" for c
        using constraint_status_undecided active_constraints_tracked[OF inv r(2)[unfolded Inr] that Some]
          r(2) Inr that by (simp add: active_constraints_spec_def)
      then have "run_map (constraint_status d) ks = Some (map (\<lambda>c. (preferred_of d c, False)) ks)"
        by (rule run_map_total)
      then have "query E d h = Some (Inr (\<forall>c \<in> set ks. preferred_of d c, False))"
        using Some None cs r Inr by (simp add: query_def)
      then show ?thesis using Some None r Inr by (auto simp: query_spec_def active_constraints_spec_def)
    qed
  qed
qed

section \<open>The preference of the parents\<close>

lemma is_preferred_walk:
  assumes inv: "dag_inv H d"
  shows "is_preferred d h = Some
    (case fmlookup (dag_vertex d) h of
       None \<Rightarrow> Inl NotFound
     | Some vx \<Rightarrow>
       if h |\<in>| fmdom (dag_graph d)
       then Inr (\<forall>c \<in> set (parent_constraints vx). preferred_of d c) else Inl WaitingOnInsert)"
proof (cases "fmlookup (dag_graph d) h")
  case None
  then show ?thesis by (auto simp: is_preferred_def fmlookup_dom_iff split: option.split)
next
  case (Some vx)
  have "run_all (\<lambda>c. do { cs \<leftarrow> state_of d c; Some (cs_preferred cs = c) }) (parent_constraints vx) =
      Some (\<forall>c \<in> set (parent_constraints vx). preferred_of d c)"
  proof (rule run_all_total)
    fix c assume "c \<in> set (parent_constraints vx)"
    then have "tracked d c"
      using inv_tracked[OF inv] parent_constraint_in_constraints_in[OF Some] by blast
    then show "do { cs \<leftarrow> state_of d c; Some (cs_preferred cs = c) } = Some (preferred_of d c)"
      by (auto simp: tracked_def preferred_of_def)
  qed
  then show ?thesis using Some inv_vertex[OF inv Some] by (simp add: is_preferred_def fmdomI)
qed

section \<open>The frontier\<close>

definition strongly_preferred_in :: "env \<Rightarrow> dag \<Rightarrow> hash \<Rightarrow> bool" where
  "strongly_preferred_in E d h \<longleftrightarrow> (\<exists>f. query E d h = Some (Inr (True, f)))"

lemma strongly_preferred_total:
  assumes "dag_inv H d" "env_ok E"
  shows "strongly_preferred E d h = Some (strongly_preferred_in E d h)"
proof -
  obtain r where "query E d h = Some r" using query_walk[OF assms] by blast
  then show ?thesis
    by (auto simp: strongly_preferred_def strongly_preferred_in_def split: sum.split prod.split)
qed

lemma frontier_graph:
  assumes "dag_inv H d" "fmlookup (dag_frontier d) h = Some v"
  shows "fmlookup (dag_graph d) h = Some v" "H v = h"
    "fmlookup (dag_graph d) k = Some w \<Longrightarrow> h \<notin> set (vx_parents w)"
proof -
  show g: "fmlookup (dag_graph d) h = Some v"
    using assms(2) dag_invD(4)[OF assms(1)] by (simp add: frontier_ok_def)
  show "H v = h"
    using inv_vertex[OF assms(1) g] dag_invD(2)[OF assms(1)] by (simp add: maps_ok_def)
  show "fmlookup (dag_graph d) k = Some w \<Longrightarrow> h \<notin> set (vx_parents w)"
    using assms(2) dag_invD(4)[OF assms(1)] unfolding frontier_ok_def by blast
qed

lemma get_frontier_walk:
  assumes inv: "dag_inv H d" and E: "env_ok E"
  shows "\<exists>vxs. get_frontier E d = Some vxs \<and> sorted (map vx_timestamp vxs) \<and>
    distinct (map H vxs) \<and>
    (\<forall>v. v \<in> set vxs \<longleftrightarrow>
       fmlookup (dag_frontier d) (H v) = Some v \<and> strongly_preferred_in E d (H v))"
proof -
  let ?hs = "env_hashes E (fmdom (dag_frontier d))"
  let ?sp = "filter (strongly_preferred_in E d) ?hs"
  have hs: "set ?hs = fset (fmdom (dag_frontier d))" "distinct ?hs" using env_okD[OF E] by blast+
  define V where "V h = the (fmlookup (dag_frontier d) h)" for h
  have V: "fmlookup (dag_frontier d) h = Some (V h)" "H (V h) = h" if "h \<in> set ?sp" for h
  proof -
    have "h |\<in>| fmdom (dag_frontier d)" using that hs(1) by simp
    then show "fmlookup (dag_frontier d) h = Some (V h)" by (auto simp: V_def fmlookup_dom_iff)
    then show "H (V h) = h" by (rule frontier_graph(2)[OF inv])
  qed
  have "run_filter (strongly_preferred E d) ?hs = Some ?sp"
    by (rule run_filter_total) (rule strongly_preferred_total[OF inv E])
  moreover have "run_map (fmlookup (dag_frontier d)) ?sp = Some (map V ?sp)"
    by (rule run_map_total) (rule V(1))
  ultimately have res: "get_frontier E d = Some (sort_key vx_timestamp (map V ?sp))"
    by (simp add: get_frontier_def)
  have ids: "map H (map V ?sp) = ?sp"
    unfolding map_map by (rule map_idI) (simp only: comp_def V(2))
  have "distinct (map H (sort_key vx_timestamp (map V ?sp)))"
  proof -
    have "mset (map H (sort_key vx_timestamp (map V ?sp))) = mset (map H (map V ?sp))"
      by (simp only: mset_map mset_sort)
    then have "mset (map H (sort_key vx_timestamp (map V ?sp))) = mset ?sp" unfolding ids .
    moreover have "distinct ?sp" using hs(2) by simp
    ultimately show ?thesis using mset_eq_imp_distinct_iff by blast
  qed
  moreover have "v \<in> set (map V ?sp) \<longleftrightarrow>
      fmlookup (dag_frontier d) (H v) = Some v \<and> strongly_preferred_in E d (H v)" for v
  proof
    assume "v \<in> set (map V ?sp)"
    then obtain h where "h \<in> set ?sp" "v = V h" by auto
    with V[OF this(1)] show "fmlookup (dag_frontier d) (H v) = Some v \<and> strongly_preferred_in E d (H v)"
      by simp
  next
    assume v: "fmlookup (dag_frontier d) (H v) = Some v \<and> strongly_preferred_in E d (H v)"
    then have h: "H v \<in> set ?sp" using hs(1) by (auto intro: fmdomI)
    from V(1)[OF this] v have "v = V (H v)" by simp
    with h show "v \<in> set (map V ?sp)" by (metis imageI set_map)
  qed
  ultimately show ?thesis using res by simp
qed

text \<open>A strongly preferred vertex of the frontier has no rejected ancestor.\<close>

lemma strongly_preferred_clean:
  assumes inv: "dag_inv H d" and E: "env_ok E" and v: "fmlookup (dag_graph d) h = Some vx"
    and sp: "strongly_preferred_in E d h"
  shows "k \<in> undecided_reach d h \<Longrightarrow> decision_of d (unity k) \<noteq> Some False"
proof -
  assume k: "k \<in> undecided_reach d h"
  obtain f where q: "query E d h = Some (Inr (True, f))" using sp by (auto simp: strongly_preferred_in_def)
  obtain r where r: "query E d h = Some r" "query_spec E d h r" using query_walk[OF inv E] by blast
  then have spec: "query_spec E d h (Inr (True, f))" using q by simp
  show ?thesis
  proof (cases "decision_of d (unity h)")
    case (Some b)
    then have "b" using spec v by (simp add: query_spec_def)
    then show ?thesis using k Some undecided_reach_unfold[of d h] by simp
  next
    case None
    then have "\<not> rejected_reach d vx" using spec v by (auto simp: query_spec_def split: if_splits)
    then show ?thesis using k None parents_of_eq[OF v] undecided_reach_unfold[of d h]
      by (auto simp: rejected_reach_def)
  qed
qed

end
