(* ===== verification/Dag_Runs.thy ===== *)
theory Dag_Runs
  imports Dag_Query
begin

text \<open>
  Concrete runs of the graph, in the manner of \<open>src/tests/consensus.rs\<close>: a genesis vertex, two
  vertices above it, vertices that order those two in opposite ways. They show that the hypotheses
  of the general theorems can be met, and that some behaviours do occur.

  Vertices are told apart by their namespace label, which stands for the digest of the vertex.
\<close>

section \<open>Runs\<close>

datatype dag_op = Insert vertex | Record hash bool

fun run_op :: "env \<Rightarrow> dag_op \<Rightarrow> dag \<Rightarrow> dag option" where
  "run_op E (Insert vx) d = (if capacity d then do { (d', r) \<leftarrow> try_insert E vx d; Some d' } else None)"
| "run_op E (Record h b) d = do { (d', r) \<leftarrow> record_query_result E h b d; Some d' }"

definition run_ops :: "env \<Rightarrow> dag_config \<Rightarrow> vertex \<Rightarrow> dag_op list \<Rightarrow> dag option" where
  "run_ops E cfg genesis ops = do {
     r \<leftarrow> dag_new E cfg [genesis];
     (case r of Inl _ \<Rightarrow> None | Inr d \<Rightarrow> run_fold (run_op E) ops d) }"

lemma run_op_reach:
  assumes "env_ok E" "env_hash E = H" "dag_reach H cfg genesis d" "run_op E op d = Some d'"
  shows "dag_reach H cfg genesis d'"
proof (cases op)
  case (Insert vx)
  then obtain r where "try_insert E vx d = Some (d', r)" "capacity d"
    using assms(4) by (auto simp: bind_eq_Some_conv split: if_splits)
  with assms show ?thesis by (meson reach_insert)
next
  case (Record h b)
  then obtain r where "record_query_result E h b d = Some (d', r)"
    using assms(4) by (auto simp: bind_eq_Some_conv)
  with assms show ?thesis by (meson reach_record)
qed

lemma run_ops_reach:
  assumes "env_ok E" "env_hash E = H" "vx_parents genesis = []" "vx_height genesis = 0"
    and "run_ops E cfg genesis ops = Some d"
  shows "dag_reach H cfg genesis d"
proof -
  obtain d0 where d0: "dag_new E cfg [genesis] = Some (Inr d0)" "run_fold (run_op E) ops d0 = Some d"
  proof -
    obtain r where r: "dag_new E cfg [genesis] = Some r"
      "(case r of Inl _ \<Rightarrow> None | Inr d0 \<Rightarrow> run_fold (run_op E) ops d0) = Some d"
      using assms(5) by (auto simp: run_ops_def bind_eq_Some_conv)
    then show ?thesis using that by (cases r) auto
  qed
  have "dag_reach H cfg genesis d0" using reach_new[OF assms(1-4) d0(1)] .
  then show ?thesis
    using run_op_reach[OF assms(1,2)]
    by (rule run_fold_preserves[OF d0(2), where I = "dag_reach H cfg genesis"])
qed

section \<open>The vertices of the runs\<close>

definition test_env :: env where
  "test_env =
     \<lparr>env_hash = vx_namespace_id, env_hashes = sorted_list_of_fset, env_constraints = sorted_list_of_fset\<rparr>"

definition test_config :: "nat \<Rightarrow> nat \<Rightarrow> dag_config" where
  "test_config acc sec =
     \<lparr>cfg_genesis = byte_hash 0, cfg_thresh_accepted = acc, cfg_thresh_safe_early_commit = sec\<rparr>"

definition test_vertex :: "hash \<Rightarrow> u64 \<Rightarrow> hash list \<Rightarrow> vertex" where
  "test_vertex h n ps =
     \<lparr>vx_version = VERSION, vx_height = n, vx_parents = ps, vx_namespace_id = h,
      vx_root = default_hash, vx_timestamp = 0\<rparr>"

definition h0 :: hash where "h0 = byte_hash 0"
definition h1 :: hash where "h1 = byte_hash 1"
definition h2 :: hash where "h2 = byte_hash 2"
definition h3 :: hash where "h3 = byte_hash 3"
definition h4 :: hash where "h4 = byte_hash 4"
definition h5 :: hash where "h5 = byte_hash 5"

text \<open>
  \<open>v3\<close> puts \<open>v1\<close> before \<open>v2\<close>, \<open>v4\<close> the other way round, and
  \<open>v5\<close> builds on \<open>v4\<close>.
\<close>

definition v0 :: vertex where "v0 = test_vertex h0 0 []"
definition v1 :: vertex where "v1 = test_vertex h1 1 [h0]"
definition v2 :: vertex where "v2 = test_vertex h2 1 [h0]"
definition v3 :: vertex where "v3 = test_vertex h3 2 [h1, h2]"
definition v4 :: vertex where "v4 = test_vertex h4 2 [h2, h1]"
definition v5 :: vertex where "v5 = test_vertex h5 3 [h4]"

lemma sorted_fset_iterates:
  "distinct (sorted_list_of_fset S)" "fset_of_list (sorted_list_of_fset S) = S"
proof -
  show "distinct (sorted_list_of_fset S)" by (simp add: sorted_list_of_fset.rep_eq)
  have "fset (fset_of_list (sorted_list_of_fset S)) = fset S"
    by (simp add: fset_of_list.rep_eq sorted_list_of_fset.rep_eq)
  then show "fset_of_list (sorted_list_of_fset S) = S" by (simp add: fset_inject)
qed

lemma test_env_ok: "env_ok test_env"
  by (simp add: env_ok_def test_env_def sorted_fset_iterates)

lemma test_env_hash: "env_hash test_env = vx_namespace_id"
  by (simp add: test_env_def)

lemma v0_root: "vx_parents v0 = []" "vx_height v0 = 0"
  by (simp_all add: v0_def test_vertex_def)

text \<open>A state of a run of these vertices is reachable.\<close>

lemma test_reach:
  "run_ops test_env cfg v0 ops = Some d \<Longrightarrow> dag_reach vx_namespace_id cfg v0 d"
  by (rule run_ops_reach[OF test_env_ok test_env_hash v0_root])

section \<open>Evaluation\<close>

lemma default_hash_h0: "default_hash = h0"
proof -
  have "replicate HASH_LEN (0 :: u8) = replicate 31 0 @ [0]"
    using replicate_append_same[of 31 "0 :: u8"] by (simp add: HASH_LEN_def numeral_eq_Suc)
  then show ?thesis by (simp add: default_hash_def h0_def byte_hash_def)
qed

lemma hashes_less:
  "h0 < h1" "h0 < h2" "h0 < h3" "h0 < h4" "h0 < h5" "h1 < h2" "h1 < h3" "h1 < h4" "h1 < h5"
  "h2 < h3" "h2 < h4" "h2 < h5" "h3 < h4" "h3 < h5" "h4 < h5"
  by (simp_all add: h0_def h1_def h2_def h3_def h4_def h5_def)

lemmas hash_simps = hashes_less hashes_less[THEN less_imp_neq]
  hashes_less[THEN less_imp_neq, symmetric] hashes_less[THEN less_not_sym]

text \<open>A sorted list without repetitions, built one element at a time.\<close>

fun set_insort :: "'a :: linorder \<Rightarrow> 'a list \<Rightarrow> 'a list" where
  "set_insort x [] = [x]"
| "set_insort x (y # ys) = (if x = y then y # ys else if x < y then x # y # ys else y # set_insort x ys)"

lemma set_insort_insort:
  "sorted xs \<Longrightarrow> set_insort x xs = (if x \<in> set xs then xs else insort x xs)"
  by (induction xs) (auto simp: less_le)

lemma sorted_fset_eval:
  "sorted_list_of_fset {||} = []"
  "sorted_list_of_fset (finsert x A) = set_insort x (sorted_list_of_fset A)"
  by (simp add: sorted_list_of_fset.rep_eq)
    (cases "x |\<in>| A"; simp add: set_insort_insort sorted_list_of_fset.rep_eq finsert_absorb)

lemma ffilter_eval:
  "ffilter P {||} = {||}"
  "ffilter P (finsert x A) = (if P x then finsert x (ffilter P A) else ffilter P A)"
  by auto

lemma fcard_eval:
  "fcard {||} = 0" "fcard (finsert x A) = (if x |\<in>| A then fcard A else Suc (fcard A))"
  by (simp add: fcard.rep_eq) (auto simp: finsert_absorb fcard_finsert_disjoint)

lemma funion_eval:
  "finsert x A |\<union>| B = (if x |\<in>| B then A |\<union>| B else finsert x (A |\<union>| B))"
  by (auto simp: finsert_absorb)

lemma constraint_le_eval:
  "Constraint a b \<le> Constraint c d \<longleftrightarrow> a < c \<or> a = c \<and> (b < d \<or> b = d)"
  by (auto simp: less_eq_constraint_def)

lemma constraint_less_eval:
  "Constraint a b < Constraint c d \<longleftrightarrow> a < c \<or> a = c \<and> b < d"
  by (auto simp: less_constraint_def)

text \<open>Finite maps are kept as association lists without duplicate keys.\<close>

lemma fmap_eval:
  "fmempty = fmap_of_list []"
  "fmupd k v (fmap_of_list xs) = fmap_of_list (AList.update k v xs)"
  "fmdrop k (fmap_of_list xs) = fmap_of_list (AList.delete k xs)"
  "fmlookup (fmap_of_list xs) k = map_of xs k"
  "fmdom (fmap_of_list []) = {||}"
  "fmdom (fmap_of_list ((k, v) # xs)) = finsert k (fmdom (fmap_of_list xs))"
  by (rule fmap_ext; simp add: fmlookup_of_list update_conv' delete_conv')+
    (simp_all add: fmlookup_of_list)

text \<open>Continuations are looked at only once their input is known.\<close>

lemma step_cong:
  "m = m' \<Longrightarrow> Option.bind m f = Option.bind m' f" "r = r' \<Longrightarrow> try_bind r g = try_bind r' g"
  "xs = ys \<Longrightarrow> s = s' \<Longrightarrow> run_fold b xs s = run_fold b ys s'" "xs = ys \<Longrightarrow> run_map j xs = run_map j ys"
  "xs = ys \<Longrightarrow> run_filter p xs = run_filter p ys" "xs = ys \<Longrightarrow> run_any p xs = run_any p ys"
  "xs = ys \<Longrightarrow> run_all p xs = run_all p ys" "xs = ys \<Longrightarrow> try_map q xs = try_map q ys"
  "x = x' \<Longrightarrow> Let x k = Let x' k" "xs = ys \<Longrightarrow> filter l xs = filter l ys"
  by simp_all

text \<open>
  Evaluation in which the state is a value: the simplifier does not go into it again for every field
  that is read.
\<close>

lemma value_cong:
  "dag_config d = dag_config d" "dag_vertex d = dag_vertex d" "dag_graph d = dag_graph d"
  "dag_pending_query d = dag_pending_query d" "dag_children d = dag_children d"
  "dag_state d = dag_state d" "dag_frontier d = dag_frontier d"
  "cs_preferred cs = cs_preferred cs" "cs_last cs = cs_last cs" "cs_chit cs = cs_chit cs"
  "cs_confidence cs = cs_confidence cs" "cs_count cs = cs_count cs" "cs_parents cs = cs_parents cs"
  "cs_children cs = cs_children cs" "cs_decision cs = cs_decision cs"
  by (rule refl)+

lemma state_cong:
  "vx = vx' \<Longrightarrow> try_insert E vx d = try_insert E vx' d"
  "vx = vx' \<Longrightarrow> check_vertex E d vx = check_vertex E d vx'"
  "vx = vx' \<Longrightarrow> insert_vertex E vx d = insert_vertex E vx' d"
  "vx = vx' \<Longrightarrow> get_active_ancestors E d vx = get_active_ancestors E d vx'"
  "vx = vx' \<Longrightarrow> get_active_ancestor_constraints E d vx = get_active_ancestor_constraints E d vx'"
  "c = c' \<Longrightarrow> insert_constraint E c d = insert_constraint E c' d"
  "c = c' \<Longrightarrow> add_constraint_child e c d = add_constraint_child e c' d"
  "c = c' \<Longrightarrow> update_state c u d = update_state c' u d"
  "c = c' \<Longrightarrow> state_of d c = state_of d c'"
  "h = h' \<Longrightarrow> query E d h = query E d h'"
  "h = h' \<Longrightarrow> record_query_result E h b d = record_query_result E h' b d"
  "n = n' \<Longrightarrow> h = h' \<Longrightarrow> decided_height n d h = decided_height n' d h'"
  "n = n' \<Longrightarrow> h = h' \<Longrightarrow> t = t' \<Longrightarrow> gather_ancestors n d h t = gather_ancestors n' d h' t'"
  "hs = hs' \<Longrightarrow> sort_by_height d hs = sort_by_height d hs'"
  "h = h' \<Longrightarrow> undecided_vertex d h = undecided_vertex d h'"
  "c = c' \<Longrightarrow> undecided d c = undecided d c'"
  "c = c' \<Longrightarrow> constraint_parents d c = constraint_parents d c'"
  "depth_bound d = depth_bound d"
  by simp_all

lemmas eval_cong = step_cong value_cong state_cong

lemmas run_eval = hash_simps test_env_def test_config_def test_vertex_def sorted_fset_eval fcard_eval
  constraint_le_eval constraint_less_eval funion_eval eval_simps run_simps fmap_eval
  v0_def v1_def v2_def v3_def v4_def v5_def
  run_ops_def capacity_def update_state_def state_of_def Let_def dag_new_def empty_dag_def
  dag_config_check_def insert_initial_def insert_vertex_def insert_constraint_def
  constraint_parents_def parent_constraints_def constraints_of_def add_constraint_child_def
  is_rejected_def is_accepted_def accept_initial_def map_child_def map_child_of_def
  map_try_insert_def conflict_set_new_def conflict_def depth_bound_def VERSION_def try_insert_def
  check_vertex_def sanity_checks_def get_active_ancestor_constraints_def get_active_ancestors_def
  sort_by_height_def undecided_vertex_def undecided_def get_known_children_def
  record_query_result_def award_chit_def reset_count_def vote_for_def accept_constraint_def
  decision_reached_def count_vote_def has_conflict_def opposite_confidence_def confidence_of_def
  query_def decision_of_def constraint_status_def

section \<open>Two vertices that disagree\<close>

definition dispute :: "dag_op list" where
  "dispute = [Insert v1, Insert v2, Insert v3, Insert v4, Insert v5]"

definition one :: dag_config where
  "one = test_config 1 1"

lemma dispute_run:
  "do { d \<leftarrow> run_ops test_env one v0 dispute;
        Some (fmlookup (dag_pending_query d) h5 = Some v5 \<and> capacity d \<and>
            record_query_result test_env h5 False d \<noteq> None,
          map (\<lambda>h. decision_of d (unity h)) [h0, h1, h2, h3, h4, h5]) } =
    Some (True, [Some True, None, None, None, None, None])"
  by (simp add: run_eval dispute_def one_def del: fmap_of_list_simps fmupd_lookup cong: eval_cong)

lemma settled_run:
  "do { d \<leftarrow> run_ops test_env one v0 (dispute @ [Record h3 True]);
        Some (map (\<lambda>h. decision_of d (unity h)) [h0, h1, h2, h3, h4, h5],
          decision_of d (Constraint h1 h2), decision_of d (Constraint h2 h1),
          record_query_result test_env h5 True d = None) } =
    Some ([Some True, Some True, Some True, Some True, Some False, Some False],
      Some True, Some False, True)"
  by (simp add: run_eval dispute_def one_def del: fmap_of_list_simps fmupd_lookup cong: eval_cong)

lemma overturned_run:
  "do { d \<leftarrow> run_ops test_env one v0 (dispute @ [Record h3 True]);
        (d', r) \<leftarrow> record_query_result test_env h4 True d;
        Some (fmlookup (dag_pending_query d) h4, decision_of d (unity h4), query test_env d h4, r,
          map (query test_env d') [h3, h4], map (fmlookup (dag_graph d')) [h3, h4],
          decision_of d' (Constraint h2 h1)) } =
    Some (Some v4, Some False, Some (Inr (False, True)), Inr (),
      [Some (Inr (True, True)), Some (Inr (True, True))], [Some v3, Some v4], Some False)"
  by (simp add: run_eval dispute_def one_def del: fmap_of_list_simps fmupd_lookup cong: eval_cong)

end
