(* ===== verification/Dag_Progress.thy ===== *)
theory Dag_Progress
  imports Dag_Reach
begin

text \<open>
  Progress of the vote: enough supporting results decide a vertex. A positive result supports a
  vertex if it is for the vertex itself or for one that builds on it through undecided vertices. The
  results of other vertices, insertions and retries may come in between; only a negative result for a
  vertex of its progeny, or for itself, sets the vertex back.
\<close>

section \<open>Supporting and opposing results\<close>

text \<open>
  The results for the vertex \<open>g\<close> that count for \<open>h\<close>, and those that may reset its counter.
  What lies between is not counted on: whether the walk over the ancestors passes a decided vertex
  there depends on the other paths it takes.
\<close>

definition counts_for :: "dag \<Rightarrow> hash \<Rightarrow> vertex \<Rightarrow> hash \<Rightarrow> bool" where
  "counts_for d g vx h \<longleftrightarrow>
     g = h \<or> ancestor_constraint d (\<lambda>p k. k \<in> undecided_reach d p) vx (unity h)"

definition touches :: "dag \<Rightarrow> hash \<Rightarrow> vertex \<Rightarrow> hash \<Rightarrow> bool" where
  "touches d g vx h \<longleftrightarrow>
     g = h \<or> ancestor_constraint d (\<lambda>p k. (k, p) \<in> (parent_rel d)\<^sup>*) vx (unity h)"

text \<open>A run with \<open>n\<close> supporting results, and no opposing one, for \<open>h\<close>.\<close>

inductive supported :: "(vertex \<Rightarrow> hash) \<Rightarrow> hash \<Rightarrow> dag \<Rightarrow> nat \<Rightarrow> dag \<Rightarrow> bool"
  for H :: "vertex \<Rightarrow> hash" and h :: hash and d0 :: dag where
  supported_start: "supported H h d0 0 d0"
| supported_vote: "supported H h d0 n d \<Longrightarrow> env_ok E \<Longrightarrow> env_hash E = H \<Longrightarrow>
    fmlookup (dag_pending_query d) g = Some vx \<Longrightarrow> counts_for d g vx h \<Longrightarrow>
    record_query_result E g True d = Some (d', r) \<Longrightarrow> supported H h d0 (Suc n) d'"
| supported_other: "supported H h d0 n d \<Longrightarrow> env_ok E \<Longrightarrow> env_hash E = H \<Longrightarrow>
    b \<or> (\<forall>vx. fmlookup (dag_pending_query d) g = Some vx \<longrightarrow> \<not> touches d g vx h) \<Longrightarrow>
    record_query_result E g b d = Some (d', r) \<Longrightarrow> supported H h d0 n d'"
| supported_insert: "supported H h d0 n d \<Longrightarrow> env_ok E \<Longrightarrow> env_hash E = H \<Longrightarrow> capacity d \<Longrightarrow>
    try_insert E vx d = Some (d', r) \<Longrightarrow> supported H h d0 n d'"
| supported_retry: "supported H h d0 n d \<Longrightarrow> env_ok E \<Longrightarrow> env_hash E = H \<Longrightarrow> capacity d \<Longrightarrow>
    retry_pending E hs d = Some (d', r') \<Longrightarrow> supported H h d0 n d'"

lemma supported_reach:
  "supported H h d n d' \<Longrightarrow> dag_reach H cfg genesis d \<Longrightarrow> dag_reach H cfg genesis d'"
  by (induction rule: supported.induct)
     (auto intro: reach_record reach_insert reach_retry)

section \<open>The stage of a vote\<close>

text \<open>Decided, or still counting with at least \<open>n\<close> votes and below the threshold.\<close>

definition stage :: "hash \<Rightarrow> nat \<Rightarrow> dag \<Rightarrow> bool" where
  "stage h n d \<longleftrightarrow>
     decision_of d (unity h) \<noteq> None \<or>
     n \<le> count_of d (unity h) \<and> (n = 0 \<or> n < cfg_thresh_accepted (dag_config d))"

lemma stage_0 [simp, intro]: "stage h 0 d"
  by (simp add: stage_def)

lemma stage_decided: "stage h n d \<Longrightarrow> 0 < n \<Longrightarrow> cfg_thresh_accepted (dag_config d) \<le> n \<Longrightarrow>
    decision_of d (unity h) \<noteq> None"
  by (auto simp: stage_def)

lemma stage_cong:
  assumes "stage h n d" "dag_config d' = dag_config d"
    and "decision_of d' (unity h) = decision_of d (unity h)" "count_of d' (unity h) = count_of d (unity h)"
  shows "stage h n d'"
  using assms by (simp add: stage_def)

text \<open>A vertex has no rival, so its own constraint is always the last voted for in its set.\<close>

lemma last_of_unity:
  assumes "states_wf d" "tracked d (unity h)"
  shows "last_of d (unity h)"
proof -
  obtain cs where cs: "state_of d (unity h) = Some cs" using assms(2) by (rule trackedE)
  then have "cs_last cs |\<in>| pair_of (unity h)"
    using states_wfD[OF assms(1)] by (simp add: conflict_set_wf_def del: pair_of_iff)
  then show ?thesis using cs by (simp add: last_of_def)
qed

lemma stage_vote:
  assumes "states_wf d" "tracked d (unity h)" "vote_effect d c d'" "stage h n d"
  shows "stage h (if c = unity h then Suc n else n) d'"
proof -
  have v: "votes_only d d'" and cnt: "\<And>x. count_of d' x = (if x = c then next_count d c else count_of d x)"
    and acc: "accepts d c \<Longrightarrow> decision_of d' c = Some True"
    using assms(3) by (simp_all add: vote_effect_def)
  have last: "next_count d (unity h) = Suc (count_of d (unity h))"
    using last_of_unity[OF assms(1,2)] by (simp add: next_count_def)
  show ?thesis
  proof (cases "decision_of d (unity h) \<noteq> None \<or> c = unity h \<and> accepts d c")
    case True
    then show ?thesis using votes_only_decided[OF v, of "unity h"] acc by (auto simp: stage_def)
  next
    case False
    then have "c = unity h \<Longrightarrow> \<not> cfg_thresh_accepted (dag_config d) \<le> next_count d c"
      by (simp add: accepts_def)
    then show ?thesis
      using False assms(4) last cnt[of "unity h"] votes_only_fields(1)[OF v] by (auto simp: stage_def)
  qed
qed

lemma stage_voted:
  "voted d cs d' \<Longrightarrow> states_wf d \<Longrightarrow> tracked d (unity h) \<Longrightarrow> stage h n d \<Longrightarrow>
     stage h (n + count_list cs (unity h)) d'"
proof (induction arbitrary: n rule: voted.induct)
  case (voted_Cons d c e cs f)
  have v: "votes_only d e" using voted_Cons(1) by (simp add: vote_effect_def)
  from voted_Cons.IH[OF votes_only_wf[OF v voted_Cons.prems(1)] _
      stage_vote[OF voted_Cons.prems(1,2) voted_Cons(1) voted_Cons.prems(3)]]
  show ?case using votes_only_tracked[OF v] voted_Cons.prems(2) by (auto split: if_splits)
qed simp

lemma stage_weaken: "stage h n d \<Longrightarrow> m \<le> n \<Longrightarrow> stage h m d"
  by (auto simp: stage_def)

section \<open>One step\<close>

lemma ancestor_constraint_cong:
  assumes "dag_graph d' = dag_graph d" "decision_of d' = decision_of d"
  shows "undecided_reach d' = undecided_reach d" "parent_rel d' = parent_rel d"
    "ancestor_constraint d' = ancestor_constraint d"
  using assms
  by (simp_all add: undecided_reach_def undecided_rel_def parents_of_def parent_rel_graph
      ancestor_constraint_def fun_eq_iff)

text \<open>
  The votes of one result: those that count for the vertex are among them while it is undecided,
  and those that do not touch it are not.
\<close>

lemma record_votes:
  assumes "record_effect E g vx b d d'"
  obtains d1 cs where "votes_only (without_pending g d) d1"
    and "\<And>x. decision_of d1 x = decision_of d x" "\<And>x. count_of d1 x = count_of d x"
    and "if b then voted d1 cs d' else reset_effect (set cs) d1 d'"
    and "counts_for d g vx h \<Longrightarrow> decision_of d (unity h) = None \<Longrightarrow> unity h \<in> set cs"
    and "unity h \<in> set cs \<Longrightarrow> touches d g vx h"
proof -
  obtain d1 cs where v: "votes_only (without_pending g d) d1"
    and d1: "\<And>x. decision_of d1 x = decision_of d x \<and> count_of d1 x = count_of d x \<and>
        preferred_of d1 x = preferred_of d x"
    and spec: "active_constraints_spec d1 vx (Inr cs)"
    and eff: "if b then voted d1 (cs @ [unity g]) d' else reset_effect (set (cs @ [unity g])) d1 d'"
    using assms unfolding record_effect_def by metis
  have "dag_graph d1 = dag_graph d" "decision_of d1 = decision_of d"
    using votes_only_fields(3)[OF v] d1 by auto
  note cong = ancestor_constraint_cong[OF this]
  show ?thesis
  proof (rule that[OF v _ _ eff])
    show "counts_for d g vx h \<Longrightarrow> decision_of d (unity h) = None \<Longrightarrow> unity h \<in> set (cs @ [unity g])"
      using spec d1 by (auto simp: active_constraints_spec_def counts_for_def cong)
    show "unity h \<in> set (cs @ [unity g]) \<Longrightarrow> touches d g vx h"
      using spec by (auto simp: active_constraints_spec_def touches_def cong)
  qed (use d1 in auto)
qed

lemma stage_record:
  assumes inv: "dag_inv H d" and tr: "tracked d (unity h)" and st: "stage h n d"
    and eff: "record_effect E g vx b d d'"
  shows "b \<Longrightarrow> counts_for d g vx h \<Longrightarrow> stage h (Suc n) d'"
    and "b \<or> \<not> touches d g vx h \<Longrightarrow> stage h n d'"
proof -
  obtain d1 cs where v: "votes_only (without_pending g d) d1"
    and d1: "\<And>x. decision_of d1 x = decision_of d x" "\<And>x. count_of d1 x = count_of d x"
    and d': "if b then voted d1 cs d' else reset_effect (set cs) d1 d'"
    and cs: "counts_for d g vx h \<Longrightarrow> decision_of d (unity h) = None \<Longrightarrow> unity h \<in> set cs"
      "unity h \<in> set cs \<Longrightarrow> touches d g vx h"
    using record_votes[OF eff, of h] by metis
  have wf: "states_wf d1" using dag_inv_votes[OF without_pending_inv[OF inv] v] by (rule dag_invD(7))
  have tr1: "tracked d1 (unity h)" using tr votes_only_tracked[OF v] by simp
  have st1: "stage h n d1" using st d1 votes_only_fields(1)[OF v] by (intro stage_cong[OF st]) simp_all
  have pos: "stage h (n + count_list cs (unity h)) d'" if b
    using stage_voted[OF _ wf tr1 st1] d' that by simp
  show "stage h (Suc n) d'" if b "counts_for d g vx h"
  proof (cases "decision_of d (unity h)")
    case None
    then have "count_list cs (unity h) \<noteq> 0" using cs(1)[OF that(2)] by (simp add: count_list_0_iff)
    then show ?thesis by (intro stage_weaken[OF pos[OF that(1)]]) simp
  next
    case (Some x)
    then have "decision_of d' (unity h) \<noteq> None"
      using votes_only_decided[OF voted_votes_only, of d1 cs d' "unity h"] d1(1) d' that(1) by auto
    then show ?thesis by (simp add: stage_def)
  qed
  show "stage h n d'" if "b \<or> \<not> touches d g vx h"
  proof (cases b)
    case True
    then show ?thesis using pos by (auto intro: stage_weaken)
  next
    case False
    then have r: "reset_effect (set cs) d1 d'" and "unity h \<notin> set cs" using d' cs(2) that by auto
    then show ?thesis
      by (intro stage_cong[OF st1]) (auto simp: reset_effect_def votes_only_fields)
  qed
qed

lemma graph_tracked: "dag_inv H d \<Longrightarrow> h |\<in>| fmdom (dag_graph d) \<Longrightarrow> tracked d (unity h)"
  using inv_tracked unity_in_constraints_in by (metis fmlookup_dom_iff)

lemma stage_extends:
  assumes "extends d d'" "tracked d (unity h)" "stage h n d"
  shows "stage h n d'"
  using assms state_grows_accessors[of d d' "unity h"]
  by (intro stage_cong[OF assms(3)]) (simp_all add: extends_def)

section \<open>Supported runs\<close>

text \<open>Recording the result for a vertex that is not pending changes nothing.\<close>

lemma record_step_cases:
  assumes inv: "dag_inv H d" and E: "env_ok E" and r: "record_query_result E g b d = Some (d', r)"
  obtains "d' = d" "fmlookup (dag_pending_query d) g = None"
    | vx where "fmlookup (dag_pending_query d) g = Some vx" "record_effect E g vx b d d'"
        "dag_graph d' = dag_graph d"
proof (cases "fmlookup (dag_pending_query d) g")
  case None
  then show ?thesis using record_not_pending[OF None] r that(1) by simp
next
  case (Some vx)
  from record_walk[OF inv E Some, of b] r show ?thesis
    using that(2)[OF Some] by (auto split: if_splits dest: votes_only_fields(3))
qed

lemma supported_stage:
  assumes "supported H h d0 n d" and "dag_reach H cfg genesis d0" and "h |\<in>| fmdom (dag_graph d0)"
  shows "h |\<in>| fmdom (dag_graph d) \<and> stage h n d"
  using assms(1)
proof (induction rule: supported.induct)
  case supported_start
  then show ?case using assms(3) by simp
next
  case (supported_vote n d E g vx d' r)
  note inv = reach_inv[OF supported_reach[OF supported_vote(1) assms(2)]]
  from record_step_cases[OF inv supported_vote(2,6)] supported_vote(4)
  have "record_effect E g vx True d d'" "dag_graph d' = dag_graph d" by (metis option.distinct(1) option.inject)+
  then show ?case
    using stage_record(1)[OF inv graph_tracked[OF inv] _ _ _ supported_vote(5)] supported_vote.IH by auto
next
  case (supported_other n d E b g d' r)
  note inv = reach_inv[OF supported_reach[OF supported_other(1) assms(2)]]
  from record_step_cases[OF inv supported_other(2,5)] show ?case
  proof cases
    case (2 vx)
    then show ?thesis
      using stage_record(2)[OF inv graph_tracked[OF inv]] supported_other(4) supported_other.IH by auto
  qed (use supported_other.IH in simp)
next
  case (supported_insert n d E vx d' r)
  note inv = reach_inv[OF supported_reach[OF supported_insert(1) assms(2)]]
  from try_insert_walk[OF inv supported_insert(2,3,4), of vx] supported_insert(5)
  have "extends d d'" using try_insert_extends[OF inv, of E vx "(d', r)"] by auto
  then show ?case
    using stage_extends graph_tracked[OF inv] supported_insert.IH extends_graph by blast
next
  case (supported_retry n d E hs d' r')
  note inv = reach_inv[OF supported_reach[OF supported_retry(1) assms(2)]]
  from retry_pending_walk[OF supported_retry(2,3) inv supported_retry(4), of hs] supported_retry(5)
  have "extends d d'" by auto
  then show ?case
    using stage_extends graph_tracked[OF inv] supported_retry.IH extends_graph by blast
qed

section \<open>Overturned rejections\<close>

lemma voted_snoc:
  "voted d (cs @ [c]) f \<Longrightarrow> \<exists>e. voted d cs e \<and> vote_effect e c f"
proof (induction cs arbitrary: d)
  case Nil
  then show ?case by (auto elim!: voted_ConsE voted_NilE intro: voted_Nil)
next
  case (Cons a cs)
  then obtain e where e: "vote_effect d a e" "voted e (cs @ [c]) f" by (auto elim: voted_ConsE)
  with Cons.IH[OF e(2)] show ?case by (auto intro: voted_Cons)
qed

text \<open>The vote for a vertex's own constraint does not look at a decision that was taken before.\<close>

lemma positive_result_accepts:
  assumes inv: "dag_inv H d" and p: "fmlookup (dag_pending_query d) h = Some vx"
    and eff: "record_effect E h vx True d d'" and dec: "decision_of d (unity h) \<noteq> None"
    and thr: "cfg_thresh_accepted (dag_config d) \<le> Suc (count_of d (unity h))"
  shows "decision_of d' (unity h) = Some True"
proof -
  obtain d1 cs where v: "votes_only (without_pending h d) d1"
    and d1: "\<And>x. decision_of d1 x = decision_of d x" "\<And>x. count_of d1 x = count_of d x"
    and spec: "active_constraints_spec d1 vx (Inr cs)" and voted: "voted d1 (cs @ [unity h]) d'"
    using eff unfolding record_effect_def by (simp only: if_True) metis
  have inv1: "dag_inv H d1" by (rule dag_inv_votes[OF without_pending_inv[OF inv] v])
  obtain e where e: "voted d1 cs e" "vote_effect e (unity h) d'" using voted_snoc[OF voted] by blast
  note ve = voted_votes_only[OF e(1)]
  have "\<forall>c \<in> set cs. decision_of d1 c = None" using spec by (simp add: active_constraints_spec_def)
  then have "unity h \<notin> set cs" using dec d1(1) by auto
  then have cnt: "count_of e (unity h) = count_of d (unity h)"
    using voted_count_other[OF e(1)] d1(2) by simp
  have "tracked e (unity h)"
    using pending_known(2)[OF inv p] votes_only_tracked[OF v] votes_only_tracked[OF ve] by simp
  from last_of_unity[OF votes_only_wf[OF ve dag_invD(7)[OF inv1]] this]
  have "next_count e (unity h) = Suc (count_of d (unity h))" by (simp add: next_count_def cnt)
  moreover have "dag_config e = dag_config d"
    using votes_only_fields(1)[OF v] votes_only_fields(1)[OF ve] by simp
  ultimately have "accepts e (unity h)" using thr by (simp add: accepts_def)
  then show ?thesis using e(2) by (simp add: vote_effect_def)
qed

end
