(* ===== verification/Consensus_Props.thy ===== *)
theory Consensus_Props
  imports Dag_Runs Dag_Progress
begin

text \<open>
  The properties of the consensus graph. Each is stated for every reachable state; its witness is
  a state of a concrete run.
\<close>

section \<open>The states of the witnesses\<close>

definition disputed :: dag where
  "disputed = the (run_ops test_env one v0 dispute)"

definition settled :: dag where
  "settled = the (run_ops test_env one v0 (dispute @ [Record h3 True]))"

lemma disputed_facts:
  "dag_reach vx_namespace_id one v0 disputed" "capacity disputed"
  "fmlookup (dag_pending_query disputed) h5 = Some v5"
  "record_query_result test_env h5 False disputed \<noteq> None"
proof -
  obtain d where d: "run_ops test_env one v0 dispute = Some d"
    "fmlookup (dag_pending_query d) h5 = Some v5" "capacity d"
    "record_query_result test_env h5 False d \<noteq> None"
    using dispute_run by (auto simp: bind_eq_Some_conv)
  then have "disputed = d" by (simp add: disputed_def)
  with d test_reach[OF d(1)] show "dag_reach vx_namespace_id one v0 disputed" "capacity disputed"
    "fmlookup (dag_pending_query disputed) h5 = Some v5"
    "record_query_result test_env h5 False disputed \<noteq> None" by simp_all
qed

lemma settled_facts:
  "dag_reach vx_namespace_id one v0 settled"
  "decision_of settled (Constraint h1 h2) = Some True"
  "decision_of settled (unity h1) = Some True"
  "decision_of settled (unity h5) = Some False"
  "record_query_result test_env h5 True settled = None"
proof -
  obtain d where d: "run_ops test_env one v0 (dispute @ [Record h3 True]) = Some d"
    "decision_of d (Constraint h1 h2) = Some True" "decision_of d (unity h1) = Some True"
    "decision_of d (unity h5) = Some False" "record_query_result test_env h5 True d = None"
    using settled_run by (auto simp: bind_eq_Some_conv)
  then have "settled = d" by (simp add: settled_def)
  with d test_reach[OF d(1)] show "dag_reach vx_namespace_id one v0 settled"
    "decision_of settled (Constraint h1 h2) = Some True" "decision_of settled (unity h1) = Some True"
    "decision_of settled (unity h5) = Some False"
    "record_query_result test_env h5 True settled = None" by simp_all
qed

lemma try_insert_outcome_error:
  assumes "try_insert_outcome E vx d (d', Inl e)"
  shows "d' = d \<or> (\<exists>ps. e = MissingParents ps \<or> e = WaitingOnParents ps) \<and>
    d' = registered (env_hash E vx) vx d"
  using assms unfolding try_insert_outcome_def fst_conv snd_conv
  apply (elim exE conjE)
  subgoal for r
    apply (cases r)
    subgoal for e' by (cases e') auto
    subgoal by auto
    done
  done

lemma disputed_inv: "dag_inv vx_namespace_id disputed"
  by (rule reach_inv[OF disputed_facts(1)])

lemma hashes_ne: "h1 \<noteq> h2" "h2 \<noteq> h1"
  by (simp_all add: hash_simps)

lemma disputed_graph: "fmlookup (dag_graph disputed) h5 = Some v5"
  by (rule inv_pending(1)[OF disputed_inv disputed_facts(3)])

lemma v5_parents: "vx_parents v5 = [h4]"
  by (simp add: v5_def test_vertex_def)

lemma disputed_known: "parents_known disputed v5"
  by (rule pending_known(1)[OF disputed_inv disputed_facts(3)])

lemma disputed_tracked: "tracked disputed (unity h5)"
  by (rule pending_known(2)[OF disputed_inv disputed_facts(3)])

lemma disputed_not_rejected: "\<not> rejected_reach disputed v5"
  using record_walk[OF disputed_inv test_env_ok disputed_facts(3), of False] disputed_facts(4) by auto

section \<open>Reachable states\<close>

text \<open>
  C3: Every state the graph can reach from its creation by insertions, retries and recorded
  results, in any order and with any iteration order of the hash maps, satisfies the invariant:
  the maps agree, heights grow from parent to child, no parent of a vertex descends from another,
  the frontier is the set of vertices without children, and the conflict sets hold exactly the
  constraints the vertices commit to with exactly the edges of the constraint graph.
\<close>

theorem reachable_invariant:
  assumes "dag_reach H cfg genesis d"
  shows "dag_inv H d"
  using reach_invariant[OF assms] by blast

theorem reachable_invariant_witness: "dag_inv vx_namespace_id settled"
  by (rule reachable_invariant[OF settled_facts(1)])

text \<open>
  C1: Agreement. In a reachable state no pair of vertices is ordered both ways: where a constraint
  between two vertices is accepted, its opposite has been rejected.
\<close>

theorem one_ordering_accepted:
  assumes "dag_reach H cfg genesis d" and "decision_of d c = Some True" and "\<not> is_unity c"
  shows "decision_of d (opposite c) = Some False"
  using reach_invariant[OF assms(1)] assms(2,3) by (simp add: agreement_def)

theorem one_ordering_accepted_witness: "decision_of settled (Constraint h2 h1) = Some False"
  using one_ordering_accepted[OF settled_facts(1,2)] hashes_ne by simp

text \<open>
  The graph is acyclic: in a reachable state heights strictly decrease from a vertex to its
  proper ancestors, so that no vertex is among its own.
\<close>

lemma ancestors_are_lower:
  assumes "dag_reach H cfg genesis d" and "(p, h) \<in> (parent_rel d)\<^sup>+"
  shows "height_in (dag_graph d) p < height_in (dag_graph d) h \<and> (h, p) \<notin> (parent_rel d)\<^sup>*"
proof -
  note less = parent_rel_height[OF reach_inv[OF assms(1)]]
  have "(h, p) \<notin> (parent_rel d)\<^sup>*"
  proof
    assume "(h, p) \<in> (parent_rel d)\<^sup>*"
    with assms(2) have "(p, p) \<in> (parent_rel d)\<^sup>+" by (meson trancl_rtrancl_trancl)
    from less[OF this] show False by simp
  qed
  with less[OF assms(2)] show ?thesis by blast
qed

section \<open>Insertion\<close>

text \<open>
  C6: \<open>try_insert\<close> never crashes in a reachable state that has room for another height. Its
  outcome is decided by the checks: a vertex that passes is in the graph, pending, on the frontier
  in place of its parents, and its new constraints are rejected exactly if a parent constraint is; the
  vertices that waited for it are returned. A vertex with missing or waiting parents is remembered,
  and any other error leaves the graph as it was.
\<close>

theorem try_insert_outcomes:
  assumes "dag_reach H cfg genesis d" and "env_ok E" and "env_hash E = H" and "capacity d"
  shows "\<exists>res. try_insert E vx d = Some res \<and> try_insert_outcome E vx d res \<and> dag_inv H (fst res)"
  using try_insert_walk[OF reach_inv[OF assms(1)] assms(2-4)] by blast

theorem try_insert_outcomes_witness:
  "\<exists>res. try_insert test_env (test_vertex h0 3 [h3, h4]) disputed = Some res \<and>
     try_insert_outcome test_env (test_vertex h0 3 [h3, h4]) disputed res \<and>
     dag_inv vx_namespace_id (fst res)"
  by (rule try_insert_outcomes[OF disputed_facts(1) test_env_ok test_env_hash disputed_facts(2)])

text \<open>
  A vertex passes the checks exactly if its version is known, it has distinct parents that are
  all in the graph, it is not, its height is one more than the greatest parent height, and the
  collection of its active constraints succeeds without finding two that are opposite. No rejected
  vertex is then reached from it and no parent descends from another.
\<close>

lemma check_vertex_accepts_iff:
  assumes "dag_reach H cfg genesis d" and "env_ok E"
  shows "check_vertex E d vx = Some (Inr ()) \<longleftrightarrow>
      vx_version vx = VERSION \<and> vx_parents vx \<noteq> [] \<and> distinct (vx_parents vx) \<and>
      env_hash E vx |\<notin>| fmdom (dag_graph d) \<and>
      set (vx_parents vx) \<subseteq> fset (fmdom (dag_graph d)) \<and>
      vx_height vx = 1 + parent_height d vx \<and> \<not> rejected_reach d vx \<and>
      (\<forall>p \<in> set (vx_parents vx). \<forall>q \<in> set (vx_parents vx). (p, q) \<notin> (parent_rel d)\<^sup>+) \<and>
      (\<exists>cs. get_active_ancestor_constraints E d vx = Some (Inr cs) \<and> \<not> conflicting cs)"
proof -
  note inv = reach_inv[OF assms(1)]
  obtain r where r: "check_vertex E d vx = Some r" "check_outcome E d vx r"
    using check_vertex_walk[OF inv assms(2)] by blast
  have "r = Inr ()" if ok: "vx_version vx = VERSION" "vx_parents vx \<noteq> []" "distinct (vx_parents vx)"
      "env_hash E vx |\<notin>| fmdom (dag_graph d)" "set (vx_parents vx) \<subseteq> fset (fmdom (dag_graph d))"
      "vx_height vx = 1 + parent_height d vx" "\<not> rejected_reach d vx"
      "\<forall>p \<in> set (vx_parents vx). \<forall>q \<in> set (vx_parents vx). (p, q) \<notin> (parent_rel d)\<^sup>+"
      "get_active_ancestor_constraints E d vx = Some (Inr cs)" "\<not> conflicting cs" for cs
  proof -
    have "set (vx_parents vx) \<subseteq> fset (fmdom (dag_vertex d))"
      using ok(5) graph_subset_vertex[OF dag_invD(2)[OF inv]] by (auto simp: less_eq_fset.rep_eq)
    moreover have "\<not> active_constraints_spec d vx (Inl e)" for e
      using ok(7,8) by (auto simp: active_constraints_spec_def)
    ultimately show ?thesis using r(2) ok by (auto simp: check_outcome_def)
  qed
  then have accept: "check_vertex E d vx = Some (Inr ())" if "vx_version vx = VERSION \<and>
      vx_parents vx \<noteq> [] \<and> distinct (vx_parents vx) \<and> env_hash E vx |\<notin>| fmdom (dag_graph d) \<and>
      set (vx_parents vx) \<subseteq> fset (fmdom (dag_graph d)) \<and>
      vx_height vx = 1 + parent_height d vx \<and> \<not> rejected_reach d vx \<and>
      (\<forall>p \<in> set (vx_parents vx). \<forall>q \<in> set (vx_parents vx). (p, q) \<notin> (parent_rel d)\<^sup>+) \<and>
      (\<exists>cs. get_active_ancestor_constraints E d vx = Some (Inr cs) \<and> \<not> conflicting cs)"
    using that r(1) by blast
  show ?thesis
  proof (intro iffI accept)
    assume "check_vertex E d vx = Some (Inr ())"
    then have "check_outcome E d vx (Inr ())" using r by simp
    note facts = check_ok_facts[OF this]
    show "vx_version vx = VERSION \<and>
      vx_parents vx \<noteq> [] \<and> distinct (vx_parents vx) \<and> env_hash E vx |\<notin>| fmdom (dag_graph d) \<and>
      set (vx_parents vx) \<subseteq> fset (fmdom (dag_graph d)) \<and>
      vx_height vx = 1 + parent_height d vx \<and> \<not> rejected_reach d vx \<and>
      (\<forall>p \<in> set (vx_parents vx). \<forall>q \<in> set (vx_parents vx). (p, q) \<notin> (parent_rel d)\<^sup>+) \<and>
      (\<exists>cs. get_active_ancestor_constraints E d vx = Some (Inr cs) \<and> \<not> conflicting cs)"
      by (intro conjI facts)
  qed
qed

text \<open>
  An insertion that fails changes neither the graph nor the frontier nor any conflict set nor
  the pending queries; unless a parent is missing or waiting, it changes nothing at all.
\<close>

lemma failed_insert_keeps_graph:
  assumes "dag_reach H cfg genesis d" and "env_ok E" and "env_hash E = H" and "capacity d"
    and "try_insert E vx d = Some (d', Inl e)"
  shows "dag_graph d' = dag_graph d \<and> dag_frontier d' = dag_frontier d \<and> dag_state d' = dag_state d \<and>
    dag_pending_query d' = dag_pending_query d \<and>
    (d' = d \<or> (\<exists>ps. e = MissingParents ps \<or> e = WaitingOnParents ps) \<and> d' = registered (env_hash E vx) vx d)"
proof -
  have "try_insert_outcome E vx d (d', Inl e)"
    using try_insert_walk[OF reach_inv[OF assms(1)] assms(2-4), of vx] assms(5) by auto
  then have "d' = d \<or> (\<exists>ps. e = MissingParents ps \<or> e = WaitingOnParents ps) \<and>
      d' = registered (env_hash E vx) vx d"
    by (rule try_insert_outcome_error)
  then show ?thesis by (auto simp: registered_def)
qed

text \<open>
  C15: \<open>retry_pending\<close> always returns: its work list empties within the fuel. The vertices it
  reports are exactly those that entered the graph, no other vertex becomes known, and recorded
  votes and decisions stay.
\<close>

theorem retry_pending_returns:
  assumes "dag_reach H cfg genesis d" and "env_ok E" and "env_hash E = H" and "capacity d"
  shows "\<exists>d' S. retry_pending E hs d = Some (d', Inr S) \<and> dag_inv H d' \<and> extends d d' \<and>
    fmdom (dag_vertex d') = fmdom (dag_vertex d) \<and>
    fset S = fset (fmdom (dag_graph d')) - fset (fmdom (dag_graph d))"
  by (rule retry_pending_walk[OF assms(2,3) reach_inv[OF assms(1)] assms(4)])

theorem retry_pending_returns_witness:
  "\<exists>d' S. retry_pending test_env [h4, h5] disputed = Some (d', Inr S) \<and> dag_inv vx_namespace_id d' \<and>
    extends disputed d' \<and> fmdom (dag_vertex d') = fmdom (dag_vertex disputed) \<and>
    fset S = fset (fmdom (dag_graph d')) - fset (fmdom (dag_graph disputed))"
  by (rule retry_pending_returns[OF disputed_facts(1) test_env_ok test_env_hash disputed_facts(2)])


section \<open>The active ancestry\<close>

text \<open>
  C13: The outcome of \<open>get_active_ancestors\<close> for any vertex. With an unknown parent it is
  \<open>NotFound\<close>; without parents it crashes, as it does at the first parent that waits to be
  inserted, unless an earlier parent is refused first. With all parents in the graph it returns: an
  error exactly if a rejected vertex is reached through undecided ones, or a parent descends from
  another; otherwise exactly the undecided vertices among the parents and those reached from them by
  steps from vertices above the least accepted height, without repetition and in ascending height,
  which includes every undecided vertex that is reached through undecided vertices.
\<close>

theorem active_ancestors_found:
  assumes "dag_reach H cfg genesis d" and "env_ok E"
  shows "active_ancestors_outcome d vx (get_active_ancestors E d vx)"
  by (rule active_ancestors_total[OF reach_inv[OF assms(1)] assms(2)])

theorem active_ancestors_found_witness:
  "\<exists>r. get_active_ancestors test_env disputed v5 = Some r \<and> active_ancestors_spec disputed v5 r"
proof -
  have "set (vx_parents v5) \<subseteq> fset (fmdom (dag_vertex disputed))"
    using disputed_known graph_subset_vertex[OF dag_invD(2)[OF disputed_inv]]
    by (auto simp: parents_known_def)
  with active_ancestors_found[OF disputed_facts(1) test_env_ok, of v5] disputed_known show ?thesis
    by (simp add: active_ancestors_outcome_def parents_known_def)
qed

text \<open>
  \<open>get_active_ancestor_constraints\<close> likewise returns without a crash, and where it
  succeeds its result has no repetition, holds undecided constraints only, each committed to by the
  vertex or by an undecided ancestor, and misses none that is reached through undecided vertices.
\<close>

lemma active_constraints_found:
  assumes "dag_reach H cfg genesis d" and "env_ok E" and "parents_known d vx"
  shows "\<exists>r. get_active_ancestor_constraints E d vx = Some r \<and> active_constraints_spec d vx r"
  by (rule active_constraints_walk[OF reach_inv[OF assms(1)] assms(2,3)])

section \<open>Votes\<close>

text \<open>
  The confidence of a constraint is the number of distinct constraints with a chit among its
  progeny, itself included; the walk down the constraint graph always ends.
\<close>

lemma confidence_counts_chits:
  assumes "dag_reach H cfg genesis d" and "env_ok E" and "tracked d c"
  shows "confidence_of E d c = Some (card {e \<in> progeny_of d c. chit_of d e})"
  using confidence_of_total[OF reach_inv[OF assms(1)] assms(2,3)] by (simp add: chits_of_def)

text \<open>
  C14: \<open>reject_progeny\<close> always ends, and rejects exactly the progeny of the constraint: every
  other decision, and every chit, counter and preference, stays.
\<close>

theorem reject_progeny_exact:
  assumes "dag_reach H cfg genesis d" and "env_ok E" and "tracked d c"
  shows "\<exists>d'. reject_progeny (depth_bound d) E c d = Some d' \<and> votes_only d d' \<and>
    (\<forall>x. decision_of d' x = (if x \<in> progeny_of d c then Some False else decision_of d x)) \<and>
    (\<forall>x. chit_of d' x = chit_of d x \<and> count_of d' x = count_of d x \<and>
       preferred_of d' x = preferred_of d x \<and> last_of d' x = last_of d x \<and>
       recorded_confidence d' x = recorded_confidence d x)"
proof -
  note inv = reach_inv[OF assms(1)]
  from reject_progeny_walk[OF inv assms(2,3) rank_below_depth_bound(2)[OF dag_invD(2)[OF inv]] votes_only_refl]
  show ?thesis by (auto simp: decides_def rejecting_def split: if_splits)
qed

theorem reject_progeny_exact_witness:
  "\<exists>d'. reject_progeny (depth_bound disputed) test_env (unity h5) disputed = Some d' \<and>
     decision_of d' (unity h5) = Some False"
  using reject_progeny_exact[OF disputed_facts(1) test_env_ok disputed_tracked] by fastforce

text \<open>
  C10: A vote for one constraint never crashes, and every voting variable after it is given by those
  before. It counts the vote, afresh after a vote for the opposite, and notes it as the last vote of
  the conflict set; it stores the number of chits in the progeny as the confidence; it prefers the
  constraint over its opposite if it has more chits or is accepted; and it accepts it exactly if the
  counter reaches the acceptance threshold or, for a vertex's own constraint with all recorded parents
  accepted, the early threshold. Accepting a constraint rejects the progeny of its opposite. Every
  other counter, confidence, last vote, preference and decision, every chit, the maps and the links
  stay. So a vote for the opposite that follows counts as its first, and takes the count back.
\<close>

theorem vote_for_effect:
  assumes "dag_reach H cfg genesis d" and "env_ok E" and "tracked d c"
  shows "\<exists>d'. vote_for E c d = Some d' \<and> vote_effect d c d' \<and>
    (\<not> is_unity c \<longrightarrow> (\<exists>d''. vote_for E (opposite c) d' = Some d'' \<and> vote_effect d' (opposite c) d'' \<and>
       count_of d'' (opposite c) = 1 \<and> next_count d'' c = 1))"
proof -
  note inv = reach_inv[OF assms(1)]
  obtain d' where d': "vote_for E c d = Some d'" "vote_effect d c d'"
    using vote_for_walk[OF inv assms(2,3)] by blast
  have v: "votes_only d d'" and last: "last_of d' (opposite c) \<longleftrightarrow> opposite c = c"
    using d'(2) by (simp_all add: vote_effect_def)
  obtain d'' where d'': "vote_for E (opposite c) d' = Some d''" "vote_effect d' (opposite c) d''"
    using vote_for_walk[OF dag_inv_votes[OF inv v] assms(2), of "opposite c"] assms(3)
      votes_only_tracked[OF v] by auto
  have "count_of d'' (opposite c) = next_count d' (opposite c)" "last_of d'' c \<longleftrightarrow> c = opposite c"
    using d''(2) by (simp_all add: vote_effect_def)
  with d' d'' last show ?thesis by (auto simp: next_count_def)
qed

theorem vote_for_effect_witness:
  "\<exists>d'. vote_for test_env (unity h5) disputed = Some d' \<and> vote_effect disputed (unity h5) d'"
  using vote_for_effect[OF disputed_facts(1) test_env_ok disputed_tracked] by blast

text \<open>
  C22: The early threshold never applies to a constraint between two vertices, with or without a
  rival: the conflict set the code looks up under the opposite's key is the constraint's own. Such a
  constraint is accepted by a vote only at the acceptance threshold.
\<close>

theorem binary_needs_full_threshold:
  assumes "dag_reach H cfg genesis d" and "env_ok E" and "tracked d c" and "\<not> is_unity c"
  shows "has_conflict d c \<and>
    (\<forall>d'. vote_for E c d = Some d' \<longrightarrow> decision_of d c \<noteq> Some True \<longrightarrow>
       decision_of d' c = Some True \<longrightarrow> cfg_thresh_accepted cfg \<le> count_of d' c)"
proof -
  have "has_conflict d c" using has_conflict_tracked[OF assms(3)] assms(4) by simp
  moreover have "cfg_thresh_accepted cfg \<le> count_of d' c"
    if d': "vote_for E c d = Some d'" "decision_of d c \<noteq> Some True" "decision_of d' c = Some True" for d'
  proof -
    have v: "vote_effect d c d'" using vote_for_walk[OF reach_inv[OF assms(1)] assms(2,3)] d'(1) by auto
    then have "accepts d c" using d'(2,3) by (auto simp: vote_effect_def split: if_splits)
    then show ?thesis using v assms(4) reach_invariant[OF assms(1)] by (auto simp: accepts_def vote_effect_def)
  qed
  ultimately show ?thesis by blast
qed

theorem binary_needs_full_threshold_witness: "has_conflict settled (Constraint h1 h2)"
  using binary_needs_full_threshold[OF settled_facts(1) test_env_ok decision_of_tracked[OF settled_facts(2)]]
    hashes_ne by simp


section \<open>Recorded results\<close>

text \<open>
  C4: In a reachable state \<open>record_query_result\<close> crashes exactly if the vertex is pending and a
  rejected vertex is reached from it through undecided ones: the result of
  \<open>get_active_ancestor_constraints\<close> is unwrapped although it may be an error.
\<close>

theorem record_crashes_iff:
  assumes "dag_reach H cfg genesis d" and "env_ok E"
  shows "record_query_result E h b d = None \<longleftrightarrow>
    (\<exists>vx. fmlookup (dag_pending_query d) h = Some vx \<and> rejected_reach d vx)"
proof (cases "fmlookup (dag_pending_query d) h")
  case None
  then show ?thesis by (simp add: record_not_pending)
next
  case (Some vx)
  from record_walk[OF reach_inv[OF assms(1)] assms(2) Some, of b] Some show ?thesis
    by (auto split: if_splits)
qed

theorem record_crashes_iff_witness:
  "\<exists>vx. fmlookup (dag_pending_query settled) h5 = Some vx \<and> rejected_reach settled vx"
  using record_crashes_iff[OF settled_facts(1) test_env_ok] settled_facts(5) by blast

text \<open>
  The crash is reachable: with a vertex and its child waiting for the results of their queries,
  a result that rejects the vertex's ordering makes the recording of the child's result crash.
\<close>

theorem record_crash_reachable:
  "\<exists>d. dag_reach vx_namespace_id one v0 d \<and> record_query_result test_env h5 True d = None"
  using settled_facts(1,5) by blast

text \<open>
  C20: Where it does not crash, recording the result for a pending vertex takes the query off the
  pending ones, awards the chit of a positive result, and then votes for every active constraint and
  the vertex's own, one after the other, or resets all their counters. Only voting variables change.
\<close>

theorem record_effects:
  assumes "dag_reach H cfg genesis d" and "env_ok E"
    and "fmlookup (dag_pending_query d) h = Some vx" and "\<not> rejected_reach d vx"
  shows "\<exists>d'. record_query_result E h b d = Some (d', Inr ()) \<and> record_effect E h vx b d d' \<and>
    votes_only (without_pending h d) d' \<and> dag_inv H d'"
  using record_walk[OF reach_inv[OF assms(1)] assms(2,3), of b] assms(4)
    record_inv[OF reach_inv[OF assms(1)]] by auto

theorem record_effects_witness:
  "\<exists>d'. record_query_result test_env h5 True disputed = Some (d', Inr ()) \<and>
     record_effect test_env h5 v5 True disputed d'"
  using record_effects[OF disputed_facts(1) test_env_ok disputed_facts(3) disputed_not_rejected] by blast

text \<open>
  A negative result decides nothing: it resets the counters of the vertex's own constraint, of
  every undecided constraint the vertex commits to and of those of its undecided ancestors, and keeps
  every decision, chit and preference.
\<close>

lemma negative_result_resets:
  assumes "dag_reach H cfg genesis d" and "env_ok E"
    and "fmlookup (dag_pending_query d) h = Some vx"
    and "record_query_result E h False d = Some (d', Inr ())"
  shows "count_of d' (unity h) = 0 \<and>
    (\<forall>c. decision_of d c = None \<longrightarrow> ancestor_constraint d (\<lambda>p k. k \<in> undecided_reach d p) vx c \<longrightarrow>
       count_of d' c = 0) \<and>
    (\<forall>c. decision_of d' c = decision_of d c \<and> chit_of d' c = chit_of d c \<and>
       preferred_of d' c = preferred_of d c)"
proof -
  note inv = reach_inv[OF assms(1)]
  have "record_effect E h vx False d d'"
    using record_walk[OF inv assms(2,3), of False] assms(4) by (auto split: if_splits)
  then obtain d1 cs where v: "votes_only (without_pending h d) d1"
    and d1: "\<And>x. chit_of d1 x = chit_of d x"
      "\<And>x. decision_of d1 x = decision_of d x \<and> count_of d1 x = count_of d x \<and>
        preferred_of d1 x = preferred_of d x"
    and spec: "active_constraints_spec d1 vx (Inr cs)"
    and eff: "reset_effect (set (cs @ [unity h])) d1 d'" unfolding record_effect_def by auto
  have g1: "dag_graph d1 = dag_graph d" "decision_of d1 = decision_of d"
    using votes_only_fields(3)[OF v] d1(2) by auto
  have "undecided_reach d1 = undecided_reach d"
    by (simp add: undecided_reach_def undecided_rel_def parents_of_def g1 fun_eq_iff)
  then have "ancestor_constraint d1 (\<lambda>p k. k \<in> undecided_reach d1 p) vx c =
      ancestor_constraint d (\<lambda>p k. k \<in> undecided_reach d p) vx c" for c
    by (simp add: ancestor_constraint_def g1)
  then have "c \<in> set cs" if "decision_of d c = None"
    "ancestor_constraint d (\<lambda>p k. k \<in> undecided_reach d p) vx c" for c
    using spec that g1(2) by (simp add: active_constraints_spec_def)
  then show ?thesis using eff d1 by (simp add: reset_effect_def)
qed

text \<open>
  C11: Enough support decides. Take any run from a reachable state with the vertex in its graph: with as
  many positive results as the acceptance threshold, each for the vertex itself or for one that builds
  on it through undecided vertices, and with no negative result for one of its progeny, the vertex is
  decided, and \<open>query\<close> reports it final. Insertions, retries, results for other vertices and
  results that are refused may come in between, in any order.
\<close>

theorem support_decides:
  assumes "dag_reach H cfg genesis d" and "h |\<in>| fmdom (dag_graph d)"
    and "supported H h d n d'" and "cfg_thresh_accepted cfg \<le> n" and "0 < n" and "env_ok E"
  shows "\<exists>b. decision_of d' (unity h) = Some b \<and> query E d' h = Some (Inr (b, True))"
proof -
  note reach = supported_reach[OF assms(3,1)]
  have st: "h |\<in>| fmdom (dag_graph d')" "stage h n d'" using supported_stage[OF assms(3,1,2)] by auto
  have "dag_config d' = cfg" using reach_invariant[OF reach] by blast
  then obtain b where b: "decision_of d' (unity h) = Some b"
    using stage_decided[OF st(2) assms(5)] assms(4) by auto
  obtain r where r: "query E d' h = Some r" "query_spec E d' h r"
    using query_walk[OF reach_inv[OF reach] assms(6)] by blast
  then have "r = Inr (b, True)" using st(1) b by (auto simp: query_spec_def)
  with b r(1) show ?thesis by blast
qed

theorem support_decides_witness:
  "\<exists>d' b. record_query_result test_env h5 True disputed = Some (d', Inr ()) \<and>
     query test_env d' h5 = Some (Inr (b, True))"
proof -
  obtain d' where d': "record_query_result test_env h5 True disputed = Some (d', Inr ())"
    using record_walk[OF disputed_inv test_env_ok disputed_facts(3), of True] disputed_not_rejected by auto
  have "supported vx_namespace_id h5 disputed (Suc 0) d'"
    by (rule supported_vote[OF supported_start test_env_ok test_env_hash disputed_facts(3) _ d'])
       (simp add: counts_for_def)
  from support_decides[OF disputed_facts(1) _ this _ _ test_env_ok] disputed_graph d'
  show ?thesis by (auto simp: one_def test_config_def intro: fmdomI)
qed

text \<open>
  C23: What is decided stays decided: recording a result never returns a constraint to the undecided
  ones, and never changes which vertices are known, in the graph or on the frontier.
\<close>

theorem decisions_stay:
  assumes "dag_reach H cfg genesis d" and "env_ok E"
    and "record_query_result E h b d = Some (d', r)"
  shows "(\<forall>c. decision_of d c \<noteq> None \<longrightarrow> decision_of d' c \<noteq> None) \<and>
    dag_vertex d' = dag_vertex d \<and> dag_graph d' = dag_graph d \<and> dag_frontier d' = dag_frontier d"
proof -
  consider "d' = d" | "votes_only (without_pending h d) d'"
    using record_step[OF reach_inv[OF assms(1)] assms(2,3)] by blast
  then show ?thesis
  proof cases
    case 2
    then have "decision_of d' c \<noteq> None" if "decision_of d c \<noteq> None" for c
      using that votes_only_decided[OF 2, of c] by auto
    then show ?thesis using votes_only_fields[OF 2] by simp
  qed simp
qed

theorem decisions_stay_witness:
  "\<exists>d'. record_query_result test_env h5 False disputed = Some (d', Inr ()) \<and>
     dag_graph d' = dag_graph disputed"
proof -
  obtain d' where d': "record_query_result test_env h5 False disputed = Some (d', Inr ())"
    using record_walk[OF disputed_inv test_env_ok disputed_facts(3), of False] disputed_not_rejected by auto
  with decisions_stay[OF disputed_facts(1) test_env_ok d'] show ?thesis by blast
qed

text \<open>
  C21: A rejection is not final. Take any reachable state with a rejected vertex whose own query is
  still pending and that reaches no rejected vertex through undecided ones. If one more vote
  brings its counter to the acceptance threshold, recording a positive result accepts it, and
  \<open>query\<close>, which reported it as finally rejected, reports it as finally accepted.
\<close>

theorem rejection_overturned:
  assumes "dag_reach H cfg genesis d" and "env_ok E"
    and "fmlookup (dag_pending_query d) h = Some vx" and "decision_of d (unity h) = Some False"
    and "\<not> rejected_reach d vx" and "cfg_thresh_accepted cfg \<le> Suc (count_of d (unity h))"
  shows "query E d h = Some (Inr (False, True)) \<and>
    (\<exists>d'. record_query_result E h True d = Some (d', Inr ()) \<and>
       decision_of d' (unity h) = Some True \<and> query E d' h = Some (Inr (True, True)))"
proof -
  note inv = reach_inv[OF assms(1)]
  have g: "h |\<in>| fmdom (dag_graph d)" using inv_pending(1)[OF inv assms(3)] by (rule fmdomI)
  obtain d' where d': "record_query_result E h True d = Some (d', Inr ())"
    "record_effect E h vx True d d'" "votes_only (without_pending h d) d'"
    using record_walk[OF inv assms(2,3), of True] assms(5) by auto
  have "dag_config d = cfg" using reach_invariant[OF assms(1)] by blast
  then have dec: "decision_of d' (unity h) = Some True"
    using positive_result_accepts[OF inv assms(3) d'(2)] assms(4,6) by simp
  have g': "h |\<in>| fmdom (dag_graph d')" using g votes_only_fields(3)[OF d'(3)] by simp
  have "query E d h = Some (Inr (False, True))"
    using query_walk[OF inv assms(2), of h] g assms(4) by (auto simp: query_spec_def)
  moreover have "query E d' h = Some (Inr (True, True))"
    using query_walk[OF record_inv[OF inv d'(3)] assms(2), of h] g' dec by (auto simp: query_spec_def)
  ultimately show ?thesis using d'(1) dec by blast
qed

text \<open>
  On a run: \<open>v3\<close> and \<open>v4\<close> order two parents in opposite ways, \<open>v4\<close> against an accepted
  constraint, so that it is rejected; its own result then accepts it, and both are reported
  accepted.
\<close>

theorem rejection_overturned_witness:
  "\<exists>d d'. dag_reach vx_namespace_id one v0 d \<and>
     query test_env d h4 = Some (Inr (False, True)) \<and>
     record_query_result test_env h4 True d = Some (d', Inr ()) \<and>
     query test_env d' h4 = Some (Inr (True, True)) \<and> query test_env d' h3 = Some (Inr (True, True)) \<and>
     Constraint h1 h2 \<in> set (parent_constraints v3) \<and> fmlookup (dag_graph d') h3 = Some v3 \<and>
     Constraint h2 h1 \<in> set (parent_constraints v4) \<and> fmlookup (dag_graph d') h4 = Some v4 \<and>
     decision_of d' (Constraint h2 h1) = Some False"
proof -
  obtain d d' where d: "run_ops test_env one v0 (dispute @ [Record h3 True]) = Some d"
    "record_query_result test_env h4 True d = Some (d', Inr ())"
    "fmlookup (dag_pending_query d) h4 = Some v4" "decision_of d (unity h4) = Some False"
    "query test_env d' h3 = Some (Inr (True, True))" "fmlookup (dag_graph d') h3 = Some v3"
    "fmlookup (dag_graph d') h4 = Some v4" "decision_of d' (Constraint h2 h1) = Some False"
    using overturned_run by (auto simp: bind_eq_Some_conv)
  note reach = test_reach[OF d(1)]
  have "\<not> rejected_reach d v4"
    using record_walk[OF reach_inv[OF reach] test_env_ok d(3), of True] d(2) by (auto split: if_splits)
  moreover have "cfg_thresh_accepted one \<le> Suc n" for n by (simp add: one_def test_config_def)
  ultimately have "query test_env d h4 = Some (Inr (False, True))"
    "query test_env d' h4 = Some (Inr (True, True))"
    using rejection_overturned[OF reach test_env_ok d(3,4)] d(2) by auto
  moreover have "Constraint h1 h2 \<in> set (parent_constraints v3)"
    "Constraint h2 h1 \<in> set (parent_constraints v4)"
    by (simp_all add: v3_def v4_def test_vertex_def parent_constraints_def constraints_of_def)
  ultimately show ?thesis using reach d by blast
qed


section \<open>Queries and the frontier\<close>

text \<open>
  C19: \<open>query\<close> never crashes in a reachable state, so its assertion holds. A vertex outside the
  graph is an error; a decided one reports its decision as final; an undecided one is strongly
  preferred exactly if each of its active constraints is preferred in its conflict set, and reports
  an error exactly if a rejected vertex is reached from it.
\<close>

theorem query_answers:
  assumes "dag_reach H cfg genesis d" and "env_ok E"
  shows "\<exists>r. query E d h = Some r \<and> query_spec E d h r"
  by (rule query_walk[OF reach_inv[OF assms(1)] assms(2)])

theorem query_answers_witness:
  "\<exists>r. query test_env settled h1 = Some r \<and> query_spec test_env settled h1 r"
  by (rule query_answers[OF settled_facts(1) test_env_ok])

text \<open>
  C18: \<open>get_frontier\<close> never crashes in a reachable state. It returns exactly the strongly
  preferred vertices of the graph that no vertex of the graph has as a parent, each once, whatever
  their height, in the order of their timestamps.
\<close>

theorem frontier_is_preferred_tips:
  assumes "dag_reach H cfg genesis d" and "env_ok E"
  shows "\<exists>vxs. get_frontier E d = Some vxs \<and> sorted (map vx_timestamp vxs) \<and> distinct (map H vxs) \<and>
    (\<forall>v. v \<in> set vxs \<longleftrightarrow>
       fmlookup (dag_graph d) (H v) = Some v \<and>
       (\<forall>k w. fmlookup (dag_graph d) k = Some w \<longrightarrow> H v \<notin> set (vx_parents w)) \<and>
       (\<exists>final. query E d (H v) = Some (Inr (True, final))))"
proof -
  note inv = reach_inv[OF assms(1)]
  have "fmlookup (dag_frontier d) (H v) = Some v \<longleftrightarrow> fmlookup (dag_graph d) (H v) = Some v \<and>
      (\<forall>k w. fmlookup (dag_graph d) k = Some w \<longrightarrow> H v \<notin> set (vx_parents w))" for v
    using dag_invD(4)[OF inv] by (simp add: frontier_ok_def)
  with get_frontier_walk[OF inv assms(2)] show ?thesis
    by (simp add: strongly_preferred_in_def)
qed

theorem frontier_is_preferred_tips_witness:
  "\<exists>vxs. get_frontier test_env settled = Some vxs \<and> sorted (map vx_timestamp vxs)"
  using frontier_is_preferred_tips[OF settled_facts(1) test_env_ok] by blast

text \<open>
  C24: Insertions and retries keep every vote: the decision, chit, counter and preference of a
  constraint with a conflict set stay, and a constraint that gets one is not accepted and has no chit.
\<close>

theorem insertions_keep_votes:
  assumes "dag_reach H cfg genesis d" and "env_ok E" and "env_hash E = H" and "capacity d"
    and "try_insert E vx d = Some (d', r) \<or> retry_pending E hs d = Some (d', r')"
  shows "if tracked d c
    then decision_of d' c = decision_of d c \<and> chit_of d' c = chit_of d c \<and>
      count_of d' c = count_of d c \<and> preferred_of d' c = preferred_of d c
    else decision_of d' c \<noteq> Some True \<and> \<not> chit_of d' c \<and> count_of d' c = 0"
proof -
  note inv = reach_inv[OF assms(1)]
  have "extends d d'"
  proof (rule disjE[OF assms(5)])
    assume i: "try_insert E vx d = Some (d', r)"
    then have "try_insert_outcome E vx d (d', r)"
      using try_insert_walk[OF inv assms(2-4), of vx] by auto
    from try_insert_extends[OF inv this] show ?thesis by simp
  next
    assume "retry_pending E hs d = Some (d', r')"
    with retry_pending_walk[OF assms(2,3) inv assms(4), of hs] show ?thesis by auto
  qed
  then have g: "state_grows d d'" by (simp add: extends_def)
  show ?thesis using state_grows_accessors[OF g, of c] state_grows_new[OF g, of c] by auto
qed

theorem insertions_keep_votes_witness:
  "\<exists>d' r. try_insert test_env v5 disputed = Some (d', r) \<and>
     decision_of d' (unity h5) = decision_of disputed (unity h5)"
proof -
  obtain d' r where "try_insert test_env v5 disputed = Some (d', r)"
    using try_insert_walk[OF disputed_inv test_env_ok test_env_hash disputed_facts(2), of v5] by auto
  with insertions_keep_votes[OF disputed_facts(1) test_env_ok test_env_hash disputed_facts(2), of v5 d' r
      "[]" "Inl NotFound" "unity h5"]
  show ?thesis using disputed_tracked by auto
qed

end
