(* ===== verification/Wire.thy ===== *)
theory Wire
  imports Conflict_Set
begin

text \<open>
  \<open>src/wire/mod.rs\<close>, its message types, and the implementations of \<open>WireFormat\<close> in
  \<open>hash.rs\<close>, \<open>vertex.rs\<close>, \<open>p2p/request.rs\<close> and \<open>p2p/broadcast.rs\<close>.

  The crate \<open>prost\<close> (message to bytes and back) and \<open>blake3\<close> are not under
  \<open>src/\<close>: they are arguments \<open>encode\<close>, \<open>decode\<close> and \<open>digest\<close>. The laws
  the code relies on are the hypotheses \<open>decodes\<close> and \<open>encodes_all\<close>. Fields left out by the
  proto3 default are present here with that default.
\<close>

section \<open>Messages\<close>

record proto_hash = ph_hash :: "u8 list"

record proto_vertex =
  pv_version :: u32
  pv_height :: u64
  pv_parents :: "proto_hash list"
  pv_namespace_id :: "proto_hash option"
  pv_root :: "proto_hash option"

datatype proto_request = ProtoGetVertex proto_hash | ProtoGetPreference proto_hash

datatype proto_response =
    ProtoError int
  | ProtoVertex proto_vertex
  | ProtoPreference bool

text \<open>A \<open>oneof\<close> may be absent; so may the vertex of a broadcast.\<close>

type_synonym proto_request_msg = "proto_request option"
type_synonym proto_response_msg = "proto_response option"
type_synonym proto_broadcast_msg = "proto_vertex option"

section \<open>The trait\<close>

text \<open>\<open>to_wire\<close>, \<open>from_wire\<close> and \<open>hash\<close>, the provided methods of the trait.\<close>

definition to_wire ::
  "(bool \<Rightarrow> 'a \<Rightarrow> 'e + 'p) \<Rightarrow> ('p \<Rightarrow> u8 list option) \<Rightarrow> 'e \<Rightarrow> bool \<Rightarrow> 'a \<Rightarrow> 'e + u8 list" where
  "to_wire to_pb encode encode_err check x =
     (case to_pb check x of
        Inl e \<Rightarrow> Inl e
      | Inr p \<Rightarrow> (case encode p of None \<Rightarrow> Inl encode_err | Some bytes \<Rightarrow> Inr bytes))"

definition from_wire ::
  "(bool \<Rightarrow> 'p \<Rightarrow> 'e + 'a) \<Rightarrow> (u8 list \<Rightarrow> 'p option) \<Rightarrow> 'e \<Rightarrow> bool \<Rightarrow> u8 list \<Rightarrow> 'e + 'a" where
  "from_wire from_pb decode decode_err check bytes =
     (case decode bytes of None \<Rightarrow> Inl decode_err | Some p \<Rightarrow> from_pb check p)"

definition wire_hash ::
  "(u8 list \<Rightarrow> hash) \<Rightarrow> (bool \<Rightarrow> 'a \<Rightarrow> 'e + 'p) \<Rightarrow> ('p \<Rightarrow> u8 list option) \<Rightarrow> 'e \<Rightarrow> 'a \<Rightarrow> hash option" where
  "wire_hash digest to_pb encode encode_err x =
     (case to_wire to_pb encode encode_err False x of Inl _ \<Rightarrow> None | Inr bytes \<Rightarrow> Some (digest bytes))"

section \<open>Checking a format\<close>

text \<open>
  The helpers that compare a value with its bytes. The inner option is the error they return; a
  failed \<open>assert_eq!\<close> is a panic. Equality is derived for every type of message.
\<close>

definition test_wire_encode ::
  "(bool \<Rightarrow> 'a \<Rightarrow> 'e + 'p) \<Rightarrow> ('p \<Rightarrow> u8 list option) \<Rightarrow> 'e \<Rightarrow> 'a \<Rightarrow> u8 list \<Rightarrow> 'e option option" where
  "test_wire_encode to_pb encode encode_err decoded encoded =
     (case to_wire to_pb encode encode_err True decoded of
        Inr bytes \<Rightarrow> if bytes = encoded then Some None else None
      | Inl e \<Rightarrow> Some (Some e))"

definition test_wire_decode ::
  "(bool \<Rightarrow> 'p \<Rightarrow> 'e + 'a) \<Rightarrow> (u8 list \<Rightarrow> 'p option) \<Rightarrow> 'e \<Rightarrow> 'a \<Rightarrow> u8 list \<Rightarrow> 'e option option" where
  "test_wire_decode from_pb decode decode_err decoded encoded =
     (case from_wire from_pb decode decode_err True encoded of
        Inr object \<Rightarrow> if object = decoded then Some None else None
      | Inl e \<Rightarrow> Some (Some e))"

definition test_wire_format ::
  "(bool \<Rightarrow> 'a \<Rightarrow> 'e + 'p) \<Rightarrow> (bool \<Rightarrow> 'p \<Rightarrow> 'e + 'a) \<Rightarrow> ('p \<Rightarrow> u8 list option) \<Rightarrow>
     (u8 list \<Rightarrow> 'p option) \<Rightarrow> 'e \<Rightarrow> 'e \<Rightarrow> 'a \<Rightarrow> u8 list \<Rightarrow> ('e option \<times> 'e option) option" where
  "test_wire_format to_pb from_pb encode decode encode_err decode_err decoded encoded = do {
     e \<leftarrow> test_wire_encode to_pb encode encode_err decoded encoded;
     f \<leftarrow> test_wire_decode from_pb decode decode_err decoded encoded;
     Some (e, f) }"

section \<open>Hashes\<close>

definition hash_to_protobuf :: "bool \<Rightarrow> hash \<Rightarrow> hash_error + proto_hash" where
  "hash_to_protobuf check h = Inr \<lparr>ph_hash = as_slice h\<rparr>"

text \<open>\<open>try_into\<close> an array fails unless the slice has exactly its length.\<close>

definition hash_from_protobuf :: "bool \<Rightarrow> proto_hash \<Rightarrow> hash_error + hash" where
  "hash_from_protobuf check p =
     (case with_bytes (ph_hash p) of Some h \<Rightarrow> Inr h | None \<Rightarrow> Inl TryFromSlice)"

section \<open>Vertices\<close>

text \<open>\<open>?\<close> on a result, where the error converts into the caller's.\<close>

definition and_then :: "('e \<Rightarrow> 'f) \<Rightarrow> 'e + 'a \<Rightarrow> ('a \<Rightarrow> 'f + 'b) \<Rightarrow> 'f + 'b" where
  "and_then into r f = (case r of Inl e \<Rightarrow> Inl (into e) | Inr x \<Rightarrow> f x)"

primrec collect_results :: "('a \<Rightarrow> 'e + 'b) \<Rightarrow> 'a list \<Rightarrow> 'e + 'b list" where
  "collect_results f [] = Inr []"
| "collect_results f (x # xs) =
     and_then id (f x) (\<lambda>y. and_then id (collect_results f xs) (\<lambda>ys. Inr (y # ys)))"

definition vertex_to_protobuf :: "bool \<Rightarrow> vertex \<Rightarrow> vertex_error + proto_vertex" where
  "vertex_to_protobuf check vx =
     and_then id (if check then sanity_checks vx else Inr ()) (\<lambda>_.
     and_then VxHash (collect_results (hash_to_protobuf check) (vx_parents vx)) (\<lambda>parents.
     and_then VxHash (hash_to_protobuf check (vx_namespace_id vx)) (\<lambda>ns.
     and_then VxHash (hash_to_protobuf check (vx_root vx)) (\<lambda>root.
       Inr \<lparr>pv_version = vx_version vx, pv_height = vx_height vx, pv_parents = parents,
            pv_namespace_id = Some ns, pv_root = Some root\<rparr>))))"

text \<open>The time at which a vertex is decoded becomes its timestamp.\<close>

definition vertex_from_protobuf :: "int \<Rightarrow> bool \<Rightarrow> proto_vertex \<Rightarrow> vertex_error + vertex" where
  "vertex_from_protobuf now check p =
     and_then VxHash (collect_results (hash_from_protobuf check) (pv_parents p)) (\<lambda>parents.
     (case pv_namespace_id p of
        None \<Rightarrow> Inl (MissingField ''namespace'')
      | Some pns \<Rightarrow>
     and_then VxHash (hash_from_protobuf check pns) (\<lambda>ns.
     (case pv_root p of
        None \<Rightarrow> Inl (MissingField ''root'')
      | Some proot \<Rightarrow>
     and_then VxHash (hash_from_protobuf check proot) (\<lambda>root.
       let vx = \<lparr>vx_version = pv_version p, vx_height = pv_height p, vx_parents = parents,
                 vx_namespace_id = ns, vx_root = root, vx_timestamp = now\<rparr>
       in and_then id (if check then sanity_checks vx else Inr ()) (\<lambda>_. Inr vx))))))"

section \<open>Requests, responses and broadcasts\<close>

datatype request_error =
    ReqHash hash_error
  | IncompleteResponse
  | IncompleteRequest
  | InvalidErrorCode int
  | ReqProstDecode
  | ReqProstEncode
  | ReqVertex vertex_error

datatype request = GetVertex hash | GetPreference hash

text \<open>\<open>Display\<close>: the name and the short form of the hash.\<close>

primrec request_display :: "(u8 list \<Rightarrow> string) \<Rightarrow> request \<Rightarrow> string" where
  "request_display hex_encode (GetVertex h) = ''GetVertex('' @ hash_display hex_encode h @ '')''"
| "request_display hex_encode (GetPreference h) = ''GetPreference('' @ hash_display hex_encode h @ '')''"

datatype error_code = Unknown | ErrNotFound

datatype response = ResponseError error_code | ResponseVertex vertex | ResponsePreference bool

primrec request_to_protobuf :: "bool \<Rightarrow> request \<Rightarrow> request_error + proto_request_msg" where
  "request_to_protobuf check (GetVertex h) =
     and_then ReqHash (hash_to_protobuf check h) (\<lambda>p. Inr (Some (ProtoGetVertex p)))"
| "request_to_protobuf check (GetPreference h) =
     and_then ReqHash (hash_to_protobuf check h) (\<lambda>p. Inr (Some (ProtoGetPreference p)))"

definition request_from_protobuf :: "bool \<Rightarrow> proto_request_msg \<Rightarrow> request_error + request" where
  "request_from_protobuf check req =
     (case req of
        Some (ProtoGetVertex m) \<Rightarrow> and_then ReqHash (hash_from_protobuf check m) (\<lambda>h. Inr (GetVertex h))
      | Some (ProtoGetPreference m) \<Rightarrow>
          and_then ReqHash (hash_from_protobuf check m) (\<lambda>h. Inr (GetPreference h))
      | None \<Rightarrow> Inl IncompleteRequest)"

primrec error_code_to_i32 :: "error_code \<Rightarrow> int" where
  "error_code_to_i32 Unknown = 0"
| "error_code_to_i32 ErrNotFound = 1"

definition error_code_try_from :: "int \<Rightarrow> request_error + error_code" where
  "error_code_try_from v =
     (if v = 0 then Inr Unknown else if v = 1 then Inr ErrNotFound else Inl (InvalidErrorCode v))"

primrec response_to_protobuf :: "bool \<Rightarrow> response \<Rightarrow> request_error + proto_response_msg" where
  "response_to_protobuf check (ResponseError code) = Inr (Some (ProtoError (error_code_to_i32 code)))"
| "response_to_protobuf check (ResponseVertex vx) =
     and_then ReqVertex (vertex_to_protobuf check vx) (\<lambda>p. Inr (Some (ProtoVertex p)))"
| "response_to_protobuf check (ResponsePreference b) = Inr (Some (ProtoPreference b))"

definition response_from_protobuf :: "int \<Rightarrow> bool \<Rightarrow> proto_response_msg \<Rightarrow> request_error + response" where
  "response_from_protobuf now check resp =
     (case resp of
        Some (ProtoError code) \<Rightarrow> and_then id (error_code_try_from code) (\<lambda>c. Inr (ResponseError c))
      | Some (ProtoVertex v) \<Rightarrow>
          and_then ReqVertex (vertex_from_protobuf now check v) (\<lambda>vx. Inr (ResponseVertex vx))
      | Some (ProtoPreference b) \<Rightarrow> Inr (ResponsePreference b)
      | None \<Rightarrow> Inl IncompleteResponse)"

text \<open>
  The codec reads a stream to its end (\<open>None\<close> where that fails) and converts with the check;
  a message that does not convert is reported as invalid data. What it writes is converted with the
  check as well.
\<close>

datatype io_error = StreamFailed | InvalidData request_error

definition read_message :: "(u8 list \<Rightarrow> request_error + 'a) \<Rightarrow> u8 list option \<Rightarrow> io_error + 'a" where
  "read_message from stream =
     (case stream of
        None \<Rightarrow> Inl StreamFailed
      | Some bytes \<Rightarrow> (case from bytes of Inl e \<Rightarrow> Inl (InvalidData e) | Inr x \<Rightarrow> Inr x))"

definition read_request :: "(u8 list \<Rightarrow> proto_request_msg option) \<Rightarrow> u8 list option \<Rightarrow> io_error + request" where
  "read_request decode = read_message (from_wire request_from_protobuf decode ReqProstDecode True)"

definition read_response ::
  "int \<Rightarrow> (u8 list \<Rightarrow> proto_response_msg option) \<Rightarrow> u8 list option \<Rightarrow> io_error + response" where
  "read_response now decode =
     read_message (from_wire (response_from_protobuf now) decode ReqProstDecode True)"

definition write_message :: "request_error + u8 list \<Rightarrow> bool \<Rightarrow> io_error + u8 list" where
  "write_message r written =
     (case r of
        Inl e \<Rightarrow> Inl (InvalidData e)
      | Inr bytes \<Rightarrow> if written then Inr bytes else Inl StreamFailed)"

definition write_request ::
  "(proto_request_msg \<Rightarrow> u8 list option) \<Rightarrow> request \<Rightarrow> bool \<Rightarrow> io_error + u8 list" where
  "write_request encode data = write_message (to_wire request_to_protobuf encode ReqProstEncode True data)"

definition write_response ::
  "(proto_response_msg \<Rightarrow> u8 list option) \<Rightarrow> response \<Rightarrow> bool \<Rightarrow> io_error + u8 list" where
  "write_response encode data = write_message (to_wire response_to_protobuf encode ReqProstEncode True data)"

datatype broadcast_error = EmptyBroadcast | BcProstDecode | BcProstEncode | BcVertex vertex_error

datatype broadcast_data = BroadcastVertex vertex

definition broadcast_data_from :: "vertex \<Rightarrow> broadcast_data" where
  "broadcast_data_from vx = BroadcastVertex vx"

primrec broadcast_to_protobuf :: "bool \<Rightarrow> broadcast_data \<Rightarrow> broadcast_error + proto_broadcast_msg" where
  "broadcast_to_protobuf check (BroadcastVertex vx) =
     and_then BcVertex (vertex_to_protobuf check vx) (\<lambda>p. Inr (Some p))"

definition broadcast_from_protobuf ::
  "int \<Rightarrow> bool \<Rightarrow> proto_broadcast_msg \<Rightarrow> broadcast_error + broadcast_data" where
  "broadcast_from_protobuf now check b =
     (case b of
        None \<Rightarrow> Inl EmptyBroadcast
      | Some p \<Rightarrow> and_then BcVertex (vertex_from_protobuf now check p) (\<lambda>vx. Inr (BroadcastVertex vx)))"

section \<open>The hash of a vertex\<close>

definition vertex_hash ::
  "(u8 list \<Rightarrow> hash) \<Rightarrow> (proto_vertex \<Rightarrow> u8 list option) \<Rightarrow> vertex \<Rightarrow> hash option" where
  "vertex_hash digest encode = wire_hash digest vertex_to_protobuf encode VxProstEncode"


section \<open>The contract of a wire format\<close>

text \<open>
  What \<open>prost\<close> promises: decoding undoes encoding, and encoding into a growing buffer
  succeeds.
\<close>

definition decodes :: "('p \<Rightarrow> u8 list option) \<Rightarrow> (u8 list \<Rightarrow> 'p option) \<Rightarrow> bool" where
  "decodes encode decode \<longleftrightarrow> (\<forall>p bytes. encode p = Some bytes \<longrightarrow> decode bytes = Some p)"

definition encodes_all :: "('p \<Rightarrow> u8 list option) \<Rightarrow> bool" where
  "encodes_all encode \<longleftrightarrow> (\<forall>p. encode p \<noteq> None)"

text \<open>
  An implementation of the trait: \<open>valid\<close> is what the optional check tests, \<open>norm\<close> what a
  round trip makes of a value.
\<close>

locale wire_format =
  fixes to_pb :: "bool \<Rightarrow> 'a \<Rightarrow> 'e + 'p"
    and from_pb :: "bool \<Rightarrow> 'p \<Rightarrow> 'e + 'a"
    and valid :: "'a \<Rightarrow> bool"
    and norm :: "'a \<Rightarrow> 'a"
  assumes to_unchecked: "\<exists>p. to_pb False x = Inr p"
    and to_checked: "to_pb True x = Inr p \<longleftrightarrow> valid x \<and> to_pb False x = Inr p"
    and from_to: "to_pb False x = Inr p \<Longrightarrow> check \<longrightarrow> valid x \<Longrightarrow> from_pb check p = Inr (norm x)"
    and from_checked: "from_pb True p = Inr x \<Longrightarrow> valid x"
    and to_norm: "to_pb check (norm x) = to_pb check x"
begin

lemma to_pb_unchecked: "to_pb check x = Inr p \<Longrightarrow> to_pb False x = Inr p \<and> (check \<longrightarrow> valid x)"
  by (cases check) (simp_all add: to_checked)

lemma wire_roundtrip:
  assumes "decodes encode decode" "to_wire to_pb encode ee check x = Inr bytes"
  shows "from_wire from_pb decode de check bytes = Inr (norm x)"
proof -
  obtain p where p: "to_pb check x = Inr p" "encode p = Some bytes"
    using assms(2) by (auto simp: to_wire_def split: sum.splits option.splits)
  then have "decode bytes = Some p" using assms(1) by (simp add: decodes_def)
  moreover have "from_pb check p = Inr (norm x)"
    using to_pb_unchecked[OF p(1)] by (intro from_to) auto
  ultimately show ?thesis by (simp add: from_wire_def)
qed

lemma wire_total:
  assumes "encodes_all encode"
  shows "(\<exists>bytes. to_wire to_pb encode ee check x = Inr bytes) \<longleftrightarrow> (check \<longrightarrow> valid x)"
proof -
  obtain p where p: "to_pb False x = Inr p" using to_unchecked by blast
  obtain bytes where b: "encode p = Some bytes" using assms by (auto simp: encodes_all_def)
  show ?thesis
  proof (cases "check \<and> \<not> valid x")
    case True
    then have "to_pb check x \<noteq> Inr q" for q using to_checked[of x q] by auto
    then have "\<exists>e. to_pb check x = Inl e" by (cases "to_pb check x") auto
    with True show ?thesis by (auto simp: to_wire_def)
  next
    case False
    then have "to_pb check x = Inr p" using p to_checked[of x p] by (cases check) auto
    with False b show ?thesis by (auto simp: to_wire_def)
  qed
qed

text \<open>The helper reports no error, and does not panic, exactly on the bytes of a valid value that survives.\<close>

lemma wire_format_test:
  assumes "decodes encode decode"
  shows "test_wire_format to_pb from_pb encode decode ee de x bytes = Some (None, None) \<longleftrightarrow>
    to_wire to_pb encode ee True x = Inr bytes \<and> norm x = x"
  using wire_roundtrip[OF assms, of ee True x bytes de]
  by (auto simp: test_wire_format_def test_wire_encode_def test_wire_decode_def bind_eq_Some_conv
      split: sum.splits if_splits)

lemma wire_received_valid: "from_wire from_pb decode de True bytes = Inr x \<Longrightarrow> valid x"
  by (auto simp: from_wire_def from_checked split: option.splits)

lemma wire_hash_total: "encodes_all encode \<Longrightarrow> \<exists>h. wire_hash digest to_pb encode ee x = Some h"
  using wire_total[of encode ee False x] by (auto simp: wire_hash_def)

lemma wire_hash_norm: "wire_hash digest to_pb encode ee (norm x) = wire_hash digest to_pb encode ee x"
  by (simp add: wire_hash_def to_wire_def to_norm)

end

section \<open>The implementations\<close>

lemma and_then_simps [simp, run_simps]:
  "and_then into (Inl e) f = Inl (into e)" "and_then into (Inr x) f = f x"
  by (simp_all add: and_then_def)

lemma and_then_eq_Inr: "and_then into r f = Inr y \<longleftrightarrow> (\<exists>x. r = Inr x \<and> f x = Inr y)"
  by (cases r) simp_all

interpretation hash_wire: wire_format hash_to_protobuf hash_from_protobuf "\<lambda>_. True" "\<lambda>h. h"
  by unfold_locales (auto simp: hash_to_protobuf_def hash_from_protobuf_def)

lemma collect_to_protobuf:
  "collect_results (hash_to_protobuf check) hs = Inr (map (\<lambda>h. \<lparr>ph_hash = as_slice h\<rparr>) hs)"
  by (induction hs) (simp_all add: hash_to_protobuf_def)

lemma collect_from_protobuf:
  "collect_results (hash_from_protobuf check) (map (\<lambda>h. \<lparr>ph_hash = as_slice h\<rparr>) hs) = Inr hs"
  by (induction hs) (simp_all add: hash_from_protobuf_def)

definition proto_of_vertex :: "vertex \<Rightarrow> proto_vertex" where
  "proto_of_vertex vx =
     \<lparr>pv_version = vx_version vx, pv_height = vx_height vx,
      pv_parents = map (\<lambda>h. \<lparr>ph_hash = as_slice h\<rparr>) (vx_parents vx),
      pv_namespace_id = Some \<lparr>ph_hash = as_slice (vx_namespace_id vx)\<rparr>,
      pv_root = Some \<lparr>ph_hash = as_slice (vx_root vx)\<rparr>\<rparr>"

lemma vertex_to_protobuf_eq:
  "vertex_to_protobuf check vx =
     and_then id (if check then sanity_checks vx else Inr ()) (\<lambda>_. Inr (proto_of_vertex vx))"
  by (simp add: vertex_to_protobuf_def collect_to_protobuf hash_to_protobuf_def proto_of_vertex_def)

lemma vertex_from_proto_of_vertex:
  "vertex_from_protobuf now check (proto_of_vertex vx) =
     and_then id (if check then sanity_checks vx else Inr ()) (\<lambda>_. Inr (vx\<lparr>vx_timestamp := now\<rparr>))"
proof -
  have "sanity_checks (vx\<lparr>vx_timestamp := now\<rparr>) = sanity_checks vx" by (simp add: sanity_checks_def)
  then show ?thesis
    by (cases vx) (simp add: vertex_from_protobuf_def proto_of_vertex_def collect_from_protobuf
        hash_from_protobuf_def Let_def)
qed

lemma unit_result: "(r :: 'e + unit) = Inr () \<or> (\<exists>e. r = Inl e)"
  by (cases r) auto

lemma vertex_from_checked:
  assumes "vertex_from_protobuf now True p = Inr vx"
  shows "sanity_checks vx = Inr ()"
  using assms unit_result[of "sanity_checks vx"]
  by (auto simp: vertex_from_protobuf_def and_then_eq_Inr Let_def split: option.splits)

interpretation vertex_wire: wire_format vertex_to_protobuf "vertex_from_protobuf now"
  "\<lambda>vx. sanity_checks vx = Inr ()" "\<lambda>vx. vx\<lparr>vx_timestamp := now\<rparr>" for now
proof
  fix x p check
  show "\<exists>p. vertex_to_protobuf False x = Inr p" by (simp add: vertex_to_protobuf_eq)
  show "vertex_to_protobuf True x = Inr p \<longleftrightarrow>
      sanity_checks x = Inr () \<and> vertex_to_protobuf False x = Inr p"
    using unit_result[of "sanity_checks x"] by (auto simp: vertex_to_protobuf_eq)
  show "vertex_to_protobuf check (x\<lparr>vx_timestamp := now\<rparr>) = vertex_to_protobuf check x"
    by (simp add: vertex_to_protobuf_eq proto_of_vertex_def sanity_checks_def)
  assume "vertex_to_protobuf False x = Inr p" "check \<longrightarrow> sanity_checks x = Inr ()"
  then show "vertex_from_protobuf now check p = Inr (x\<lparr>vx_timestamp := now\<rparr>)"
    by (auto simp: vertex_to_protobuf_eq vertex_from_proto_of_vertex)
qed (rule vertex_from_checked)

interpretation request_wire: wire_format request_to_protobuf request_from_protobuf "\<lambda>_. True" "\<lambda>r. r"
proof
  fix x p check
  show "\<exists>p. request_to_protobuf False x = Inr p" by (cases x) (simp_all add: hash_to_protobuf_def)
  show "request_to_protobuf True x = Inr p \<longleftrightarrow> True \<and> request_to_protobuf False x = Inr p"
    by (cases x) (simp_all add: hash_to_protobuf_def)
  show "request_to_protobuf False x = Inr p \<Longrightarrow> request_from_protobuf check p = Inr x"
    by (cases x) (auto simp: hash_to_protobuf_def request_from_protobuf_def hash_from_protobuf_def)
qed simp_all

text \<open>A response is as valid as the vertex it carries; a round trip refreshes its timestamp.\<close>

primrec response_valid :: "response \<Rightarrow> bool" where
  "response_valid (ResponseError c) = True"
| "response_valid (ResponseVertex vx) = (sanity_checks vx = Inr ())"
| "response_valid (ResponsePreference b) = True"

primrec response_received :: "int \<Rightarrow> response \<Rightarrow> response" where
  "response_received now (ResponseError c) = ResponseError c"
| "response_received now (ResponseVertex vx) = ResponseVertex (vx\<lparr>vx_timestamp := now\<rparr>)"
| "response_received now (ResponsePreference b) = ResponsePreference b"

lemma error_code_roundtrip: "error_code_try_from (error_code_to_i32 c) = Inr c"
  by (cases c) (simp_all add: error_code_try_from_def)

lemma response_from_checked:
  "response_from_protobuf now True p = Inr x \<Longrightarrow> response_valid x"
  by (auto simp: response_from_protobuf_def and_then_eq_Inr vertex_from_checked
      split: option.splits proto_response.splits)

interpretation response_wire: wire_format response_to_protobuf "response_from_protobuf now"
  response_valid "response_received now" for now
proof
  fix x p check
  show "\<exists>p. response_to_protobuf False x = Inr p" by (cases x) (simp_all add: vertex_to_protobuf_eq)
  show "response_to_protobuf True x = Inr p \<longleftrightarrow> response_valid x \<and> response_to_protobuf False x = Inr p"
  proof (cases x)
    case (ResponseVertex vx)
    then show ?thesis using unit_result[of "sanity_checks vx"] by (auto simp: vertex_to_protobuf_eq)
  qed auto
  show "response_to_protobuf check (response_received now x) = response_to_protobuf check x"
    by (cases x) (simp_all add: vertex_wire.to_norm)
  assume "response_to_protobuf False x = Inr p" "check \<longrightarrow> response_valid x"
  then show "response_from_protobuf now check p = Inr (response_received now x)"
    by (cases x) (auto simp: vertex_to_protobuf_eq vertex_from_proto_of_vertex response_from_protobuf_def
        error_code_roundtrip)
qed (rule response_from_checked)

primrec broadcast_vertex :: "broadcast_data \<Rightarrow> vertex" where
  "broadcast_vertex (BroadcastVertex vx) = vx"

interpretation broadcast_wire: wire_format broadcast_to_protobuf "broadcast_from_protobuf now"
  "\<lambda>b. sanity_checks (broadcast_vertex b) = Inr ()"
  "\<lambda>b. BroadcastVertex ((broadcast_vertex b)\<lparr>vx_timestamp := now\<rparr>)" for now
proof
  fix x p check
  show "\<exists>p. broadcast_to_protobuf False x = Inr p" by (cases x) (simp add: vertex_to_protobuf_eq)
  show "broadcast_to_protobuf True x = Inr p \<longleftrightarrow>
      sanity_checks (broadcast_vertex x) = Inr () \<and> broadcast_to_protobuf False x = Inr p"
    using unit_result[of "sanity_checks (broadcast_vertex x)"]
    by (cases x) (auto simp: vertex_to_protobuf_eq)
  show "broadcast_to_protobuf check (BroadcastVertex ((broadcast_vertex x)\<lparr>vx_timestamp := now\<rparr>)) =
      broadcast_to_protobuf check x"
    by (cases x) (simp add: vertex_wire.to_norm)
  show "broadcast_from_protobuf now True p = Inr x \<Longrightarrow> sanity_checks (broadcast_vertex x) = Inr ()"
    by (auto simp: broadcast_from_protobuf_def and_then_eq_Inr vertex_from_checked split: option.splits)
  assume "broadcast_to_protobuf False x = Inr p" "check \<longrightarrow> sanity_checks (broadcast_vertex x) = Inr ()"
  then show "broadcast_from_protobuf now check p =
      Inr (BroadcastVertex ((broadcast_vertex x)\<lparr>vx_timestamp := now\<rparr>))"
    by (cases x) (auto simp: vertex_to_protobuf_eq vertex_from_proto_of_vertex broadcast_from_protobuf_def)
qed

end
