(* ===== verification/Consensus_Task.thy ===== *)
theory Consensus_Task
  imports Dag_Reach Dag_Query Wire
begin

text \<open>
  \<open>src/consensus/task.rs\<close> and \<open>src/consensus/api.rs\<close>: the task that owns the graph
  and performs one action at a time, and the calls by which the other tasks reach it.

  A step takes the state and an input to the new state and the list of what the step does to the
  outside: replies on the channel of the action, pollsters spawned, frontier events emitted. The
  numbers the random generator yields while validators are drawn for a vertex are an argument.
  Peer identities (the crate \<open>libp2p\<close>) are only compared; numbers stand for them.
\<close>

section \<open>Configuration\<close>

type_synonym peer_id = nat

definition CONSENSUS_EVENT_CHAN_CAPACITY :: nat where
  "CONSENSUS_EVENT_CHAN_CAPACITY = 32"

definition DFLT_QUERY_COUNT :: nat where
  "DFLT_QUERY_COUNT = 5"

definition DFLT_QUORUM_COUNT :: nat where
  "DFLT_QUORUM_COUNT = 3"

datatype consensus_error =
    BadCfgQuorumCount
  | ConsensusDag dag_error
  | EventsOutCh
  | NeedValidators nat nat

text \<open>The genesis configuration is empty, and left out; the data directory is never read.\<close>

record consensus_config =
  cc_datadir :: string
  cc_dag :: dag_config
  cc_query_count :: nat
  cc_quorum_size :: nat

definition default_consensus_config :: consensus_config where
  "default_consensus_config =
     \<lparr>cc_datadir = [], cc_dag = default_dag_config, cc_query_count = DFLT_QUERY_COUNT, cc_quorum_size = DFLT_QUORUM_COUNT\<rparr>"

definition consensus_config_check :: "consensus_config \<Rightarrow> consensus_error + unit" where
  "consensus_config_check cfg =
     (if cc_query_count cfg < cc_quorum_size cfg then Inl BadCfgQuorumCount else Inr ())"

text \<open>The genesis vertex; its instant, in nanoseconds, is that of the date in the code.\<close>

definition genesis_vertex :: vertex where
  "genesis_vertex =
     \<lparr>vx_version = 1, vx_height = 0, vx_parents = [], vx_namespace_id = default_hash,
      vx_root = default_hash, vx_timestamp = 1424301369 * 10 ^ 9\<rparr>"

section \<open>State, actions and effects\<close>

text \<open>
  The validators are an \<open>IndexSet\<close>: distinct, in the order of insertion. \<open>ct_unread\<close>
  counts the events the task's own subscription has not received yet.
\<close>

record consensus_task =
  ct_config :: consensus_config
  ct_dag :: dag
  ct_validators :: "peer_id list"
  ct_unread :: nat

datatype consensus_action =
    AddValidator peer_id
  | GetAcceptedFrontier
  | GetPreferenceOf hash
  | GetVertexOf hash
  | RecordPeerPreference hash bool
  | SubmitVertex vertex

datatype consensus_reply =
    FrontierReply "vertex list"
  | PreferenceReply "(bool \<times> bool) option"
  | VertexReply "vertex option"
  | SubmitReply "consensus_error + hash fset"

datatype consensus_effect =
    Reply consensus_reply
  | StartPollster hash "peer_id fset" nat
  | NewFrontier "vertex list"

definition consensus_task_new ::
  "env \<Rightarrow> consensus_config \<Rightarrow> (consensus_error + consensus_task) option" where
  "consensus_task_new E cfg =
     (case consensus_config_check cfg of
        Inl e \<Rightarrow> Some (Inl e)
      | Inr _ \<Rightarrow> do {
          r \<leftarrow> dag_new E (cc_dag cfg) [genesis_vertex];
          (case r of
             Inl e \<Rightarrow> Some (Inl (ConsensusDag e))
           | Inr d \<Rightarrow>
               Some (Inr \<lparr>ct_config = cfg, ct_dag = d, ct_validators = [], ct_unread = 0\<rparr>)) })"

section \<open>Choosing validators\<close>

text \<open>
  \<open>repeat_with(\<dots>).unique().take(n)\<close> on the numbers drawn; \<open>None\<close> when they
  run out before \<open>n\<close> different ones have come.
\<close>

fun sample_indices :: "nat \<Rightarrow> nat list \<Rightarrow> nat list \<Rightarrow> nat list option" where
  "sample_indices 0 seen draws = Some []"
| "sample_indices (Suc n) seen [] = None"
| "sample_indices (Suc n) seen (i # draws) =
     (if i \<in> set seen then sample_indices (Suc n) seen draws
      else do { js \<leftarrow> sample_indices n (i # seen) draws; Some (i # js) })"

definition get_validators_for_query ::
  "nat list \<Rightarrow> consensus_task \<Rightarrow> (consensus_error + peer_id fset) option" where
  "get_validators_for_query draws t =
     (let n = cc_query_count (ct_config t); have = length (ct_validators t) in
      if have < n then Some (Inl (NeedValidators n have))
      else do {
        js \<leftarrow> sample_indices n [] draws;
        peers \<leftarrow> run_map (slice_get (ct_validators t)) js;
        Some (Inr (fset_of_list peers)) })"

section \<open>Actions\<close>

definition add_validator :: "peer_id \<Rightarrow> consensus_task \<Rightarrow> consensus_task" where
  "add_validator peer t =
     t\<lparr>ct_validators := (if peer \<in> set (ct_validators t) then ct_validators t
                         else ct_validators t @ [peer])\<rparr>"

text \<open>One vertex of the frontier: a pollster, or only a warning where validators are missing.\<close>

definition start_pollster ::
  "env \<Rightarrow> (hash \<Rightarrow> nat list) \<Rightarrow> consensus_task \<Rightarrow> vertex \<Rightarrow> consensus_effect list option" where
  "start_pollster E rng t vx = do {
     r \<leftarrow> get_validators_for_query (rng (env_hash E vx)) t;
     Some (case r of
             Inl _ \<Rightarrow> []
           | Inr validators \<Rightarrow>
               [StartPollster (env_hash E vx) validators (cc_quorum_size (ct_config t))]) }"

definition submit_action ::
  "env \<Rightarrow> (hash \<Rightarrow> nat list) \<Rightarrow> vertex \<Rightarrow> consensus_task \<Rightarrow>
     (consensus_task \<times> consensus_effect list) option" where
  "submit_action E rng vx t = do {
     (d1, resp) \<leftarrow> try_insert E vx (ct_dag t);
     (case resp of
        Inl e \<Rightarrow> Some (t\<lparr>ct_dag := d1\<rparr>, [Reply (SubmitReply (Inl (ConsensusDag e)))])
      | Inr waiting \<Rightarrow> do {
          (d2, _) \<leftarrow> retry_pending E (env_hashes E waiting) d1;
          frontier \<leftarrow> get_frontier E d2;
          polls \<leftarrow> run_map (start_pollster E rng t) frontier;
          Some (t\<lparr>ct_dag := d2, ct_unread := Suc (ct_unread t)\<rparr>,
                concat polls @ [NewFrontier frontier, Reply (SubmitReply (Inr waiting))]) }) }"

definition handle_action ::
  "env \<Rightarrow> (hash \<Rightarrow> nat list) \<Rightarrow> consensus_action \<Rightarrow> consensus_task \<Rightarrow>
     (consensus_task \<times> consensus_effect list) option" where
  "handle_action E rng a t =
     (case a of
        AddValidator peer \<Rightarrow> Some (add_validator peer t, [])
      | GetAcceptedFrontier \<Rightarrow> do {
          frontier \<leftarrow> get_frontier E (ct_dag t);
          Some (t, [Reply (FrontierReply frontier)]) }
      | GetPreferenceOf vhash \<Rightarrow> do {
          r \<leftarrow> query E (ct_dag t) vhash;
          Some (t, [Reply (PreferenceReply (case r of Inl _ \<Rightarrow> None | Inr p \<Rightarrow> Some p))]) }
      | GetVertexOf vhash \<Rightarrow> Some (t, [Reply (VertexReply (get_vertex (ct_dag t) vhash))])
      | RecordPeerPreference vhash preference \<Rightarrow> do {
          (d, _) \<leftarrow> record_query_result E vhash preference (ct_dag t);
          Some (t\<lparr>ct_dag := d\<rparr>, []) }
      | SubmitVertex vx \<Rightarrow> submit_action E rng vx t)"

text \<open>
  The task's own subscription receives one event, or, after more events than the channel holds,
  the error on which the task ends (\<open>None\<close> in the second component).
\<close>

definition internal_event :: "consensus_task \<Rightarrow> consensus_task option" where
  "internal_event t =
     (if ct_unread t > CONSENSUS_EVENT_CHAN_CAPACITY then None
      else Some (t\<lparr>ct_unread := ct_unread t - 1\<rparr>))"

text \<open>The first event, for the listeners that were there before the task subscribes itself.\<close>

definition initial_frontier :: "env \<Rightarrow> consensus_task \<Rightarrow> consensus_effect list option" where
  "initial_frontier E t = do { frontier \<leftarrow> get_frontier E (ct_dag t); Some [NewFrontier frontier] }"

section \<open>Calls from other tasks\<close>

datatype api_error = ActionSend | ApiTask consensus_error | TimerElapsed | ResponseRecv

text \<open>
  The handle other tasks hold: the timeout of its calls, in seconds, and the two channels, for which
  numbers stand.
\<close>

definition DEFAULT_TIMEOUT :: nat where
  "DEFAULT_TIMEOUT = 60"

record consensus_api =
  ca_timeout :: nat
  ca_action_ch :: nat
  ca_event_sender :: nat

definition consensus_api_new :: "nat \<Rightarrow> nat \<Rightarrow> consensus_api" where
  "consensus_api_new action_ch event_sender =
     \<lparr>ca_timeout = DEFAULT_TIMEOUT, ca_action_ch = action_ch, ca_event_sender = event_sender\<rparr>"

text \<open>Calls without an answer; the argument says whether the task still holds the other end.\<close>

definition api_add_validator :: "bool \<Rightarrow> peer_id \<Rightarrow> api_error + consensus_action" where
  "api_add_validator alive validator = (if alive then Inr (AddValidator validator) else Inl ActionSend)"

definition api_record_peer_preference :: "bool \<Rightarrow> hash \<Rightarrow> bool \<Rightarrow> api_error + consensus_action" where
  "api_record_peer_preference alive vhash preference =
     (if alive then Inr (RecordPeerPreference vhash preference) else Inl ActionSend)"

text \<open>What becomes of a call: the channel is closed, the reply is late or dropped, or it comes.\<close>

datatype 'r call = Closed | Late | Dropped | Replied 'r

text \<open>
  Awaiting the answer for the API's timeout; the answer, if it is sent, comes after some seconds.
\<close>

definition timed_call :: "consensus_api \<Rightarrow> bool \<Rightarrow> (nat \<times> 'r option) option \<Rightarrow> 'r call" where
  "timed_call api alive answer =
     (if \<not> alive then Closed
      else case answer of
             None \<Rightarrow> Late
           | Some (delay, r) \<Rightarrow>
               if delay > ca_timeout api then Late
               else (case r of None \<Rightarrow> Dropped | Some x \<Rightarrow> Replied x))"

primrec await_reply :: "'r call \<Rightarrow> api_error + 'r" where
  "await_reply Closed = Inl ActionSend"
| "await_reply Late = Inl TimerElapsed"
| "await_reply Dropped = Inl ResponseRecv"
| "await_reply (Replied r) = Inr r"

definition api_get_vertex :: "vertex option call \<Rightarrow> api_error + vertex option" where
  "api_get_vertex = await_reply"

definition api_get_frontier :: "vertex list call \<Rightarrow> api_error + vertex list" where
  "api_get_frontier = await_reply"

record vertex_meta =
  vm_hash :: hash
  vm_height :: u64

definition vertex_meta_of :: "(vertex \<Rightarrow> hash) \<Rightarrow> vertex \<Rightarrow> vertex_meta" where
  "vertex_meta_of H vx = \<lparr>vm_hash = H vx, vm_height = vx_height vx\<rparr>"

definition api_get_frontier_meta ::
  "(vertex \<Rightarrow> hash) \<Rightarrow> vertex list call \<Rightarrow> api_error + vertex_meta list" where
  "api_get_frontier_meta H c =
     (case api_get_frontier c of Inl e \<Rightarrow> Inl e | Inr vxs \<Rightarrow> Inr (map (vertex_meta_of H) vxs))"

definition api_get_preference :: "(bool \<times> bool) option call \<Rightarrow> api_error + bool option" where
  "api_get_preference c =
     (case await_reply c of Inl e \<Rightarrow> Inl e | Inr r \<Rightarrow> Inr (map_option fst r))"

definition api_submit_vertex :: "(consensus_error + hash fset) call \<Rightarrow> api_error + hash fset" where
  "api_submit_vertex c =
     (case await_reply c of
        Inl e \<Rightarrow> Inl e
      | Inr (Inl e) \<Rightarrow> Inl (ApiTask e)
      | Inr (Inr waiting) \<Rightarrow> Inr waiting)"

section \<open>Sampling\<close>

lemma sample_indices_total:
  assumes "k \<le> card (set draws - set seen)"
  shows "\<exists>js. sample_indices k seen draws = Some js \<and> length js = k \<and> distinct js \<and>
    set js \<subseteq> set draws - set seen"
  using assms
proof (induction k seen draws rule: sample_indices.induct)
  case (3 n seen i draws)
  show ?case
  proof (cases "i \<in> set seen")
    case True
    then have "set (i # draws) - set seen = set draws - set seen" by auto
    with 3 True show ?thesis by auto
  next
    case False
    have "set (i # draws) - set seen = insert i (set draws - set (i # seen))" using False by auto
    then have "n \<le> card (set draws - set (i # seen))" using "3.prems" by (simp add: card_insert_if)
    with 3 False obtain js where "sample_indices n (i # seen) draws = Some js" "length js = n"
      "distinct js" "set js \<subseteq> set draws - set (i # seen)" by blast
    with False show ?thesis by auto
  qed
qed simp_all

text \<open>
  The generator draws below the number of validators (\<open>gen_range\<close>), and goes on until
  each index has come.
\<close>

definition fair_draws :: "nat \<Rightarrow> nat list \<Rightarrow> bool" where
  "fair_draws n draws \<longleftrightarrow> set draws = {..<n}"

definition validators_chosen :: "consensus_task \<Rightarrow> consensus_error + peer_id fset \<Rightarrow> bool" where
  "validators_chosen t r \<longleftrightarrow>
     (if length (ct_validators t) < cc_query_count (ct_config t)
      then r = Inl (NeedValidators (cc_query_count (ct_config t)) (length (ct_validators t)))
      else \<exists>S. r = Inr S \<and> fset S \<subseteq> set (ct_validators t) \<and> fcard S = cc_query_count (ct_config t))"

lemma validators_for_query_walk:
  assumes "distinct (ct_validators t)" and "fair_draws (length (ct_validators t)) draws"
  shows "\<exists>r. get_validators_for_query draws t = Some r \<and> validators_chosen t r"
proof (cases "length (ct_validators t) < cc_query_count (ct_config t)")
  case True
  then show ?thesis by (simp add: get_validators_for_query_def validators_chosen_def)
next
  case False
  let ?n = "cc_query_count (ct_config t)" and ?vs = "ct_validators t"
  obtain js where js: "sample_indices ?n [] draws = Some js" "length js = ?n" "distinct js"
    "set js \<subseteq> {..<length ?vs}"
    using sample_indices_total[of ?n draws "[]"] False assms(2) by (auto simp: fair_draws_def)
  have "run_map (slice_get ?vs) js = Some (map ((!) ?vs) js)"
    using js(4) by (intro run_map_total) auto
  moreover have "distinct (map ((!) ?vs) js)"
    using js(3,4) assms(1) by (auto simp: distinct_map intro!: inj_on_nth)
  then have "fcard (fset_of_list (map ((!) ?vs) js)) = ?n"
    using js(2) by (metis distinct_card fcard.rep_eq fset_of_list.rep_eq length_map)
  moreover have "set (map ((!) ?vs) js) \<subseteq> set ?vs" using js(4) by auto
  ultimately show ?thesis using False js(1)
    by (auto simp: get_validators_for_query_def validators_chosen_def fset_of_list.rep_eq)
qed

section \<open>Reachable states of the task\<close>

text \<open>Room for the heights of \<open>n\<close> more vertices in 64 bits.\<close>

definition room :: "nat \<Rightarrow> consensus_task \<Rightarrow> bool" where
  "room n t \<longleftrightarrow> fcard (fmdom (dag_vertex (ct_dag t))) + n < 2 ^ 64"

inductive task_reach :: "(vertex \<Rightarrow> hash) \<Rightarrow> consensus_config \<Rightarrow> consensus_task \<Rightarrow> bool"
  for H :: "vertex \<Rightarrow> hash" and cfg :: consensus_config where
  task_start: "env_ok E \<Longrightarrow> env_hash E = H \<Longrightarrow> consensus_task_new E cfg = Some (Inr t) \<Longrightarrow>
    task_reach H cfg t"
| task_action: "task_reach H cfg t \<Longrightarrow> env_ok E \<Longrightarrow> env_hash E = H \<Longrightarrow> room 1 t \<Longrightarrow>
    handle_action E rng a t = Some (t', effs) \<Longrightarrow> task_reach H cfg t'"
| task_event: "task_reach H cfg t \<Longrightarrow> 0 < ct_unread t \<Longrightarrow> internal_event t = Some t' \<Longrightarrow>
    task_reach H cfg t'"

definition task_inv :: "(vertex \<Rightarrow> hash) \<Rightarrow> consensus_config \<Rightarrow> consensus_task \<Rightarrow> bool" where
  "task_inv H cfg t \<longleftrightarrow>
     ct_config t = cfg \<and> cc_quorum_size cfg \<le> cc_query_count cfg \<and> distinct (ct_validators t) \<and>
     dag_reach H (cc_dag cfg) genesis_vertex (ct_dag t)"

lemma room_capacity: "room n t \<Longrightarrow> capacity (ct_dag t)"
  by (simp add: room_def capacity_def)

lemma try_insert_outcome_cases:
  assumes "try_insert_outcome E vx d (d', r)"
  obtains (success) w where "r = Inr w" "inserted (env_hash E vx) vx d d'"
  | (failure) e where "r = Inl e" "d' = d \<or> d' = registered (env_hash E vx) vx d"
  using assms unfolding try_insert_outcome_def fst_conv snd_conv
proof (elim exE conjE)
  fix rc
  assume "check_vertex E d vx = Some rc" and
    "case rc of Inr _ \<Rightarrow> inserted (env_hash E vx) vx d d' \<and> r = Inr (waiting_children d' (env_hash E vx))
     | Inl (MissingParents ps) \<Rightarrow> (d', r) = (registered (env_hash E vx) vx d, Inl (MissingParents ps))
     | Inl (WaitingOnParents ps) \<Rightarrow> (d', r) = (registered (env_hash E vx) vx d, Inl (WaitingOnParents ps))
     | Inl e \<Rightarrow> (d', r) = (d, Inl e)"
  note rc = this
  show thesis
  proof (cases rc)
    case (Inl e)
    with rc(2) show thesis using failure by (cases e) auto
  qed (use rc success in auto)
qed

text \<open>A vertex that is submitted adds at most one to the known ones.\<close>

lemma try_insert_room:
  assumes out: "try_insert_outcome E vx d (d', r)" and "fcard (fmdom (dag_vertex d)) + Suc n < 2 ^ 64"
  shows "fcard (fmdom (dag_vertex d')) + n < 2 ^ 64"
proof -
  have "fmdom (dag_vertex d') |\<subseteq>| finsert (env_hash E vx) (fmdom (dag_vertex d))"
    using out by (cases rule: try_insert_outcome_cases) (auto simp: inserted_def registered_def)
  then have "fcard (fmdom (dag_vertex d')) \<le> Suc (fcard (fmdom (dag_vertex d)))"
    by (metis fcard_finsert_if fcard_mono le_SucI order_trans order_refl)
  with assms(2) show ?thesis by simp
qed

text \<open>The effects of a successful submission on the pollsters.\<close>

definition polls_started ::
  "(vertex \<Rightarrow> hash) \<Rightarrow> consensus_task \<Rightarrow> vertex list \<Rightarrow> consensus_effect list \<Rightarrow> bool" where
  "polls_started H t frontier polls \<longleftrightarrow>
     (if length (ct_validators t) < cc_query_count (ct_config t) then polls = []
      else list_all2 (\<lambda>v p. \<exists>S. p = StartPollster (H v) S (cc_quorum_size (ct_config t)) \<and>
             fset S \<subseteq> set (ct_validators t) \<and> fcard S = cc_query_count (ct_config t)) frontier polls)"

lemma start_pollster_walk:
  assumes "distinct (ct_validators t)" and "\<And>h. fair_draws (length (ct_validators t)) (rng h)"
  shows "\<exists>polls. run_map (start_pollster E rng t) frontier = Some polls \<and>
    polls_started (env_hash E) t frontier (concat polls)"
proof (induction frontier)
  case Nil
  then show ?case by (simp add: polls_started_def)
next
  case (Cons v frontier)
  obtain r where "get_validators_for_query (rng (env_hash E v)) t = Some r" "validators_chosen t r"
    using validators_for_query_walk[OF assms] by blast
  with Cons show ?case
    by (auto simp: start_pollster_def polls_started_def validators_chosen_def split: if_splits)
qed

lemma try_insert_result:
  assumes "try_insert_outcome E vx d (d', r)"
  shows "check_vertex E d vx = Some (map_sum id (\<lambda>_. ()) r) \<and>
    check_outcome E d vx (map_sum id (\<lambda>_. ()) r) \<and>
    (case r of
       Inr _ \<Rightarrow> inserted (env_hash E vx) vx d d'
     | Inl e \<Rightarrow> d' = (if \<exists>ps. e = MissingParents ps \<or> e = WaitingOnParents ps
                      then registered (env_hash E vx) vx d else d))"
  using assms unfolding try_insert_outcome_def fst_conv snd_conv
proof (elim exE conjE)
  fix rc
  assume "check_vertex E d vx = Some rc" "check_outcome E d vx rc" and
    "case rc of Inr _ \<Rightarrow> inserted (env_hash E vx) vx d d' \<and> r = Inr (waiting_children d' (env_hash E vx))
     | Inl (MissingParents ps) \<Rightarrow> (d', r) = (registered (env_hash E vx) vx d, Inl (MissingParents ps))
     | Inl (WaitingOnParents ps) \<Rightarrow> (d', r) = (registered (env_hash E vx) vx d, Inl (WaitingOnParents ps))
     | Inl e \<Rightarrow> (d', r) = (d, Inl e)"
  note rc = this
  show ?thesis
  proof (cases rc)
    case (Inl e)
    with rc show ?thesis by (cases e) auto
  next
    case (Inr u)
    with rc show ?thesis by simp
  qed
qed

definition submit_effect ::
  "env \<Rightarrow> vertex \<Rightarrow> consensus_task \<Rightarrow> consensus_task \<Rightarrow> consensus_effect list \<Rightarrow> bool" where
  "submit_effect E vx t t' effs \<longleftrightarrow>
     (\<exists>d1 resp. try_insert E vx (ct_dag t) = Some (d1, resp) \<and>
        (case resp of
           Inl e \<Rightarrow> t' = t\<lparr>ct_dag := d1\<rparr> \<and> effs = [Reply (SubmitReply (Inl (ConsensusDag e)))]
         | Inr waiting \<Rightarrow> \<exists>d2 S frontier polls.
             retry_pending E (env_hashes E waiting) d1 = Some (d2, Inr S) \<and>
             env_hash E vx |\<in>| fmdom (dag_graph d2) \<and>
             get_frontier E d2 = Some frontier \<and>
             t' = t\<lparr>ct_dag := d2, ct_unread := Suc (ct_unread t)\<rparr> \<and>
             effs = polls @ [NewFrontier frontier, Reply (SubmitReply (Inr waiting))] \<and>
             polls_started (env_hash E) t frontier polls))"

lemma submit_walk:
  assumes inv: "task_inv H cfg t" and E: "env_ok E" "env_hash E = H" and room: "room (Suc n) t"
    and fair: "\<And>h. fair_draws (length (ct_validators t)) (rng h)"
  shows "\<exists>t' effs. submit_action E rng vx t = Some (t', effs) \<and> submit_effect E vx t t' effs \<and>
    task_inv H cfg t' \<and> room n t'"
proof -
  have reach: "dag_reach H (cc_dag cfg) genesis_vertex (ct_dag t)" and vals: "distinct (ct_validators t)"
    using inv by (simp_all add: task_inv_def)
  have dinv: "dag_inv H (ct_dag t)" using reach_invariant[OF reach] by blast
  have cap: "capacity (ct_dag t)" using room_capacity[OF room] .
  obtain d1 resp where ins: "try_insert E vx (ct_dag t) = Some (d1, resp)" "dag_inv H d1"
    and out: "try_insert_outcome E vx (ct_dag t) (d1, resp)"
    using try_insert_walk[OF dinv E cap, of vx] by (metis fst_conv surj_pair)
  have room1: "fcard (fmdom (dag_vertex d1)) + n < 2 ^ 64"
    using try_insert_room[OF out] room by (simp add: room_def)
  have reach1: "dag_reach H (cc_dag cfg) genesis_vertex d1"
    by (rule reach_insert[OF reach E cap ins(1)])
  show ?thesis
  proof (cases resp)
    case (Inl e)
    with ins(1) inv reach1 room1 show ?thesis
      by (auto simp: submit_action_def submit_effect_def task_inv_def room_def)
  next
    case (Inr waiting)
    have cap1: "capacity d1" using room1 by (simp add: capacity_def)
    obtain d2 S where retry: "retry_pending E (env_hashes E waiting) d1 = Some (d2, Inr S)"
      "dag_inv H d2" "extends d1 d2" "fmdom (dag_vertex d2) = fmdom (dag_vertex d1)"
      using retry_pending_walk[OF E ins(2) cap1] by blast
    obtain frontier where fr: "get_frontier E d2 = Some frontier"
      using get_frontier_walk[OF retry(2) E(1)] by blast
    obtain polls where polls: "run_map (start_pollster E rng t) frontier = Some polls"
      "polls_started (env_hash E) t frontier (concat polls)"
      using start_pollster_walk[of t rng E frontier, OF vals fair] by blast
    have "env_hash E vx |\<in>| fmdom (dag_graph d1)"
      using out Inr by (cases rule: try_insert_outcome_cases) (auto simp: inserted_def)
    then have "env_hash E vx |\<in>| fmdom (dag_graph d2)"
      using retry(3) by (auto simp: extends_def fmlookup_dom_iff)
    moreover have "dag_reach H (cc_dag cfg) genesis_vertex d2"
      by (rule reach_retry[OF reach1 E cap1 retry(1)])
    ultimately show ?thesis using ins(1) Inr retry(1,4) fr polls inv room1
      by (auto simp: submit_action_def submit_effect_def task_inv_def room_def)
  qed
qed

end
