(* ===== verification/P2p_Task.thy ===== *)
theory P2p_Task
  imports Consensus_Task
begin

text \<open>
  \<open>src/p2p/task.rs\<close>, \<open>src/p2p/api.rs\<close> and the broadcasts of
  \<open>src/p2p/broadcast.rs\<close>: the task that owns the network stack. The stack itself (the crate
  \<open>libp2p\<close>) is outside: its events are inputs, the calls on it are effects, and what it
  returns (a fresh request identifier, whether an address can be listened on) is an argument.
  Identifiers and channels are only compared; numbers stand for them. \<open>None\<close> is a crash.
\<close>

section \<open>Broadcasts\<close>

datatype message_acceptance = Accept | Ignore | Reject

record broadcast =
  bc_id :: "u8 list"
  bc_src :: peer_id
  bc_topic :: "u8 list"
  bc_data :: broadcast_data

record validation_report =
  vr_msg_id :: "u8 list"
  vr_propagation_source :: peer_id
  vr_acceptance :: message_acceptance

definition accept_message :: "broadcast \<Rightarrow> validation_report" where
  "accept_message b =
     \<lparr>vr_msg_id = bc_id b, vr_propagation_source = bc_src b, vr_acceptance = Accept\<rparr>"

definition ignore_message :: "broadcast \<Rightarrow> validation_report" where
  "ignore_message b =
     \<lparr>vr_msg_id = bc_id b, vr_propagation_source = bc_src b, vr_acceptance = Ignore\<rparr>"

definition reject_message :: "broadcast \<Rightarrow> validation_report" where
  "reject_message b =
     \<lparr>vr_msg_id = bc_id b, vr_propagation_source = bc_src b, vr_acceptance = Reject\<rparr>"

text \<open>A topic is named by the variant; its hash is left to the crate.\<close>

primrec topic_of :: "broadcast_data \<Rightarrow> string" where
  "topic_of (BroadcastVertex vx) = ''Vertex''"

section \<open>Configuration, actions and events\<close>

type_synonym u16 = "16 word"

datatype p2p_error =
    P2pBroadcast broadcast_error
  | MalformedAddress
  | Publish
  | Subscription
  | NoKnownPeers
  | UnsupportedEvent

datatype protocol = Ip4 u32 | Udp u16 | QuicV1 | Tcp u16 | P2p peer_id | OtherProtocol nat

type_synonym multiaddr = "protocol list"

datatype kad_mode = KadClient | KadServer

text \<open>Keypairs (the crate \<open>libp2p\<close>) are only passed on; numbers stand for them.\<close>

type_synonym keypair = nat

record p2p_config =
  pc_datadir :: string
  pc_identity_key :: keypair
  pc_boot_peers :: "multiaddr list"
  pc_addr :: u32
  pc_port :: u16
  pc_search_port :: bool
  pc_kad_mode_override :: "kad_mode option"

datatype p2p_event =
    GossipsubMessage broadcast
  | NewPeer peer_id
  | RequestMessage nat request

text \<open>An action that asks for an answer names the asker's channel.\<close>

datatype p2p_action =
    BlockPeer peer_id
  | Broadcast broadcast_data
  | GetLocalPeerId nat
  | ReportMessageValidity validation_report
  | SendRequest request "peer_id option" nat
  | Respond nat response

record p2p_task =
  pt_config :: p2p_config
  pt_peer_id :: "peer_id option"
  pt_pending_responses :: "(nat, nat) fmap"
  pt_pending_requests :: "(nat, nat) fmap"

definition p2p_task_new :: "p2p_config \<Rightarrow> p2p_task" where
  "p2p_task_new cfg =
     \<lparr>pt_config = cfg, pt_peer_id = None, pt_pending_responses = fmempty, pt_pending_requests = fmempty\<rparr>"

datatype p2p_effect =
    Emit p2p_event
  | Block peer_id
  | PublishBytes string "u8 list"
  | TellPeerId nat peer_id
  | ReportValidity validation_report
  | RequestOut nat peer_id request
  | ResponseOut nat response
  | Deliver nat response
  | AddAddress peer_id multiaddr

section \<open>Starting\<close>

text \<open>The search for a port: the loop counts up as far as the type goes.\<close>

lemma unat_next: "port < - 1 \<Longrightarrow> unat (port + 1 :: u16) = Suc (unat port)"
  by (simp add: word_less_nat_alt unat_word_ariths unsigned_minus_1_eq_mask mask_eq_exp_minus_1)

function search_port_from :: "(u16 \<Rightarrow> bool) \<Rightarrow> bool \<Rightarrow> u16 \<Rightarrow> u16 option" where
  "search_port_from free search port =
     (if free port then Some port
      else if search \<and> port < - 1 then search_port_from free search (port + 1)
      else None)"
  by pat_completeness auto

termination
proof (relation "measure (\<lambda>(free, search, port). 2 ^ 16 - unat port)")
  fix free :: "u16 \<Rightarrow> bool" and search and port :: u16
  assume "search \<and> port < - 1"
  then have "unat (port + 1) = Suc (unat port)" by (simp add: unat_next)
  moreover have "unat port < 2 ^ 16" using unsigned_less[of port] by simp
  ultimately show "((free, search, port + 1), free, search, port) \<in>
      measure (\<lambda>(free, search, port). 2 ^ 16 - unat port)" by simp
qed simp

declare search_port_from.simps [simp del]

definition listen_addr :: "bool \<Rightarrow> u32 \<Rightarrow> u16 \<Rightarrow> multiaddr" where
  "listen_addr quicv1 addr port =
     (if quicv1 then [Ip4 addr, Udp port, QuicV1] else [Ip4 addr, Tcp port])"

text \<open>\<open>listen_on\<close> is the stack's answer for an address; the result is the port bound, if any.\<close>

definition start_listener :: "(multiaddr \<Rightarrow> bool) \<Rightarrow> bool \<Rightarrow> p2p_config \<Rightarrow> u16 option" where
  "start_listener listen_on quicv1 cfg =
     search_port_from (\<lambda>port. listen_on (listen_addr quicv1 (pc_addr cfg) port))
       (pc_search_port cfg) (pc_port cfg)"

text \<open>
  The boot peers: the addresses before a malformed one have been added when the error returns.
  \<open>bootstrap_ok\<close> is the answer of the routing table to \<open>bootstrap\<close>.
\<close>

fun join_dht :: "bool \<Rightarrow> multiaddr list \<Rightarrow> p2p_effect list \<times> (p2p_error + unit)" where
  "join_dht bootstrap_ok [] = ([], if bootstrap_ok then Inr () else Inl NoKnownPeers)"
| "join_dht bootstrap_ok (addr # addrs) =
     (case rev addr of
        P2p peer # rest \<Rightarrow>
          (let (effs, r) = join_dht bootstrap_ok addrs in (AddAddress peer (rev rest) # effs, r))
      | _ \<Rightarrow> ([], Inl MalformedAddress))"

section \<open>Handlers\<close>

datatype gossip_event = GossipMessage peer_id "u8 list" "u8 list" "u8 list" | OtherGossip

text \<open>A message that does not decode, or whose vertex is not sane, is dropped without a report.\<close>

definition handle_gossipsub ::
  "int \<Rightarrow> (u8 list \<Rightarrow> proto_broadcast_msg option) \<Rightarrow> gossip_event \<Rightarrow> p2p_event option" where
  "handle_gossipsub now decode ev =
     (case ev of
        GossipMessage src msg_id topic bytes \<Rightarrow>
          (case from_wire (broadcast_from_protobuf now) decode BcProstDecode True bytes of
             Inl _ \<Rightarrow> None
           | Inr data \<Rightarrow>
               Some (GossipsubMessage \<lparr>bc_id = msg_id, bc_src = src, bc_topic = topic, bc_data = data\<rparr>))
      | OtherGossip \<Rightarrow> None)"

datatype rr_event = RrRequest nat request nat | RrResponse nat response | RrOther

definition handle_request_response ::
  "rr_event \<Rightarrow> p2p_task \<Rightarrow> p2p_task \<times> p2p_effect list \<times> p2p_event option" where
  "handle_request_response ev t =
     (case ev of
        RrRequest rid request channel \<Rightarrow>
          (t\<lparr>pt_pending_responses := fmupd rid channel (pt_pending_responses t)\<rparr>, [],
           Some (RequestMessage rid request))
      | RrResponse rid response \<Rightarrow>
          (t\<lparr>pt_pending_requests := fmdrop rid (pt_pending_requests t)\<rparr>,
           (case fmlookup (pt_pending_requests t) rid of
              None \<Rightarrow> [] | Some ch \<Rightarrow> [Deliver ch response]), None)
      | RrOther \<Rightarrow> (t, [], None))"

datatype identify_event = Identified peer_id "multiaddr list" | OtherIdentify

definition handle_identify :: "identify_event \<Rightarrow> p2p_effect list \<times> p2p_event option" where
  "handle_identify ev =
     (case ev of
        Identified peer addrs \<Rightarrow> (map (AddAddress peer) addrs, Some (NewPeer peer))
      | OtherIdentify \<Rightarrow> ([], None))"

text \<open>
  \<open>rid\<close> is the identifier the stack gives to a request sent now, \<open>listening\<close> whether
  the asker of \<open>GetLocalPeerId\<close> still waits for the answer.
\<close>

definition handle_inbound_action ::
  "(proto_broadcast_msg \<Rightarrow> u8 list option) \<Rightarrow> nat \<Rightarrow> bool \<Rightarrow> p2p_action \<Rightarrow> p2p_task \<Rightarrow>
     (p2p_task \<times> p2p_effect list) option" where
  "handle_inbound_action encode rid listening a t =
     (case a of
        BlockPeer peer \<Rightarrow> Some (t, [Block peer])
      | Broadcast message \<Rightarrow>
          Some (t, case to_wire broadcast_to_protobuf encode BcProstEncode True message of
                     Inl _ \<Rightarrow> [] | Inr bytes \<Rightarrow> [PublishBytes (topic_of message) bytes])
      | GetLocalPeerId ch \<Rightarrow> do {
          peer \<leftarrow> pt_peer_id t;
          if listening then Some (t, [TellPeerId ch peer]) else None }
      | ReportMessageValidity report \<Rightarrow> Some (t, [ReportValidity report])
      | SendRequest request opt_peer ch \<Rightarrow> do {
          peer \<leftarrow> opt_peer;
          Some (t\<lparr>pt_pending_requests := fmupd rid ch (pt_pending_requests t)\<rparr>,
                [RequestOut rid peer request]) }
      | Respond request_id response \<Rightarrow>
          Some (t\<lparr>pt_pending_responses := fmdrop request_id (pt_pending_responses t)\<rparr>,
                case fmlookup (pt_pending_responses t) request_id of
                  None \<Rightarrow> [] | Some ch \<Rightarrow> [ResponseOut ch response]))"

section \<open>The loop\<close>

datatype p2p_input =
    SwarmGossip gossip_event
  | SwarmIdentify identify_event
  | SwarmRequests rr_event
  | SwarmOther
  | Inbound p2p_action nat bool
  | ActionsClosed

record p2p_env =
  pe_now :: int
  pe_encode :: "proto_broadcast_msg \<Rightarrow> u8 list option"
  pe_decode :: "u8 list \<Rightarrow> proto_broadcast_msg option"
  pe_subscribed :: bool

text \<open>Emitting an event without a subscriber is a crash.\<close>

definition emit :: "p2p_env \<Rightarrow> p2p_event option \<Rightarrow> p2p_effect list option" where
  "emit P ev =
     (case ev of None \<Rightarrow> Some [] | Some e \<Rightarrow> if pe_subscribed P then Some [Emit e] else None)"

text \<open>One turn of the loop; the last component says whether it goes on.\<close>

definition p2p_step ::
  "p2p_env \<Rightarrow> p2p_input \<Rightarrow> p2p_task \<Rightarrow> (p2p_task \<times> p2p_effect list \<times> bool) option" where
  "p2p_step P inp t =
     (case inp of
        SwarmGossip ev \<Rightarrow> do {
          out \<leftarrow> emit P (handle_gossipsub (pe_now P) (pe_decode P) ev);
          Some (t, out, True) }
      | SwarmIdentify ev \<Rightarrow> do {
          out \<leftarrow> emit P (snd (handle_identify ev));
          Some (t, fst (handle_identify ev) @ out, True) }
      | SwarmRequests ev \<Rightarrow>
          (case handle_request_response ev t of
             (t', effs, opt_event) \<Rightarrow> do {
               out \<leftarrow> emit P opt_event;
               Some (t', effs @ out, True) })
      | SwarmOther \<Rightarrow> Some (t, [], True)
      | Inbound a rid listening \<Rightarrow> do {
          (t', effs) \<leftarrow> handle_inbound_action (pe_encode P) rid listening a t;
          Some (t', effs, True) }
      | ActionsClosed \<Rightarrow> Some (t, [], False))"

text \<open>
  The loop over a sequence of inputs. The last component says whether it goes on: after the input
  that ends it, no other is taken.
\<close>

fun p2p_run ::
  "p2p_env \<Rightarrow> p2p_input list \<Rightarrow> p2p_task \<Rightarrow> (p2p_task \<times> p2p_effect list \<times> bool) option" where
  "p2p_run P [] t = Some (t, [], True)"
| "p2p_run P (inp # inps) t = do {
     (t', effs, continue) \<leftarrow> p2p_step P inp t;
     if continue
     then do { (t'', effs', continue') \<leftarrow> p2p_run P inps t'; Some (t'', effs @ effs', continue') }
     else Some (t', effs, False) }"

section \<open>Calls from other tasks\<close>

text \<open>Each call sends one action; it fails only where the task is gone (\<open>alive\<close> is false).\<close>

datatype p2p_api_error = P2pActionSend p2p_action | P2pResponseRecv

definition send_action :: "bool \<Rightarrow> p2p_action \<Rightarrow> p2p_api_error + p2p_action" where
  "send_action alive a = (if alive then Inr a else Inl (P2pActionSend a))"

definition api_report_message_validity :: "bool \<Rightarrow> validation_report \<Rightarrow> p2p_api_error + p2p_action" where
  "api_report_message_validity alive report = send_action alive (ReportMessageValidity report)"

definition api_broadcast_vertex :: "bool \<Rightarrow> vertex \<Rightarrow> p2p_api_error + p2p_action" where
  "api_broadcast_vertex alive vx = send_action alive (Broadcast (BroadcastVertex vx))"

definition api_request :: "bool \<Rightarrow> request \<Rightarrow> nat \<Rightarrow> peer_id option \<Rightarrow> p2p_api_error + p2p_action" where
  "api_request alive req ch opt_peer = send_action alive (SendRequest req opt_peer ch)"

definition api_respond :: "bool \<Rightarrow> nat \<Rightarrow> response \<Rightarrow> p2p_api_error + p2p_action" where
  "api_respond alive rid response = send_action alive (Respond rid response)"

definition api_block_peer :: "bool \<Rightarrow> peer_id \<Rightarrow> p2p_api_error + p2p_action" where
  "api_block_peer alive peer = send_action alive (BlockPeer peer)"

section \<open>Lemmas\<close>

lemma search_port_from_result:
  "case search_port_from free search port of
     Some p \<Rightarrow> free p \<and> port \<le> p \<and> (\<forall>q. port \<le> q \<and> q < p \<longrightarrow> \<not> free q) \<and> (search \<or> p = port)
   | None \<Rightarrow> \<not> free port \<and> (search \<longrightarrow> (\<forall>q. port \<le> q \<longrightarrow> \<not> free q))"
proof (induction free search port rule: search_port_from.induct)
  case (1 free search port)
  show ?case
  proof (cases "\<not> free port \<and> search \<and> port < - 1")
    case False
    have "q = port" if "port \<le> q" "\<not> port < - 1" for q
      using that by (metis antisym word_order.extremum not_le_imp_less)
    with False show ?thesis by (subst search_port_from.simps) auto
  next
    case True
    then have nxt: "unat (port + 1) = Suc (unat port)" by (simp add: unat_next)
    then have step: "port \<le> port + 1" by (simp add: word_le_nat_alt)
    have above: "port = q \<or> port + 1 \<le> q" if "port \<le> q" for q
      using that nxt unsigned_word_eqI[where 'a = nat, of port q] by (auto simp: word_le_nat_alt)
    have eq: "search_port_from free search port = search_port_from free search (port + 1)"
      using True by (subst search_port_from.simps) simp
    show ?thesis
    proof (cases "search_port_from free search (port + 1)")
      case None
      with 1 True eq above show ?thesis by auto
    next
      case (Some p)
      with 1 True have "free p" "port + 1 \<le> p" "\<forall>q. port + 1 \<le> q \<and> q < p \<longrightarrow> \<not> free q" by auto
      moreover from this(2) have "port \<le> p" by (rule order_trans[OF step])
      ultimately show ?thesis using Some True eq above by auto
    qed
  qed
qed

end
