(* ===== verification/Pollster.thy ===== *)
theory Pollster
  imports P2p_Task
begin

text \<open>
  \<open>src/consensus/pollster.rs\<close>: one poll of a set of peers about one vertex. The responses
  come in an inbox, in the order of their arrival; \<open>None\<close> there is the closed channel. The
  result \<open>Waiting\<close> is a poll that has not ended when the inbox does; a crash is a request the
  peer-to-peer task does not take, or the \<open>todo!\<close> on a response that answers no such request.
\<close>

record pollster =
  po_vhash :: hash
  po_peers :: "peer_id fset"
  po_quorum :: nat

definition pollster_new :: "hash \<Rightarrow> peer_id fset \<Rightarrow> nat \<Rightarrow> pollster" where
  "pollster_new vhash peers quorum = \<lparr>po_vhash = vhash, po_peers = peers, po_quorum = quorum\<rparr>"

declare pollster_new_def [simp]

datatype poll_result = Waiting | Recorded bool

fun poll_loop :: "nat \<Rightarrow> nat \<Rightarrow> nat \<Rightarrow> response option list \<Rightarrow> poll_result option" where
  "poll_loop quorum count_for count_against inbox =
     (if count_for < quorum \<and> count_against < quorum then
        (case inbox of
           [] \<Rightarrow> Some Waiting
         | Some (ResponsePreference pref) # rest \<Rightarrow>
             if pref then poll_loop quorum (count_for + 1) count_against rest
             else poll_loop quorum count_for (count_against + 1) rest
         | Some (ResponseError _) # rest \<Rightarrow> poll_loop quorum count_for (count_against + 1) rest
         | Some (ResponseVertex _) # rest \<Rightarrow> None
         | None # rest \<Rightarrow> Some (Recorded (count_for \<ge> quorum)))
      else Some (Recorded (count_for \<ge> quorum)))"

declare poll_loop.simps [simp del]

text \<open>
  The requests to the peers, in the order \<open>order\<close> iterates over them, for answers on the channel
  \<open>ch\<close>. \<open>alive\<close> says whether the peer-to-peer task still takes the action; one it does not
  take is a crash.
\<close>

definition poll_requests ::
  "(peer_id fset \<Rightarrow> peer_id list) \<Rightarrow> (peer_id \<Rightarrow> bool) \<Rightarrow> nat \<Rightarrow> pollster \<Rightarrow> p2p_action list option" where
  "poll_requests order alive ch p =
     run_map (\<lambda>peer. case api_request (alive peer) (GetPreference (po_vhash p)) ch (Some peer) of
         Inl _ \<Rightarrow> None | Inr act \<Rightarrow> Some act) (order (po_peers p))"

text \<open>A poll: what it asks the network for, and the action that records the result, once there is one.\<close>

definition pollster_run ::
  "(peer_id fset \<Rightarrow> peer_id list) \<Rightarrow> (peer_id \<Rightarrow> bool) \<Rightarrow> nat \<Rightarrow> pollster \<Rightarrow> response option list \<Rightarrow>
     (p2p_action list \<times> consensus_action option) option" where
  "pollster_run order alive ch p inbox = do {
     asked \<leftarrow> poll_requests order alive ch p;
     r \<leftarrow> poll_loop (po_quorum p) 0 0 inbox;
     Some (asked,
       case r of Waiting \<Rightarrow> None | Recorded b \<Rightarrow> Some (RecordPeerPreference (po_vhash p) b)) }"

lemma poll_requests_alive [simp]:
  "poll_requests order (\<lambda>_. True) ch p =
     Some (map (\<lambda>peer. SendRequest (GetPreference (po_vhash p)) (Some peer) ch) (order (po_peers p)))"
  by (simp add: poll_requests_def api_request_def send_action_def run_map_total)

text \<open>A poll crashes before it counts anything exactly if a request finds the task gone.\<close>

lemma poll_requests_crash:
  "poll_requests order alive ch p = None \<longleftrightarrow> (\<exists>peer \<in> set (order (po_peers p)). \<not> alive peer)"
proof -
  have "run_map (\<lambda>peer. case api_request (alive peer) req ch (Some peer) of
      Inl _ \<Rightarrow> None | Inr act \<Rightarrow> Some act) peers = None \<longleftrightarrow> (\<exists>peer \<in> set peers. \<not> alive peer)"
    for req peers
    by (induction peers) (auto simp: api_request_def send_action_def bind_eq_None_conv)
  then show ?thesis by (simp add: poll_requests_def)
qed

section \<open>Counting\<close>

text \<open>An error counts against the vertex; a vertex is no answer to a preference request.\<close>

definition legal_answer :: "response \<Rightarrow> bool" where
  "legal_answer r \<longleftrightarrow> (case r of ResponseVertex _ \<Rightarrow> False | _ \<Rightarrow> True)"

definition answers_for :: "response list \<Rightarrow> nat" where
  "answers_for rs = length (filter (\<lambda>r. r = ResponsePreference True) rs)"

definition answers_against :: "response list \<Rightarrow> nat" where
  "answers_against rs = length (filter (\<lambda>r. legal_answer r \<and> r \<noteq> ResponsePreference True) rs)"

lemma answers_simps [simp]:
  "answers_for [] = 0" "answers_against [] = 0"
  "answers_for (ResponsePreference b # rs) = (if b then 1 else 0) + answers_for rs"
  "answers_against (ResponsePreference b # rs) = (if b then 0 else 1) + answers_against rs"
  "answers_for (ResponseError c # rs) = answers_for rs"
  "answers_against (ResponseError c # rs) = 1 + answers_against rs"
  "legal_answer (ResponsePreference b)" "legal_answer (ResponseError c)" "\<not> legal_answer (ResponseVertex vx)"
  by (simp_all add: answers_for_def answers_against_def legal_answer_def)

lemma answers_total: "list_all legal_answer rs \<Longrightarrow> answers_for rs + answers_against rs = length rs"
proof (induction rs)
  case (Cons r rs)
  then show ?case by (cases r) auto
qed simp

lemma poll_loop_decided:
  "\<not> (f < q \<and> a < q) \<Longrightarrow> poll_loop q f a inbox = Some (Recorded (q \<le> f))"
  by (subst poll_loop.simps) (simp only: if_False)

lemma poll_loop_open:
  assumes "f < q" "a < q"
  shows "poll_loop q f a [] = Some Waiting"
    "poll_loop q f a (Some (ResponsePreference b) # rest) =
       (if b then poll_loop q (f + 1) a rest else poll_loop q f (a + 1) rest)"
    "poll_loop q f a (Some (ResponseError c) # rest) = poll_loop q f (a + 1) rest"
    "poll_loop q f a (Some (ResponseVertex vx) # rest) = None"
  using assms by (subst poll_loop.simps, (simp; fail))+

text \<open>The whole poll, by the counts of the answers.\<close>

definition poll_spec :: "nat \<Rightarrow> nat \<Rightarrow> nat \<Rightarrow> response list \<Rightarrow> poll_result option \<Rightarrow> bool" where
  "poll_spec q f a rs r \<longleftrightarrow>
     r \<noteq> None \<and>
     (r = Some Waiting \<longrightarrow> f + answers_for rs < q \<and> a + answers_against rs < q) \<and>
     (r = Some (Recorded True) \<longrightarrow> q \<le> f + answers_for rs) \<and>
     (r = Some (Recorded False) \<longrightarrow> q \<le> a + answers_against rs)"

lemma poll_loop_spec:
  assumes "list_all legal_answer rs"
  shows "poll_spec q f a rs (poll_loop q f a (map Some rs))"
  using assms
proof (induction rs arbitrary: f a)
  case Nil
  then show ?case
    by (cases "f < q \<and> a < q") (auto simp: poll_loop_open poll_loop_decided poll_spec_def)
next
  case (Cons r rs)
  show ?case
  proof (cases "f < q \<and> a < q")
    case False
    then show ?thesis by (auto simp: poll_loop_decided poll_spec_def)
  next
    case True
    with Cons.prems Cons.IH[of "f + 1" a] Cons.IH[of f "a + 1"] show ?thesis
      by (cases r) (auto simp: poll_loop_open poll_spec_def)
  qed
qed

text \<open>
  C29: A poll whose peers answer with preferences or errors never crashes. It goes on exactly while
  fewer than a quorum are for and fewer than a quorum (errors included) are against; what it records
  has a quorum behind it. \<open>2 * quorum - 1\<close> answers always end it, and where just so many peers
  are polled, the result does not depend on the order in which they answer. Fewer answers may leave
  it waiting, for there is no timeout.
\<close>

theorem poll_needs_quorum:
  assumes "list_all legal_answer rs"
  shows "\<exists>r. poll_loop q 0 0 (map Some rs) = Some r \<and>
    (r = Waiting \<longleftrightarrow> answers_for rs < q \<and> answers_against rs < q) \<and>
    (r = Recorded True \<longrightarrow> q \<le> answers_for rs) \<and>
    (r = Recorded False \<longrightarrow> q \<le> answers_against rs) \<and>
    (2 * q - 1 \<le> length rs \<longrightarrow> r \<noteq> Waiting) \<and>
    (length rs = 2 * q - 1 \<longrightarrow> r = Recorded (q \<le> answers_for rs))"
proof -
  note spec = poll_loop_spec[OF assms, of q 0 0] and total = answers_total[OF assms]
  obtain r where r: "poll_loop q 0 0 (map Some rs) = Some r"
    using spec by (cases "poll_loop q 0 0 (map Some rs)") (simp_all add: poll_spec_def)
  show ?thesis
  proof (cases r)
    case Waiting
    then have "answers_for rs < q" "answers_against rs < q" using spec r by (simp_all add: poll_spec_def)
    then have "length rs < 2 * q - 1" using total by linarith
    with Waiting r \<open>answers_for rs < q\<close> \<open>answers_against rs < q\<close> show ?thesis by simp
  next
    case (Recorded b)
    with spec r total show ?thesis by (cases b) (auto simp: poll_spec_def poll_loop_decided)
  qed
qed

theorem poll_needs_quorum_witness:
  "poll_loop 2 0 0 (map Some [ResponsePreference True, ResponseError Unknown, ResponsePreference True]) =
     Some (Recorded True)"
  using poll_needs_quorum[of "[ResponsePreference True, ResponseError Unknown, ResponsePreference True]" 2]
  by simp

text \<open>The crash: a peer that answers the request for its preference with a vertex.\<close>

lemma poll_crashes:
  assumes "f < q" "a < q"
  shows "poll_loop q f a (Some (ResponseVertex vx) # rest) = None"
  using poll_loop_open(4)[OF assms] .

end
