(* ===== verification/Dag_Support.thy ===== *)
theory Dag_Support
  imports Dag_Reach
begin

text \<open>
  What an acceptance rests on. A vertex commits to its own constraint, to its parents' orderings and
  to those of its ancestors. In every reachable state the counter of a constraint is at most the
  number of vertices that commit to it and carry a chit, so that no constraint is accepted without as
  many positive results as its threshold demands, each for another vertex.
\<close>

section \<open>Commitment\<close>

definition commits :: "dag \<Rightarrow> hash \<Rightarrow> constraint \<Rightarrow> bool" where
  "commits d g c \<longleftrightarrow>
     c = unity g \<or>
     (\<exists>k v. (k, g) \<in> (parent_rel d)\<^sup>* \<and> fmlookup (dag_graph d) k = Some v \<and> c \<in> set (parent_constraints v))"

definition supporters :: "dag \<Rightarrow> constraint \<Rightarrow> hash set" where
  "supporters d c = {g. g |\<in>| fmdom (dag_graph d) \<and> chit_of d (unity g) \<and> commits d g c}"

lemma finite_supporters [simp, intro]: "finite (supporters d c)"
  by (rule finite_subset[of _ "fset (fmdom (dag_graph d))"]) (auto simp: supporters_def)

text \<open>A vertex commits to another vertex exactly if that is an ancestor of it, or itself.\<close>

lemma commits_unity: "commits d g (unity h) \<longleftrightarrow> (h, g) \<in> (parent_rel d)\<^sup>*"
proof
  assume "commits d g (unity h)"
  then consider "h = g"
    | k v where "(k, g) \<in> (parent_rel d)\<^sup>*" "fmlookup (dag_graph d) k = Some v" "h \<in> set (vx_parents v)"
    by (auto simp: commits_def dest: parent_constraints_ends)
  then show "(h, g) \<in> (parent_rel d)\<^sup>*"
  proof cases
    case 2
    then have "(h, k) \<in> parent_rel d" by (simp add: parent_rel_def parents_of_eq)
    from this 2(1) show ?thesis by (rule converse_rtrancl_into_rtrancl)
  qed simp
next
  assume "(h, g) \<in> (parent_rel d)\<^sup>*"
  then show "commits d g (unity h)"
  proof (cases rule: converse_rtranclE)
    case (step k)
    from step(1) obtain v where "fmlookup (dag_graph d) k = Some v" "h \<in> set (vx_parents v)"
      by (auto simp: parent_rel_def parents_of_def split: option.splits)
    with step(2) show ?thesis unfolding commits_def using unity_in_parent_constraints by blast
  qed (simp add: commits_def)
qed

text \<open>The constraints a recorded result for \<open>g\<close> votes for are ones \<open>g\<close> commits to.\<close>

lemma ancestor_constraint_commits:
  assumes "fmlookup (dag_graph d) g = Some vx"
    and "ancestor_constraint d (\<lambda>p k. (k, p) \<in> (parent_rel d)\<^sup>*) vx c"
  shows "commits d g c"
proof -
  consider "c \<in> set (parent_constraints vx)"
    | p k v where "p \<in> set (vx_parents vx)" "(k, p) \<in> (parent_rel d)\<^sup>*"
      "fmlookup (dag_graph d) k = Some v" "c \<in> set (parent_constraints v)"
    using assms(2) unfolding ancestor_constraint_def by blast
  then show ?thesis
  proof cases
    case 2
    have "(p, g) \<in> parent_rel d" using 2(1) assms(1) by (simp add: parent_rel_def parents_of_eq)
    with 2(2) have "(k, g) \<in> (parent_rel d)\<^sup>*" by (rule rtrancl_into_rtrancl)
    with 2(3,4) show ?thesis unfolding commits_def by blast
  qed (use assms(1) in \<open>auto simp: commits_def\<close>)
qed

lemma commits_cong: "dag_graph d' = dag_graph d \<Longrightarrow> commits d' = commits d"
  by (simp add: commits_def parent_rel_graph fun_eq_iff)

section \<open>The invariant\<close>

text \<open>The votes an acceptance takes.\<close>

definition votes_needed :: "dag_config \<Rightarrow> constraint \<Rightarrow> nat" where
  "votes_needed cfg c =
     (if is_unity c then cfg_thresh_safe_early_commit cfg else cfg_thresh_accepted cfg)"

definition backed :: "hash \<Rightarrow> dag \<Rightarrow> bool" where
  "backed g0 d \<longleftrightarrow>
     (\<forall>c. count_of d c \<le> card (supporters d c)) \<and>
     (\<forall>c. decision_of d c = Some True \<longrightarrow> c \<noteq> unity g0 \<longrightarrow>
        votes_needed (dag_config d) c \<le> card (supporters d c)) \<and>
     (\<forall>g. g |\<in>| fmdom (dag_pending_query d) \<longrightarrow> \<not> chit_of d (unity g))"

lemma backedD:
  assumes "backed g0 d"
  shows "count_of d c \<le> card (supporters d c)"
    and "decision_of d c = Some True \<Longrightarrow> c \<noteq> unity g0 \<Longrightarrow>
      votes_needed (dag_config d) c \<le> card (supporters d c)"
    and "g |\<in>| fmdom (dag_pending_query d) \<Longrightarrow> \<not> chit_of d (unity g)"
  using assms by (simp_all add: backed_def)

section \<open>Insertions\<close>

lemma untracked_no_votes: "\<not> tracked d c \<Longrightarrow> count_of d c = 0 \<and> \<not> chit_of d c \<and> decision_of d c = None"
  by (simp add: tracked_def count_of_def chit_of_def decision_of_def split: option.splits)

lemma extends_rel: "extends d d' \<Longrightarrow> parent_rel d \<subseteq> parent_rel d'"
  by (auto simp: extends_def parent_rel_def parents_of_def split: option.splits)

lemma extends_commits:
  assumes "extends d d'" "commits d g c"
  shows "commits d' g c"
  using assms rtrancl_mono[OF extends_rel[OF assms(1)]]
  unfolding commits_def extends_def by blast

lemma extends_votes:
  assumes "extends d d'"
  shows "count_of d' c = count_of d c" "chit_of d' c = chit_of d c"
    "decision_of d' c = Some True \<longleftrightarrow> decision_of d c = Some True"
proof -
  have g: "state_grows d d'" using assms by (simp add: extends_def)
  show "count_of d' c = count_of d c" "chit_of d' c = chit_of d c"
    "decision_of d' c = Some True \<longleftrightarrow> decision_of d c = Some True"
    using state_grows_accessors[OF g, of c] state_grows_new[OF g, of c] untracked_no_votes[of d c]
    by (cases "tracked d c"; simp)+
qed

lemma backed_extends:
  assumes inv: "dag_inv H d" and ext: "extends d d'" and b: "backed g0 d"
  shows "backed g0 d'"
proof -
  have "supporters d c \<subseteq> supporters d' c" for c
    using extends_graph[OF ext] extends_commits[OF ext] extends_votes(2)[OF ext]
    by (auto simp: supporters_def)
  then have card: "card (supporters d c) \<le> card (supporters d' c)" for c
    by (simp add: card_mono)
  have "\<not> chit_of d' (unity g)" if "g |\<in>| fmdom (dag_pending_query d')" for g
  proof (cases "g |\<in>| fmdom (dag_graph d)")
    case True
    then have "g |\<in>| fmdom (dag_pending_query d)" using ext that by (auto simp: extends_def)
    then show ?thesis using backedD(3)[OF b] extends_votes(2)[OF ext] by simp
  next
    case False
    have "\<not> tracked d (unity g)"
    proof
      assume "tracked d (unity g)"
      then have "unity g \<in> constraints_in (dag_graph d)"
        using dag_invD(3)[OF inv] by (simp add: state_ok_def)
      with False show False using constraints_in_ends[OF dag_invD(1)[OF inv]] by fastforce
    qed
    then show ?thesis using untracked_no_votes extends_votes(2)[OF ext] by blast
  qed
  moreover have "dag_config d' = dag_config d" using ext by (simp add: extends_def)
  ultimately show ?thesis
    using b card extends_votes(1,3)[OF ext] unfolding backed_def by (metis le_trans)
qed

section \<open>Recorded results\<close>

text \<open>A round of votes, each constraint at most once, for constraints with one supporter to spare.\<close>

lemma next_count_le: "next_count d c \<le> Suc (count_of d c)"
  by (simp add: next_count_def)

lemma accepts_needed:
  assumes "accepts d c" "cfg_thresh_safe_early_commit (dag_config d) \<le> cfg_thresh_accepted (dag_config d)"
  shows "votes_needed (dag_config d) c \<le> next_count d c"
  using assms by (auto simp: accepts_def votes_needed_def)

lemma voted_backed:
  assumes "voted d cs d'" "distinct cs"
    and "cfg_thresh_safe_early_commit (dag_config d) \<le> cfg_thresh_accepted (dag_config d)"
    and "\<And>c. count_of d c + (if c \<in> set cs then 1 else 0) \<le> (N c :: nat)"
    and "\<And>c. decision_of d c = Some True \<Longrightarrow> c \<noteq> unity g0 \<Longrightarrow> votes_needed (dag_config d) c \<le> N c"
  shows "(\<forall>c. count_of d' c \<le> N c) \<and>
    (\<forall>c. decision_of d' c = Some True \<longrightarrow> c \<noteq> unity g0 \<longrightarrow> votes_needed (dag_config d) c \<le> N c)"
  using assms
proof (induction rule: voted.induct)
  case (voted_Nil d)
  then show ?case by simp
next
  case (voted_Cons d c e cs f)
  have v: "votes_only d e"
    and cnt: "\<And>x. count_of e x = (if x = c then next_count d c else count_of d x)"
    and dec: "\<And>x. decision_of e x = Some True \<Longrightarrow> accepts d c \<and> x = c \<or> decision_of d x = Some True"
    using voted_Cons(1) by (auto simp: vote_effect_def split: if_splits)
  have cfg: "dag_config e = dag_config d" by (rule votes_only_fields(1)[OF v])
  have c: "next_count d c \<le> N c"
    using next_count_le[of d c] voted_Cons.prems(3)[of c] by simp
  have "count_of e x + (if x \<in> set cs then 1 else 0) \<le> N x" for x
    using voted_Cons.prems(1) voted_Cons.prems(3)[of x] c by (auto simp: cnt split: if_splits)
  moreover have "votes_needed (dag_config e) x \<le> N x"
    if "decision_of e x = Some True" "x \<noteq> unity g0" for x
    using dec[OF that(1)] voted_Cons.prems(4)[OF _ that(2)] accepts_needed[OF _ voted_Cons.prems(2)] c
    by (auto simp: cfg intro: le_trans)
  ultimately show ?case using voted_Cons.IH voted_Cons.prems(1,2) by (simp add: cfg)
qed

text \<open>No vertex is its own ancestor, so its own constraint is not among its ancestors'.\<close>

lemma own_not_ancestor:
  assumes inv: "dag_inv H d" and v: "fmlookup (dag_graph d) g = Some vx"
  shows "\<not> ancestor_constraint d (\<lambda>p k. (k, p) \<in> (parent_rel d)\<^sup>*) vx (unity g)"
proof
  assume "ancestor_constraint d (\<lambda>p k. (k, p) \<in> (parent_rel d)\<^sup>*) vx (unity g)"
  then obtain k where k: "(g, k) \<in> parent_rel d" "(k, g) \<in> (parent_rel d)\<^sup>*"
    unfolding ancestor_constraint_def
  proof (elim disjE bexE exE conjE)
    assume "unity g \<in> set (parent_constraints vx)"
    then have "g \<in> set (vx_parents vx)" using parent_constraints_ends by fastforce
    then have "(g, g) \<in> parent_rel d" using v by (simp add: parent_rel_def parents_of_eq)
    then show thesis using that by blast
  next
    fix p k w
    assume p: "p \<in> set (vx_parents vx)" "(k, p) \<in> (parent_rel d)\<^sup>*" "fmlookup (dag_graph d) k = Some w"
      "unity g \<in> set (parent_constraints w)"
    have "g \<in> set (vx_parents w)" using p(4) parent_constraints_ends by fastforce
    then have "(g, k) \<in> parent_rel d" using p(3) by (simp add: parent_rel_def parents_of_eq)
    moreover have "(p, g) \<in> parent_rel d" using p(1) v by (simp add: parent_rel_def parents_of_eq)
    with p(2) have "(k, g) \<in> (parent_rel d)\<^sup>*" by (rule rtrancl_into_rtrancl)
    ultimately show thesis using that by blast
  qed
  then have "(g, g) \<in> (parent_rel d)\<^sup>+" by (rule rtrancl_into_trancl2)
  then show False using parent_rel_height[OF inv] by blast
qed

text \<open>
  The result for \<open>g\<close> gives each constraint voted for one supporter more, since \<open>g\<close> was
  pending and had no chit, so that its counter may go up by one.
\<close>

lemma supporters_award:
  assumes g: "g |\<in>| fmdom (dag_graph d)" and no: "\<not> chit_of d (unity g)"
    and same: "dag_graph d1 = dag_graph d" and chits: "\<And>x. chit_of d1 x = (x = unity g \<or> chit_of d x)"
  shows "card (supporters d c) + (if commits d g c then 1 else 0) = card (supporters d1 c)"
proof -
  have "supporters d1 c = (if commits d g c then insert g (supporters d c) else supporters d c)"
    using g by (auto simp: supporters_def chits same commits_cong[OF same])
  moreover have "g \<notin> supporters d c" using no by (simp add: supporters_def)
  ultimately show ?thesis by simp
qed

lemma supporters_mono:
  assumes "dag_graph d1 = dag_graph d" "\<And>x. chit_of d x \<Longrightarrow> chit_of d1 x"
  shows "card (supporters d c) \<le> card (supporters d1 c)"
  using assms by (intro card_mono) (auto simp: supporters_def commits_cong[OF assms(1)])

lemma backed_record:
  assumes inv: "dag_inv H d" and b: "backed g0 d"
    and cfg: "cfg_thresh_safe_early_commit (dag_config d) \<le> cfg_thresh_accepted (dag_config d)"
    and p: "fmlookup (dag_pending_query d) g = Some vx" and eff: "record_effect E g vx pos d d'"
  shows "backed g0 d'"
proof -
  note graph = inv_pending(1)[OF inv p]
  have no: "\<not> chit_of d (unity g)" using backedD(3)[OF b] p by (simp add: fmdomI)
  obtain d1 cs where v: "votes_only (without_pending g d) d1"
    and chits: "\<And>x. chit_of d1 x = (pos \<and> x = unity g \<or> chit_of d x)"
    and d1: "\<And>x. decision_of d1 x = decision_of d x \<and> count_of d1 x = count_of d x \<and>
        preferred_of d1 x = preferred_of d x"
    and spec: "active_constraints_spec d1 vx (Inr cs)"
    and eff: "if pos then voted d1 (cs @ [unity g]) d' else reset_effect (set (cs @ [unity g])) d1 d'"
    using eff unfolding record_effect_def by metis
  note f1 = votes_only_fields[OF v]
  have g1: "dag_graph d1 = dag_graph d" using f1(3) by simp
  have inv1: "dag_inv H d1" by (rule dag_inv_votes[OF without_pending_inv[OF inv] v])
  have vs: "votes_only d1 d'"
    using eff voted_votes_only by (auto simp: reset_effect_def split: if_splits)
  note f' = votes_only_fields[OF vs]
  have chits': "chit_of d' x = chit_of d1 x" for x
    using eff voted_chits by (auto simp: reset_effect_def split: if_splits)
  have supp: "supporters d' c = supporters d1 c" for c
    by (simp add: supporters_def chits' f'(3) commits_cong[OF f'(3)])
  have mono: "card (supporters d c) \<le> card (supporters d1 c)" for c
    by (rule supporters_mono[OF g1]) (simp add: chits)
  have pending: "\<not> chit_of d' (unity k)" if "k |\<in>| fmdom (dag_pending_query d')" for k
  proof -
    have "k |\<in>| fmdom (dag_pending_query d)" "k \<noteq> g" using that f'(4) f1(4) by auto
    then show ?thesis using backedD(3)[OF b] chits' chits by simp
  qed
  have main: "(\<forall>c. count_of d' c \<le> card (supporters d1 c)) \<and>
    (\<forall>c. decision_of d' c = Some True \<longrightarrow> c \<noteq> unity g0 \<longrightarrow>
       votes_needed (dag_config d1) c \<le> card (supporters d1 c))"
  proof (cases pos)
    case True
    have commit: "commits d g c" if "c \<in> set (cs @ [unity g])" for c
    proof (cases "c = unity g")
      case False
      then have "ancestor_constraint d1 (\<lambda>p k. (k, p) \<in> (parent_rel d1)\<^sup>*) vx c"
        using that spec by (auto simp: active_constraints_spec_def)
      then have "commits d1 g c" using ancestor_constraint_commits[of d1 g vx c] graph g1 by simp
      then show ?thesis by (simp add: commits_cong[OF g1])
    qed (simp add: commits_def)
    have "unity g \<notin> set cs"
    proof
      assume "unity g \<in> set cs"
      then have "ancestor_constraint d1 (\<lambda>p k. (k, p) \<in> (parent_rel d1)\<^sup>*) vx (unity g)"
        using spec by (simp add: active_constraints_spec_def)
      then show False using own_not_ancestor[OF inv1] graph g1 by simp
    qed
    then have "distinct (cs @ [unity g])" using spec by (simp add: active_constraints_spec_def)
    moreover have "count_of d1 c + (if c \<in> set (cs @ [unity g]) then 1 else 0) \<le> card (supporters d1 c)" for c
    proof -
      have "\<And>x. chit_of d1 x = (x = unity g \<or> chit_of d x)" using chits True by simp
      from supporters_award[OF fmdomI[OF graph] no g1 this, of c] show ?thesis
        using commit[of c] backedD(1)[OF b, of c] d1 by (auto split: if_splits)
    qed
    moreover have "votes_needed (dag_config d1) c \<le> card (supporters d1 c)"
      if "decision_of d1 c = Some True" "c \<noteq> unity g0" for c
      using backedD(2)[OF b, of c] that d1 f1(1) mono[of c] by (auto intro: le_trans)
    ultimately show ?thesis
      using voted_backed[of d1 "cs @ [unity g]" d' "\<lambda>c. card (supporters d1 c)" g0] eff True cfg f1(1) by simp
  next
    case False
    then have "reset_effect (set (cs @ [unity g])) d1 d'" using eff by simp
    then have r: "count_of d' c \<le> count_of d c" "decision_of d' c = decision_of d c" for c
      using d1 by (simp_all add: reset_effect_def)
    have "count_of d' c \<le> card (supporters d1 c)" for c
      using r(1)[of c] backedD(1)[OF b, of c] mono[of c] by simp
    moreover have "votes_needed (dag_config d1) c \<le> card (supporters d1 c)"
      if "decision_of d' c = Some True" "c \<noteq> unity g0" for c
      using backedD(2)[OF b, of c] that r(2)[of c] f1(1) mono[of c] by simp
    ultimately show ?thesis by blast
  qed
  then show ?thesis unfolding backed_def using pending supp f'(1) by auto
qed

section \<open>Every reachable state\<close>

lemma new_no_votes:
  assumes "env_ok E" "env_hash E = H" "vx_parents genesis = []" "vx_height genesis = 0"
    and "dag_new E cfg [genesis] = Some (Inr d)"
  shows "count_of d c = 0" and "\<not> chit_of d c"
    and "c \<noteq> unity (H genesis) \<Longrightarrow> decision_of d c = None"
proof -
  have i: "insert_initial E genesis (empty_dag cfg) = Some d"
    using assms(5) by (auto simp: dag_new_def dag_config_check_def bind_eq_Some_conv split: if_splits)
  have empty: "\<not> tracked (empty_dag cfg) c" for c
    by (simp add: empty_dag_def tracked_def state_of_def)
  have "H genesis |\<notin>| fmdom (dag_graph (empty_dag cfg))" by (simp add: empty_dag_def)
  with insert_initial_root[OF dag_inv_empty assms(1,2,3) this] assms(4) i
  show "count_of d c = 0" "\<not> chit_of d c" "c \<noteq> unity (H genesis) \<Longrightarrow> decision_of d c = None"
    using empty by auto
qed

lemma backed_new:
  assumes "env_ok E" "env_hash E = H" "vx_parents genesis = []" "vx_height genesis = 0"
    and "dag_new E cfg [genesis] = Some (Inr d)"
  shows "backed (H genesis) d"
  using new_no_votes[OF assms] by (auto simp: backed_def)

lemma reach_backed:
  assumes "dag_reach H cfg genesis d"
  shows "backed (H genesis) d"
  using assms
proof (induction rule: dag_reach.induct)
  case (reach_new E d)
  then show ?case by (rule backed_new)
next
  case (reach_insert d E vx d' r)
  note inv = reach_inv[OF reach_insert(1)]
  from try_insert_walk[OF inv reach_insert(2,3,4), of vx] reach_insert(5)
  have "extends d d'" using try_insert_extends[OF inv, of E vx "(d', r)"] by auto
  then show ?case using backed_extends[OF inv] reach_insert.IH by blast
next
  case (reach_retry d E hs d' r)
  note inv = reach_inv[OF reach_retry(1)]
  from retry_pending_walk[OF reach_retry(2,3) inv reach_retry(4), of hs] reach_retry(5)
  have "extends d d'" by auto
  then show ?case using backed_extends[OF inv] reach_retry.IH by blast
next
  case (reach_record d E h b d' r)
  note inv = reach_inv[OF reach_record(1)]
  show ?case
  proof (cases "fmlookup (dag_pending_query d) h")
    case None
    then show ?thesis using record_not_pending[OF None] reach_record by simp
  next
    case (Some vx)
    have cfg: "cfg_thresh_safe_early_commit (dag_config d) \<le> cfg_thresh_accepted (dag_config d)"
      using reach_invariant[OF reach_record(1)] by auto
    from record_walk[OF inv reach_record(2) Some, of b] reach_record(4)
    have "record_effect E h vx b d d'" by (auto split: if_splits)
    then show ?thesis using backed_record[OF inv _ cfg Some] reach_record.IH by blast
  qed
qed

end
