(* ===== verification/Task_Props.thy ===== *)
theory Task_Props
  imports Consensus_Task Dag_Runs
begin

text \<open>
  The properties of the consensus task: it only ever moves its graph through reachable states,
  so that what holds of those holds of the process.
\<close>

lemma consensus_task_new_cases:
  assumes "consensus_task_new E cfg = Some (Inr t)"
  shows "cc_quorum_size cfg \<le> cc_query_count cfg \<and> ct_config t = cfg \<and> ct_validators t = [] \<and>
    ct_unread t = 0 \<and> dag_new E (cc_dag cfg) [genesis_vertex] = Some (Inr (ct_dag t))"
proof (cases "cc_query_count cfg < cc_quorum_size cfg")
  case True
  with assms show ?thesis by (simp add: consensus_task_new_def consensus_config_check_def)
next
  case False
  then obtain r where r: "dag_new E (cc_dag cfg) [genesis_vertex] = Some r"
    "(case r of Inl e \<Rightarrow> Some (Inl (ConsensusDag e))
      | Inr d \<Rightarrow> Some (Inr \<lparr>ct_config = cfg, ct_dag = d, ct_validators = [], ct_unread = 0\<rparr>)) = Some (Inr t)"
    using assms by (auto simp: consensus_task_new_def consensus_config_check_def bind_eq_Some_conv)
  with False show ?thesis by (cases r) auto
qed

lemma submit_action_reach:
  assumes inv: "task_inv H cfg t" and E: "env_ok E" "env_hash E = H" and room: "room 1 t"
    and sub: "submit_action E rng vx t = Some (t', effs)"
  shows "task_inv H cfg t'"
proof -
  have reach: "dag_reach H (cc_dag cfg) genesis_vertex (ct_dag t)" using inv by (simp add: task_inv_def)
  have cap: "capacity (ct_dag t)" using room_capacity[OF room] .
  obtain d1 resp where ins: "try_insert E vx (ct_dag t) = Some (d1, resp)"
    using sub by (auto simp: submit_action_def bind_eq_Some_conv)
  have out: "try_insert_outcome E vx (ct_dag t) (d1, resp)"
    using try_insert_walk[of H "ct_dag t" E vx] reach_invariant[OF reach] E cap ins by auto
  have reach1: "dag_reach H (cc_dag cfg) genesis_vertex d1" by (rule reach_insert[OF reach E cap ins])
  show ?thesis
  proof (cases resp)
    case (Inl e)
    then show ?thesis using sub ins inv reach1 by (auto simp: submit_action_def task_inv_def)
  next
    case (Inr waiting)
    then obtain d2 r where d2: "retry_pending E (env_hashes E waiting) d1 = Some (d2, r)"
      "ct_dag t' = d2" "ct_config t' = ct_config t" "ct_validators t' = ct_validators t"
      using sub ins by (auto simp: submit_action_def bind_eq_Some_conv)
    have "capacity d1" using try_insert_room[OF out, of 0] room by (simp add: room_def capacity_def)
    then have "dag_reach H (cc_dag cfg) genesis_vertex d2" by (rule reach_retry[OF reach1 E _ d2(1)])
    then show ?thesis using inv d2(2-4) by (simp add: task_inv_def)
  qed
qed

lemma task_reach_inv:
  assumes "task_reach H cfg t"
  shows "task_inv H cfg t"
  using assms
proof (induction rule: task_reach.induct)
  case (task_start E t)
  note new = consensus_task_new_cases[OF task_start(3)]
  have "dag_reach H (cc_dag cfg) genesis_vertex (ct_dag t)"
    by (rule reach_new[OF task_start(1,2)]) (use new in \<open>simp_all add: genesis_vertex_def\<close>)
  then show ?case using new by (simp add: task_inv_def)
next
  case (task_action t E rng a t' effs)
  show ?case
  proof (cases a)
    case (RecordPeerPreference h b)
    then obtain d r where "record_query_result E h b (ct_dag t) = Some (d, r)" "t' = t\<lparr>ct_dag := d\<rparr>"
      using task_action(5) by (auto simp: handle_action_def bind_eq_Some_conv)
    then show ?thesis using task_action(6) reach_record[OF _ task_action(2,3)] by (auto simp: task_inv_def)
  next
    case (SubmitVertex vx)
    then have "submit_action E rng vx t = Some (t', effs)"
      using task_action(5) by (simp add: handle_action_def)
    then show ?thesis by (rule submit_action_reach[OF task_action(6,2,3,4)])
  qed (use task_action(5,6) in
      \<open>auto simp: handle_action_def add_validator_def task_inv_def bind_eq_Some_conv\<close>)
next
  case (task_event t t')
  then show ?case by (auto simp: internal_event_def task_inv_def split: if_splits)
qed

text \<open>
  C5: Whatever actions arrive in whatever order, the graph the consensus task holds is one that
  insertions, retries and recorded results reach from the genesis vertex, so that it satisfies the
  invariant and never orders a pair both ways; the validators are distinct, and a quorum is never
  larger than the number of peers that are polled.
\<close>

theorem task_refines_graph:
  assumes "task_reach H cfg t"
  shows "dag_reach H (cc_dag cfg) genesis_vertex (ct_dag t) \<and> dag_inv H (ct_dag t) \<and>
    agreement (ct_dag t) \<and> distinct (ct_validators t) \<and>
    ct_config t = cfg \<and> cc_quorum_size cfg \<le> cc_query_count cfg"
  using task_reach_inv[OF assms] reach_invariant by (auto simp: task_inv_def)

text \<open>A task that has taken the vertex \<open>v1\<close> and knows two validators.\<close>

definition small_config :: consensus_config where
  "small_config = \<lparr>cc_datadir = [], cc_dag = test_config 1 1, cc_query_count = 2, cc_quorum_size = 1\<rparr>"

definition small_start :: consensus_task where
  "small_start = (case consensus_task_new test_env small_config of Some (Inr t) \<Rightarrow> t)"

definition small_task :: consensus_task where
  "small_task = add_validator 8 (add_validator 7 small_start)"

text \<open>Evaluation of the task's operations on an explicit state.\<close>

lemma task_eval:
  fixes d :: dag and c :: consensus_config and vs :: "peer_id list"
  defines "T \<equiv> \<lambda>d u. \<lparr>ct_config = c, ct_dag = d, ct_validators = vs, ct_unread = u\<rparr>"
  shows "dag_state (ct_dag (T d u)) = dag_state d" "dag_vertex (ct_dag (T d u)) = dag_vertex d"
    "room n (T d u) \<longleftrightarrow> fcard (fmdom (dag_vertex d)) + n < 2 ^ 64"
    "handle_action E rng (SubmitVertex vx) (T d u) = do {
       (d1, resp) \<leftarrow> try_insert E vx d;
       (case resp of
          Inl e \<Rightarrow> Some (T d1 u, [Reply (SubmitReply (Inl (ConsensusDag e)))])
        | Inr waiting \<Rightarrow> do {
            (d2, _) \<leftarrow> retry_pending E (env_hashes E waiting) d1;
            frontier \<leftarrow> get_frontier E d2;
            polls \<leftarrow> run_map (start_pollster E rng (T d u)) frontier;
            Some (T d2 (Suc u), concat polls @ [NewFrontier frontier, Reply (SubmitReply (Inr waiting))]) }) }"
    "handle_action E rng (RecordPeerPreference h b) (T d u) = do {
       (d1, _) \<leftarrow> record_query_result E h b d; Some (T d1 u, []) }"
  unfolding assms
  by (simp_all add: room_def handle_action_def submit_action_def cong: option.case_cong sum.case_cong)

lemma small_start_run:
  "do { r \<leftarrow> consensus_task_new test_env small_config;
        case r of Inl _ \<Rightarrow> None | Inr t \<Rightarrow> Some (room 5 t) } = Some True"
  by (simp add: consensus_task_new_def small_config_def consensus_config_check_def genesis_vertex_def
      task_eval default_hash_h0 run_eval del: fmap_of_list_simps fmupd_lookup cong: eval_cong)

lemma small_start_new:
  "consensus_task_new test_env small_config = Some (Inr small_start)"
  "room 5 small_start"
proof -
  obtain r where r: "consensus_task_new test_env small_config = Some r"
    "(case r of Inl _ \<Rightarrow> None | Inr t \<Rightarrow> Some (room 5 t)) = Some True"
    using small_start_run by (auto simp: bind_eq_Some_conv)
  then obtain t where t: "r = Inr t" "room 5 t" by (cases r) auto
  then have "small_start = t" using r by (simp add: small_start_def)
  with r t show "consensus_task_new test_env small_config = Some (Inr small_start)" "room 5 small_start"
    by simp_all
qed

lemma small_task_reach: "task_reach vx_namespace_id small_config small_task" "room 5 small_task"
proof -
  have s0: "task_reach vx_namespace_id small_config small_start"
    by (rule task_start[OF test_env_ok test_env_hash small_start_new(1)])
  have room5: "room n (add_validator p t) = room n t" for n p t by (simp add: room_def add_validator_def)
  then show "room 5 small_task" using small_start_new(2) by (simp add: small_task_def)
  have add: "task_reach vx_namespace_id small_config (add_validator p t)"
    if "task_reach vx_namespace_id small_config t" "room 5 t" for p t
    by (rule task_action[OF that(1) test_env_ok test_env_hash, where a = "AddValidator p" and effs = "[]"])
      (use that(2) in \<open>simp_all add: handle_action_def room_def\<close>)
  show "task_reach vx_namespace_id small_config small_task"
    unfolding small_task_def by (intro add s0) (simp_all add: room5 small_start_new(2))
qed

theorem task_refines_graph_witness: "agreement (ct_dag small_task) \<and> distinct (ct_validators small_task)"
  using task_refines_graph[OF small_task_reach(1)] by blast






text \<open>
  C16: The only action that can crash the task is the recorded preference of the peers for a pending
  vertex one of whose ancestors has been rejected; every other action, and every other result, is
  answered.
\<close>

theorem task_crashes_iff:
  assumes "task_reach H cfg t" and "env_ok E" and "env_hash E = H" and "room 1 t"
    and "\<And>h. fair_draws (length (ct_validators t)) (rng h)"
  shows "handle_action E rng a t = None \<longleftrightarrow>
    (\<exists>h b vx. a = RecordPeerPreference h b \<and> fmlookup (dag_pending_query (ct_dag t)) h = Some vx \<and>
       rejected_reach (ct_dag t) vx)"
proof -
  have inv: "task_inv H cfg t" by (rule task_reach_inv[OF assms(1)])
  then have dinv: "dag_inv H (ct_dag t)" using reach_invariant by (auto simp: task_inv_def)
  show ?thesis
  proof (cases a)
    case GetAcceptedFrontier
    then show ?thesis using get_frontier_walk[OF dinv assms(2)] by (auto simp: handle_action_def)
  next
    case (GetPreferenceOf h)
    then show ?thesis using query_walk[OF dinv assms(2), of h] by (auto simp: handle_action_def)
  next
    case (RecordPeerPreference h b)
    have "record_query_result E h b (ct_dag t) = None \<longleftrightarrow>
        (\<exists>vx. fmlookup (dag_pending_query (ct_dag t)) h = Some vx \<and> rejected_reach (ct_dag t) vx)"
    proof (cases "fmlookup (dag_pending_query (ct_dag t)) h")
      case None
      then show ?thesis by (simp add: record_not_pending)
    next
      case (Some vx)
      with record_walk[OF dinv assms(2) Some, of b] show ?thesis by (auto split: if_splits)
    qed
    with RecordPeerPreference show ?thesis
      by (cases "record_query_result E h b (ct_dag t)") (auto simp: handle_action_def)
  next
    case (SubmitVertex vx)
    have "room (Suc 0) t" using assms(4) by simp
    then show ?thesis
      using submit_walk[of H cfg t E 0 rng vx, OF inv assms(2,3) _ assms(5)] SubmitVertex
      by (auto simp: handle_action_def)
  qed (simp_all add: handle_action_def)
qed

text \<open>
  A run of the task that ends there: the vertices \<open>v1\<close> to \<open>v5\<close> are submitted, then the
  peers prefer \<open>v3\<close>, which rejects the ordering \<open>v4\<close> and its child \<open>v5\<close> build on.
\<close>

definition dispute_config :: consensus_config where
  "dispute_config = \<lparr>cc_datadir = [], cc_dag = one, cc_query_count = 2, cc_quorum_size = 1\<rparr>"

definition dispute_actions :: "consensus_action list" where
  "dispute_actions = map SubmitVertex [v1, v2, v3, v4, v5] @ [RecordPeerPreference h3 True]"

definition task_actions :: "env \<Rightarrow> consensus_action list \<Rightarrow> consensus_task \<Rightarrow> consensus_task option" where
  "task_actions E as =
     run_fold (\<lambda>a t. if room 1 t then do { (t', _) \<leftarrow> handle_action E (\<lambda>_. []) a t; Some t' } else None) as"

lemma task_actions_reach:
  assumes "env_ok E" "env_hash E = H" "task_reach H cfg t" "task_actions E as t = Some t'"
  shows "task_reach H cfg t'"
  using assms(4)[unfolded task_actions_def] assms(3)
  by (rule run_fold_preserves)
    (auto simp: bind_eq_Some_conv split: if_splits intro: task_action[OF _ assms(1,2)])

lemma disputed_task_run:
  "do { r \<leftarrow> consensus_task_new test_env dispute_config;
        t \<leftarrow> (case r of Inl _ \<Rightarrow> None | Inr t \<Rightarrow> task_actions test_env dispute_actions t);
        Some (room 1 t, ct_validators t = [],
          map_option fst (handle_action test_env (\<lambda>_. []) (RecordPeerPreference h5 True) t) = None) } =
   Some (True, True, True)"
  by (simp add: consensus_task_new_def dispute_config_def consensus_config_check_def genesis_vertex_def
      dispute_actions_def task_actions_def task_eval retry_pending_def
      retry_fuel_def get_frontier_def strongly_preferred_def start_pollster_def
      get_validators_for_query_def one_def default_hash_h0 ffilter_eval run_eval
      del: fmap_of_list_simps fmupd_lookup cong: eval_cong)

theorem task_crashes_iff_witness:
  "\<exists>t. task_reach vx_namespace_id dispute_config t \<and>
     (\<exists>vx. fmlookup (dag_pending_query (ct_dag t)) h5 = Some vx \<and> rejected_reach (ct_dag t) vx)"
proof -
  obtain r where r: "consensus_task_new test_env dispute_config = Some r"
    "do { t \<leftarrow> (case r of Inl _ \<Rightarrow> None | Inr t \<Rightarrow> task_actions test_env dispute_actions t);
          Some (room 1 t, ct_validators t = [],
            map_option fst (handle_action test_env (\<lambda>_. []) (RecordPeerPreference h5 True) t) = None) } =
     Some (True, True, True)"
    using disputed_task_run by (auto simp: bind_eq_Some_conv)
  then obtain t0 t where t: "r = Inr t0" "task_actions test_env dispute_actions t0 = Some t" "room 1 t"
    "ct_validators t = []" "handle_action test_env (\<lambda>_. []) (RecordPeerPreference h5 True) t = None"
    by (cases r) (auto simp: bind_eq_Some_conv)
  have reach: "task_reach vx_namespace_id dispute_config t"
    by (rule task_actions_reach[OF test_env_ok test_env_hash
          task_start[OF test_env_ok test_env_hash, of dispute_config t0] t(2)]) (use r(1) t(1) in simp)
  have "fair_draws (length (ct_validators t)) []" using t(4) by (simp add: fair_draws_def)
  then show ?thesis
    using task_crashes_iff[OF reach test_env_ok test_env_hash t(3), of "\<lambda>_. []"] t(5) reach by auto
qed

end
