(* ===== verification/Consensus_System.thy ===== *)
theory Consensus_System
  imports Pollster Dag_Support Task_Props
begin

text \<open>
  The consensus task together with the pollsters it starts: actions of the other tasks, answers of the
  polled peers and the results of the polls in any order. A peer answers a request at most once, and
  only a pollster records results. The log is a history variable: the polls that ended, with their
  answers. It ties what the graph accepts to what the validators said.
\<close>

section \<open>The system\<close>

record poll =
  pl_pollster :: pollster
  pl_answers :: "(peer_id \<times> response) list"

record consensus_system =
  sy_task :: consensus_task
  sy_polls :: "poll list"
  sy_log :: "(hash \<times> bool \<times> (peer_id \<times> response) list) list"

text \<open>The pollsters a step of the task starts.\<close>

primrec poll_of :: "consensus_effect \<Rightarrow> poll list" where
  "poll_of (Reply r) = []"
| "poll_of (StartPollster h peers q) =
     [\<lparr>pl_pollster = pollster_new h peers q, pl_answers = []\<rparr>]"
| "poll_of (NewFrontier vxs) = []"

definition polls_of :: "consensus_effect list \<Rightarrow> poll list" where
  "polls_of effs = concat (map poll_of effs)"

text \<open>
  What a pollster has come to with the answers so far; \<open>alive\<close> says whose request the peer-to-peer
  task has taken. A pollster that has answers, or a result, has sent all its requests.
\<close>

definition poll_outcome :: "(peer_id \<Rightarrow> bool) \<Rightarrow> poll \<Rightarrow> consensus_action option option" where
  "poll_outcome alive p =
     map_option snd (pollster_run sorted_list_of_fset alive 0 (pl_pollster p)
       (map (\<lambda>a. Some (snd a)) (pl_answers p)))"

definition records :: "consensus_action \<Rightarrow> bool" where
  "records a \<longleftrightarrow> (case a of RecordPeerPreference _ _ \<Rightarrow> True | _ \<Rightarrow> False)"

inductive system_reach :: "(vertex \<Rightarrow> hash) \<Rightarrow> consensus_config \<Rightarrow> consensus_system \<Rightarrow> bool"
  for H :: "vertex \<Rightarrow> hash" and cfg :: consensus_config where
  sys_start: "env_ok E \<Longrightarrow> env_hash E = H \<Longrightarrow> consensus_task_new E cfg = Some (Inr t) \<Longrightarrow>
    system_reach H cfg \<lparr>sy_task = t, sy_polls = [], sy_log = []\<rparr>"
| sys_action: "system_reach H cfg s \<Longrightarrow> env_ok E \<Longrightarrow> env_hash E = H \<Longrightarrow> room 1 (sy_task s) \<Longrightarrow>
    (\<And>h. fair_draws (length (ct_validators (sy_task s))) (rng h)) \<Longrightarrow> \<not> records a \<Longrightarrow>
    handle_action E rng a (sy_task s) = Some (t', effs) \<Longrightarrow>
    system_reach H cfg (s\<lparr>sy_task := t', sy_polls := sy_polls s @ polls_of effs\<rparr>)"
| sys_event: "system_reach H cfg s \<Longrightarrow> 0 < ct_unread (sy_task s) \<Longrightarrow>
    internal_event (sy_task s) = Some t' \<Longrightarrow> system_reach H cfg (s\<lparr>sy_task := t'\<rparr>)"
| sys_answer: "system_reach H cfg s \<Longrightarrow> i < length (sy_polls s) \<Longrightarrow> p = sy_polls s ! i \<Longrightarrow>
    poll_outcome (\<lambda>_. True) p = Some None \<Longrightarrow>
    peer |\<in>| po_peers (pl_pollster p) \<Longrightarrow> peer \<notin> fst ` set (pl_answers p) \<Longrightarrow>
    system_reach H cfg
      (s\<lparr>sy_polls := (sy_polls s)[i := p\<lparr>pl_answers := pl_answers p @ [(peer, r)]\<rparr>]\<rparr>)"
| sys_result: "system_reach H cfg s \<Longrightarrow> env_ok E \<Longrightarrow> env_hash E = H \<Longrightarrow> room 1 (sy_task s) \<Longrightarrow>
    sy_polls s = ps @ p # qs \<Longrightarrow> poll_outcome (\<lambda>_. True) p = Some (Some (RecordPeerPreference h b)) \<Longrightarrow>
    handle_action E rng (RecordPeerPreference h b) (sy_task s) = Some (t', effs) \<Longrightarrow>
    system_reach H cfg
      \<lparr>sy_task = t', sy_polls = ps @ qs, sy_log = sy_log s @ [(h, b, pl_answers p)]\<rparr>"
| sys_panic: "system_reach H cfg s \<Longrightarrow> sy_polls s = ps @ p # qs \<Longrightarrow> poll_outcome alive p = None \<Longrightarrow>
    system_reach H cfg (s\<lparr>sy_polls := ps @ qs\<rparr>)"

text \<open>The system refines the task: its pollsters only send it actions.\<close>

lemma system_task_reach: "system_reach H cfg s \<Longrightarrow> task_reach H cfg (sy_task s)"
  by (induction rule: system_reach.induct) (auto intro: task_start task_action task_event)

section \<open>What the answers say\<close>

definition yes_peers :: "(peer_id \<times> response) list \<Rightarrow> peer_id set" where
  "yes_peers ans = {peer. (peer, ResponsePreference True) \<in> set ans}"

lemma yes_peers_subset: "yes_peers ans \<subseteq> fst ` set ans"
  by (force simp: yes_peers_def)

lemma finite_yes_peers [simp, intro]: "finite (yes_peers ans)"
  by (rule finite_subset[OF yes_peers_subset]) simp

lemma answers_for_peers:
  "distinct (map fst ans) \<Longrightarrow> answers_for (map snd ans) = card (yes_peers ans)"
proof (induction ans)
  case Nil
  then show ?case by (simp add: yes_peers_def)
next
  case (Cons a ans)
  have "yes_peers (a # ans) =
      (if snd a = ResponsePreference True then insert (fst a) (yes_peers ans) else yes_peers ans)"
    by (cases a) (auto simp: yes_peers_def)
  moreover have "fst a \<notin> yes_peers ans" using Cons.prems yes_peers_subset[of ans] by auto
  ultimately show ?case using Cons by (simp add: answers_for_def)
qed

lemma poll_loop_true:
  "poll_loop q f a (map Some rs) = Some (Recorded True) \<Longrightarrow> q \<le> f + answers_for rs"
proof (induction rs arbitrary: f a)
  case Nil
  then show ?case by (cases "f < q \<and> a < q") (auto simp: poll_loop_open poll_loop_decided)
next
  case (Cons r rs)
  show ?case
  proof (cases "f < q \<and> a < q")
    case False
    then show ?thesis using Cons.prems by (auto simp: poll_loop_decided)
  next
    case True
    then show ?thesis using Cons.prems Cons.IH[of "f + 1" a] Cons.IH[of f "a + 1"]
      by (cases r) (auto simp: poll_loop_open split: if_splits)
  qed
qed

lemma poll_outcome_hash:
  assumes "poll_outcome (\<lambda>_. True) p = Some (Some (RecordPeerPreference h b))"
  shows "h = po_vhash (pl_pollster p) \<and>
    poll_loop (po_quorum (pl_pollster p)) 0 0 (map Some (map snd (pl_answers p))) = Some (Recorded b)"
proof -
  obtain r where r: "poll_loop (po_quorum (pl_pollster p)) 0 0 (map (\<lambda>a. Some (snd a)) (pl_answers p)) = Some r"
    "(case r of Waiting \<Rightarrow> None | Recorded b \<Rightarrow> Some (RecordPeerPreference (po_vhash (pl_pollster p)) b)) =
       Some (RecordPeerPreference h b)"
    using assms by (auto simp: poll_outcome_def pollster_run_def bind_eq_Some_conv)
  then show ?thesis by (cases r) (simp_all add: comp_def)
qed

section \<open>The invariant\<close>

text \<open>A poll asks validators, as many as configured, and has at most one answer of each.\<close>

definition poll_ok :: "consensus_config \<Rightarrow> peer_id list \<Rightarrow> poll \<Rightarrow> bool" where
  "poll_ok cfg validators p \<longleftrightarrow>
     po_quorum (pl_pollster p) = cc_quorum_size cfg \<and>
     fcard (po_peers (pl_pollster p)) = cc_query_count cfg \<and>
     fset (po_peers (pl_pollster p)) \<subseteq> set validators \<and>
     distinct (map fst (pl_answers p)) \<and> fst ` set (pl_answers p) \<subseteq> fset (po_peers (pl_pollster p))"

text \<open>A poll that was won has a quorum of validators behind it.\<close>

definition won :: "consensus_config \<Rightarrow> peer_id list \<Rightarrow> (hash \<times> bool \<times> (peer_id \<times> response) list) list \<Rightarrow> hash \<Rightarrow> bool" where
  "won cfg validators log g \<longleftrightarrow>
     (\<exists>ans. (g, True, ans) \<in> set log \<and> yes_peers ans \<subseteq> set validators \<and>
        cc_quorum_size cfg \<le> card (yes_peers ans))"

definition system_inv :: "consensus_config \<Rightarrow> consensus_system \<Rightarrow> bool" where
  "system_inv cfg s \<longleftrightarrow>
     (\<forall>p \<in> set (sy_polls s). poll_ok cfg (ct_validators (sy_task s)) p) \<and>
     (\<forall>g. chit_of (ct_dag (sy_task s)) (unity g) \<longrightarrow> won cfg (ct_validators (sy_task s)) (sy_log s) g)"

lemma poll_ok_mono: "poll_ok cfg vs p \<Longrightarrow> set vs \<subseteq> set ws \<Longrightarrow> poll_ok cfg ws p"
  by (auto simp: poll_ok_def)

lemma won_mono: "won cfg vs log g \<Longrightarrow> set vs \<subseteq> set ws \<Longrightarrow> set log \<subseteq> set log' \<Longrightarrow> won cfg ws log' g"
  unfolding won_def by blast

text \<open>A poll that ends in favour is won.\<close>

lemma poll_won:
  assumes ok: "poll_ok cfg vs p" and out: "poll_outcome (\<lambda>_. True) p = Some (Some (RecordPeerPreference h True))"
    and log: "(h, True, pl_answers p) \<in> set log"
  shows "won cfg vs log h"
proof -
  have "po_quorum (pl_pollster p) \<le> answers_for (map snd (pl_answers p))"
    using poll_loop_true[of "po_quorum (pl_pollster p)" 0 0 "map snd (pl_answers p)"]
      poll_outcome_hash[OF out] by simp
  then have "cc_quorum_size cfg \<le> card (yes_peers (pl_answers p))"
    using ok by (simp add: poll_ok_def answers_for_peers)
  then show ?thesis using ok log yes_peers_subset[of "pl_answers p"] unfolding won_def poll_ok_def by blast
qed

section \<open>The steps\<close>

lemma polls_started_ok:
  assumes "polls_started H' t frontier effs" "ct_config t = cfg"
  shows "\<forall>p \<in> set (polls_of effs). poll_ok cfg (ct_validators t) p"
proof -
  have ok: "\<forall>p \<in> set (polls_of effs). poll_ok cfg (ct_validators t) p"
    if "list_all2 (\<lambda>v p. \<exists>S. p = StartPollster (H' v) S (cc_quorum_size (ct_config t)) \<and>
      fset S \<subseteq> set (ct_validators t) \<and> fcard S = cc_query_count (ct_config t)) frontier effs"
    using that assms(2) by (induction rule: list_all2_induct) (auto simp: polls_of_def poll_ok_def subset_iff)
  show ?thesis
  proof (cases "length (ct_validators t) < cc_query_count (ct_config t)")
    case True
    then show ?thesis using assms(1) by (simp add: polls_started_def polls_of_def)
  next
    case False
    then show ?thesis using ok assms(1) by (simp add: polls_started_def)
  qed
qed

lemma action_step:
  assumes inv: "task_inv H cfg t" and E: "env_ok E" "env_hash E = H" and room: "room 1 t"
    and fair: "\<And>h. fair_draws (length (ct_validators t)) (rng h)" and a: "\<not> records a"
    and act: "handle_action E rng a t = Some (t', effs)"
  shows "extends (ct_dag t) (ct_dag t') \<and> set (ct_validators t) \<subseteq> set (ct_validators t') \<and>
    (\<forall>p \<in> set (polls_of effs). poll_ok cfg (ct_validators t') p)"
proof (cases a)
  case (SubmitVertex vx)
  have "room (Suc 0) t" using room by simp
  from submit_walk[where rng = rng and vx = vx, OF inv E this fair] have eff: "submit_effect E vx t t' effs"
    using act SubmitVertex by (auto simp: handle_action_def)
  have dinv: "dag_inv H (ct_dag t)" using inv reach_invariant by (auto simp: task_inv_def)
  obtain d1 resp where ins: "try_insert E vx (ct_dag t) = Some (d1, resp)"
    and rest: "case resp of
           Inl e \<Rightarrow> t' = t\<lparr>ct_dag := d1\<rparr> \<and> effs = [Reply (SubmitReply (Inl (ConsensusDag e)))]
         | Inr waiting \<Rightarrow> \<exists>d2 S frontier polls.
             retry_pending E (env_hashes E waiting) d1 = Some (d2, Inr S) \<and>
             env_hash E vx |\<in>| fmdom (dag_graph d2) \<and> get_frontier E d2 = Some frontier \<and>
             t' = t\<lparr>ct_dag := d2, ct_unread := Suc (ct_unread t)\<rparr> \<and>
             effs = polls @ [NewFrontier frontier, Reply (SubmitReply (Inr waiting))] \<and>
             polls_started (env_hash E) t frontier polls"
    using eff unfolding submit_effect_def by blast
  have out: "try_insert_outcome E vx (ct_dag t) (d1, resp)" "dag_inv H d1"
    using try_insert_walk[OF dinv E room_capacity[OF room], of vx] ins by auto
  have ext: "extends (ct_dag t) d1" using try_insert_extends[OF dinv out(1)] by simp
  show ?thesis
  proof (cases resp)
    case (Inl e)
    then show ?thesis using rest ext by (simp add: polls_of_def)
  next
    case (Inr waiting)
    then obtain d2 S frontier polls where
      d2: "retry_pending E (env_hashes E waiting) d1 = Some (d2, Inr S)"
      and t': "t' = t\<lparr>ct_dag := d2, ct_unread := Suc (ct_unread t)\<rparr>"
      and effs: "effs = polls @ [NewFrontier frontier, Reply (SubmitReply (Inr waiting))]"
      and polls: "polls_started (env_hash E) t frontier polls" using rest by auto
    have "capacity d1" using try_insert_room[OF out(1), of 0] room by (simp add: room_def capacity_def)
    then have "extends d1 d2" using retry_pending_walk[OF E out(2), of "env_hashes E waiting"] d2 by auto
    then have "extends (ct_dag t) d2" by (rule extends_trans[OF ext])
    moreover have "ct_config t = cfg" using inv by (simp add: task_inv_def)
    ultimately show ?thesis using polls_started_ok[OF polls] t' effs by (simp add: polls_of_def)
  qed
qed (use act a in \<open>auto simp: handle_action_def add_validator_def polls_of_def records_def bind_eq_Some_conv\<close>)

lemma result_step:
  assumes inv: "task_inv H cfg t" and E: "env_ok E"
    and act: "handle_action E rng (RecordPeerPreference h b) t = Some (t', effs)"
  shows "ct_validators t' = ct_validators t \<and> effs = [] \<and>
    (\<forall>g. chit_of (ct_dag t') (unity g) \<longrightarrow> b \<and> g = h \<or> chit_of (ct_dag t) (unity g))"
proof -
  have dinv: "dag_inv H (ct_dag t)" using inv reach_invariant by (auto simp: task_inv_def)
  obtain d r where d: "record_query_result E h b (ct_dag t) = Some (d, r)" "t' = t\<lparr>ct_dag := d\<rparr>" "effs = []"
    using act by (auto simp: handle_action_def bind_eq_Some_conv)
  have "chit_of d x \<longrightarrow> b \<and> x = unity h \<or> chit_of (ct_dag t) x" for x
  proof (cases "fmlookup (dag_pending_query (ct_dag t)) h")
    case None
    then show ?thesis using record_not_pending[OF None] d(1) by simp
  next
    case (Some vx)
    have "record_effect E h vx b (ct_dag t) d"
      using record_walk[OF dinv E Some, of b] d(1) by (auto split: if_splits)
    then show ?thesis
      using voted_chits unfolding record_effect_def by (auto simp: reset_effect_def split: if_splits)
  qed
  then show ?thesis using d by auto
qed

lemma system_inv_reach:
  assumes "system_reach H cfg s"
  shows "system_inv cfg s"
  using assms
proof (induction rule: system_reach.induct)
  case (sys_start E t)
  then have "dag_reach H (cc_dag cfg) genesis_vertex (ct_dag t)"
    using task_reach_inv[OF task_start] by (simp add: task_inv_def)
  have "dag_new E (cc_dag cfg) [genesis_vertex] = Some (Inr (ct_dag t))"
    using consensus_task_new_cases[OF sys_start(3)] by blast
  from new_no_votes(2)[OF sys_start(1,2) _ _ this] show ?case
    by (simp add: system_inv_def genesis_vertex_def)
next
  case (sys_action s E rng a t' effs)
  note tinv = task_reach_inv[OF system_task_reach[OF sys_action(1)]]
  from action_step[OF tinv sys_action(2-7)] have step: "extends (ct_dag (sy_task s)) (ct_dag t')"
    "set (ct_validators (sy_task s)) \<subseteq> set (ct_validators t')"
    "\<forall>p \<in> set (polls_of effs). poll_ok cfg (ct_validators t') p" by blast+
  then show ?case using sys_action.IH poll_ok_mono[OF _ step(2)] won_mono[OF _ step(2)]
    by (auto simp: system_inv_def extends_votes(2)[OF step(1)])
next
  case (sys_event s t')
  then show ?case by (auto simp: system_inv_def internal_event_def split: if_splits)
next
  case (sys_answer s i p peer r)
  have ok: "poll_ok cfg (ct_validators (sy_task s)) p"
    using sys_answer.IH sys_answer(2,3) by (simp add: system_inv_def)
  then have "poll_ok cfg (ct_validators (sy_task s)) (p\<lparr>pl_answers := pl_answers p @ [(peer, r)]\<rparr>)"
    using sys_answer(5,6) by (auto simp: poll_ok_def)
  then show ?case using sys_answer.IH
    by (auto simp: system_inv_def dest!: set_update_subset_insert[THEN subsetD])
next
  case (sys_result s E ps p qs h b rng t' effs)
  note tinv = task_reach_inv[OF system_task_reach[OF sys_result(1)]]
  note step = result_step[OF tinv sys_result(2,7)]
  let ?log = "sy_log s @ [(h, b, pl_answers p)]"
  have ok: "poll_ok cfg (ct_validators (sy_task s)) p"
    using sys_result.IH sys_result(5) by (simp add: system_inv_def)
  have "won cfg (ct_validators t') ?log g" if "chit_of (ct_dag t') (unity g)" for g
  proof (cases "b \<and> g = h")
    case True
    then have "poll_outcome (\<lambda>_. True) p = Some (Some (RecordPeerPreference h True))" using sys_result(6) by simp
    from poll_won[OF ok this, of ?log] show ?thesis using True step by simp
  next
    case False
    then have "won cfg (ct_validators (sy_task s)) (sy_log s) g"
      using that step sys_result.IH by (auto simp: system_inv_def)
    then show ?thesis using step by (elim won_mono) auto
  qed
  then show ?case using sys_result.IH sys_result(5) step by (auto simp: system_inv_def)
next
  case (sys_panic s ps p qs alive)
  then show ?case by (auto simp: system_inv_def)
qed

section \<open>What an acceptance rests on\<close>

text \<open>
  C2: No vertex and no ordering is accepted without its quorums. In every reachable state of the
  consensus task with its pollsters, for whatever answers the peers give, an accepted constraint other
  than the genesis vertex's has as many vertices that commit to it as its threshold demands, and for
  each of these a poll was recorded in which a quorum of distinct validators preferred it.
\<close>

theorem accepted_by_quorums:
  assumes "system_reach H cfg s"
    and "decision_of (ct_dag (sy_task s)) c = Some True" and "c \<noteq> unity (H genesis_vertex)"
  shows "\<exists>S. finite S \<and> votes_needed (cc_dag cfg) c \<le> card S \<and>
    (\<forall>g \<in> S. g |\<in>| fmdom (dag_graph (ct_dag (sy_task s))) \<and> commits (ct_dag (sy_task s)) g c \<and>
       (\<exists>answers. (g, True, answers) \<in> set (sy_log s) \<and>
          yes_peers answers \<subseteq> set (ct_validators (sy_task s)) \<and>
          cc_quorum_size cfg \<le> card (yes_peers answers)))"
proof -
  let ?d = "ct_dag (sy_task s)"
  have reach: "dag_reach H (cc_dag cfg) genesis_vertex ?d"
    using task_reach_inv[OF system_task_reach[OF assms(1)]] by (simp add: task_inv_def)
  have "votes_needed (dag_config ?d) c \<le> card (supporters ?d c)"
    using backedD(2)[OF reach_backed[OF reach] assms(2,3)] .
  moreover have "dag_config ?d = cc_dag cfg" using reach_invariant[OF reach] by blast
  moreover have "won cfg (ct_validators (sy_task s)) (sy_log s) g" if "g \<in> supporters ?d c" for g
    using system_inv_reach[OF assms(1)] that by (simp add: system_inv_def supporters_def)
  ultimately show ?thesis
    by (intro exI[of _ "supporters ?d c"]) (auto simp: supporters_def won_def)
qed

text \<open>
  A run: two validators, the vertex \<open>v1\<close> submitted and polled, and the answer of one of them.
\<close>

definition asked :: "peer_id fset" where
  "asked = {|7, 8|}"

lemma sample_two: "sample_indices 2 = sample_indices (Suc (Suc 0))"
  by (simp add: numeral_2_eq_2)

lemma asked_run:
  "do { (t1, effs) \<leftarrow> handle_action test_env (\<lambda>_. [0, 1]) (SubmitVertex v1) small_task;
        (t2, _) \<leftarrow> handle_action test_env (\<lambda>_. [0, 1]) (RecordPeerPreference h1 True) t1;
        Some (polls_of effs, room 1 t1, decision_of (ct_dag t2) (unity h1)) } =
   Some ([\<lparr>pl_pollster = \<lparr>po_vhash = h1, po_peers = asked, po_quorum = 1\<rparr>, pl_answers = []\<rparr>],
     True, Some True)"
proof -
  have "consensus_task_new test_env small_config = Some (Inr small_start)"
    by (rule small_start_new(1))
  then have start: "small_start =
     (case consensus_task_new test_env small_config of Some (Inr t) \<Rightarrow> t | _ \<Rightarrow> undefined)" by simp
  show ?thesis
    unfolding small_task_def start
    by (simp add: consensus_task_new_def small_config_def consensus_config_check_def genesis_vertex_def
      add_validator_def task_eval retry_pending_def polls_of_def asked_def
      retry_fuel_def get_frontier_def strongly_preferred_def start_pollster_def slice_get_def
      get_validators_for_query_def default_hash_h0 ffilter_eval run_eval sample_two
      del: fmap_of_list_simps fmupd_lookup cong: eval_cong)
qed

lemma add_validator_step:
  assumes "system_reach vx_namespace_id small_config s" "room 1 (sy_task s)"
    and "fair_draws (length (ct_validators (sy_task s))) draws"
  shows "system_reach vx_namespace_id small_config (s\<lparr>sy_task := add_validator p (sy_task s)\<rparr>)"
  using sys_action[OF assms(1) test_env_ok test_env_hash assms(2), of "\<lambda>_. draws" "AddValidator p"] assms(3)
  by (simp add: handle_action_def records_def polls_of_def)

lemma small_system_reach:
  "system_reach vx_namespace_id small_config \<lparr>sy_task = small_task, sy_polls = [], sy_log = []\<rparr>"
proof -
  have vals: "ct_validators small_start = []"
    using consensus_task_new_cases[OF small_start_new(1)] by blast
  have room: "room 1 small_start" "room 1 (add_validator 7 small_start)"
    using small_start_new(2) by (simp_all add: room_def add_validator_def)
  have s1: "system_reach vx_namespace_id small_config
      \<lparr>sy_task = add_validator 7 small_start, sy_polls = [], sy_log = []\<rparr>"
    using add_validator_step[OF sys_start[OF test_env_ok test_env_hash small_start_new(1)], of "[]" 7]
      room vals by (simp add: fair_draws_def)
  have "fair_draws 1 [0]" by (auto simp: fair_draws_def)
  with add_validator_step[OF s1, of "[0]" 8] room vals show ?thesis
    by (simp add: small_task_def) (simp add: add_validator_def)
qed

theorem accepted_by_quorums_witness:
  "\<exists>s. system_reach vx_namespace_id small_config s \<and>
     decision_of (ct_dag (sy_task s)) (unity h1) = Some True \<and>
     (\<exists>S. finite S \<and> votes_needed (cc_dag small_config) (unity h1) \<le> card S \<and>
        (\<forall>g \<in> S. \<exists>answers. (g, True, answers) \<in> set (sy_log s) \<and> 1 \<le> card (yes_peers answers)))"
proof -
  let ?rng = "\<lambda>_ :: hash. [0, 1] :: nat list"
  let ?p = "\<lparr>pl_pollster = \<lparr>po_vhash = h1, po_peers = asked, po_quorum = 1\<rparr>, pl_answers = []\<rparr>"
  let ?q = "?p\<lparr>pl_answers := [(7, ResponsePreference True)]\<rparr>"
  obtain t1 effs t2 effs2 where run: "handle_action test_env ?rng (SubmitVertex v1) small_task = Some (t1, effs)"
    "handle_action test_env ?rng (RecordPeerPreference h1 True) t1 = Some (t2, effs2)"
    "polls_of effs = [?p]" "room 1 t1" "decision_of (ct_dag t2) (unity h1) = Some True"
    using asked_run by (auto simp: bind_eq_Some_conv)
  have "length (ct_validators small_task) = 2"
    using consensus_task_new_cases[OF small_start_new(1)] by (simp add: small_task_def add_validator_def)
  then have fair: "fair_draws (length (ct_validators small_task)) [0, 1]" by (auto simp: fair_draws_def)
  have room: "room 1 small_task" using small_task_reach(2) by (simp add: room_def)
  have s1: "system_reach vx_namespace_id small_config \<lparr>sy_task = t1, sy_polls = [?p], sy_log = []\<rparr>"
    using sys_action[OF small_system_reach test_env_ok test_env_hash, of ?rng "SubmitVertex v1" t1 effs]
      room fair run(1,3) by (simp add: records_def)
  have "poll_outcome (\<lambda>_. True) ?p = Some None"
    by (simp add: poll_outcome_def pollster_run_def poll_loop_open)
  with sys_answer[OF s1, of 0 ?p 7 "ResponsePreference True"]
  have s2: "system_reach vx_namespace_id small_config \<lparr>sy_task = t1, sy_polls = [?q], sy_log = []\<rparr>"
    by (simp add: asked_def)
  have "poll_outcome (\<lambda>_. True) ?q = Some (Some (RecordPeerPreference h1 True))"
    by (simp add: poll_outcome_def pollster_run_def poll_loop_open poll_loop_decided)
  with sys_result[OF s2 test_env_ok test_env_hash, of "[]" ?q "[]" h1 True ?rng t2 effs2] run(2,4)
  have s3: "system_reach vx_namespace_id small_config
      \<lparr>sy_task = t2, sy_polls = [], sy_log = [(h1, True, [(7, ResponsePreference True)])]\<rparr>"
    by simp
  have "unity h1 \<noteq> unity (vx_namespace_id genesis_vertex)"
    by (simp add: genesis_vertex_def default_hash_h0 hash_simps)
  from accepted_by_quorums[OF s3 _ this] run(5) s3 show ?thesis
    by (intro exI[of _ "\<lparr>sy_task = t2, sy_polls = [], sy_log = [(h1, True, [(7, ResponsePreference True)])]\<rparr>"])
       (auto simp: small_config_def)
qed

end
