(* ===== verification/Vertex_Props.thy ===== *)
theory Vertex_Props
  imports Conflict_Set
begin

text \<open>The properties of vertices and ordering constraints, for any list of parents.\<close>

text \<open>
  C25: Driven to its end, the iterator \<open>Constraints\<close> never indexes out of range, ends after one
  call more than it has constraints, and yields every ordered pair of positions once, in
  lexicographic order, followed by the unity constraints from the last vertex to the first.
\<close>

theorem constraints_iterator_complete:
  "constraints_collect (length vs * (length vs + 1) div 2 + 1) (constraints_new vs) =
     Some (constraints_of vs)"
proof -
  have "length (constraints_of vs) = length vs * (length vs + 1) div 2"
    using length_constraints_of[of vs] by simp
  then show ?thesis by (intro constraints_collect_constraints_of) simp
qed

text \<open>
  A vertex with distinct parents commits to exactly one of the two orderings of every pair of
  parents, and to no constraint twice.
\<close>

lemma one_ordering_per_pair:
  assumes "distinct (vx_parents vx)" and "a \<in> set (vx_parents vx)" and "b \<in> set (vx_parents vx)" and "a \<noteq> b"
  shows "distinct (parent_constraints vx) \<and>
    (Constraint a b \<in> set (parent_constraints vx) \<longleftrightarrow> Constraint b a \<notin> set (parent_constraints vx))"
proof -
  let ?vs = "vx_parents vx"
  obtain i j where ij: "i < length ?vs" "?vs ! i = a" "j < length ?vs" "?vs ! j = b"
    using assms(2,3) by (metis in_set_conv_nth)
  then have "i \<noteq> j" using assms(4) by auto
  then have "Constraint a b \<in> set (parent_constraints vx) \<or> Constraint b a \<in> set (parent_constraints vx)"
    using ij by (cases "i < j") (auto simp: parent_constraints_def constraints_of_def set_ordered_pairs)
  moreover have "Constraint b a \<notin> set (parent_constraints vx)"
    if "Constraint a b \<in> set (parent_constraints vx)"
    using constraints_of_one_way[OF assms(1), of "Constraint a b"] that assms(4)
    by (simp add: parent_constraints_def)
  ultimately show ?thesis using distinct_constraints_of[OF assms(1)] by (auto simp: parent_constraints_def)
qed

definition two_parents :: vertex where
  "two_parents = (empty_vertex 0)\<lparr>vx_parents := [byte_hash 1, byte_hash 2]\<rparr>"

text \<open>
  Two constraints share a conflict set exactly if they are equal or opposite: the 64 bytes of the
  key forget the order of the two hashes and nothing else.
\<close>

lemma conflict_set_key_identifies_pairs:
  "conflict_set_key c = conflict_set_key d \<longleftrightarrow> d = c \<or> conflict d = Some c"
proof -
  have "conflict d = Some c \<longleftrightarrow> \<not> is_unity d \<and> c = opposite d" by (auto simp: conflict_eq)
  moreover have "d = opposite c \<longleftrightarrow> c = opposite d" by (metis opposite_simps(2))
  ultimately show ?thesis using conflict_set_key_eq_iff[of c d] unity_opposite[of d] by metis
qed

text \<open>
  \<open>with_parents\<close> never crashes. It fails on an empty list and on repeated parents;
  otherwise the vertex it makes has the parents' hashes in order, a height one above the greatest of
  theirs, and passes \<open>sanity_checks\<close> if its version is the current one.
\<close>

lemma with_parents_makes_sane_vertices:
  "\<exists>r. with_parents H vx ps = Some r \<and>
     (case r of
        Inl e \<Rightarrow> e = (if ps = [] then MissingField ''parents'' else DuplicateParents) \<and>
          (ps = [] \<or> \<not> distinct (map H ps))
      | Inr v \<Rightarrow> ps \<noteq> [] \<and> distinct (map H ps) \<and> vx_parents v = map H ps \<and>
          vx_height v = 1 + Max (vx_height ` set ps) \<and> vx_version v = vx_version vx \<and>
          (sanity_checks v = Inr () \<longleftrightarrow> vx_version vx = VERSION))"
proof (cases "ps = [] \<or> \<not> distinct (map H ps)")
  case True
  then show ?thesis
    by (cases "ps = []")
       (auto simp: with_parents_def Let_def length_unique_eq_iff eq_commute[of "length ps"]
         length_unique_eq_iff[of "map H ps", simplified])
next
  case False
  then have ne: "map vx_height ps \<noteq> []" and d: "length (unique (map H ps)) = length (map H ps)"
    unfolding length_unique_eq_iff by blast+
  from max_opt_Max[OF ne] have max: "max_opt (map vx_height ps) = Some (Max (vx_height ` set ps))"
    by (simp only: set_map)
  show ?thesis using False ne d max by (simp add: with_parents_def Let_def sanity_checks_ok_iff)
qed

end
