(* ===== verification/Wire_Props.thy ===== *)
theory Wire_Props
  imports Wire
begin

text \<open>The properties of the wire formats, over any encoder that its decoder undoes.\<close>

text \<open>
  C26: A vertex that was written to the wire is read back as it was, except that its timestamp
  becomes the time of decoding; so two vertices with the same bytes differ at most in their
  timestamps. With the check, only vertices that pass the sanity checks are written or read.
\<close>

theorem vertex_wire_roundtrip:
  assumes "decodes encode decode"
    and "to_wire vertex_to_protobuf encode VxProstEncode check vx = Inr bytes"
  shows "from_wire (vertex_from_protobuf now) decode VxProstDecode check bytes =
      Inr (vx\<lparr>vx_timestamp := now\<rparr>) \<and>
    (check \<longrightarrow> sanity_checks vx = Inr ()) \<and>
    (\<forall>wx c. to_wire vertex_to_protobuf encode VxProstEncode c wx = Inr bytes \<longrightarrow>
       wx\<lparr>vx_timestamp := vx_timestamp vx\<rparr> = vx) \<and>
    (\<forall>bytes' wx. from_wire (vertex_from_protobuf now) decode VxProstDecode True bytes' = Inr wx \<longrightarrow>
       sanity_checks wx = Inr ())"
proof (intro conjI allI impI)
  show "from_wire (vertex_from_protobuf now) decode VxProstDecode check bytes =
      Inr (vx\<lparr>vx_timestamp := now\<rparr>)"
    by (rule vertex_wire.wire_roundtrip[OF assms])
  have free: "from_wire (vertex_from_protobuf tm) decode VxProstDecode False bytes =
      Inr (ux\<lparr>vx_timestamp := tm\<rparr>)"
    if "to_wire vertex_to_protobuf encode VxProstEncode c ux = Inr bytes" for c ux and tm :: int
  proof (rule vertex_wire.wire_roundtrip[OF assms(1)])
    show "to_wire vertex_to_protobuf encode VxProstEncode False ux = Inr bytes"
      using that vertex_wire.to_pb_unchecked
      by (auto simp: to_wire_def split: sum.splits option.splits)
  qed
  show "sanity_checks vx = Inr ()" if check
    using assms(2) that by (auto simp: to_wire_def vertex_wire.to_checked split: sum.splits)
  show "wx\<lparr>vx_timestamp := vx_timestamp vx\<rparr> = vx"
    if "to_wire vertex_to_protobuf encode VxProstEncode c wx = Inr bytes" for wx c
    using free[OF that, of "vx_timestamp vx"] free[OF assms(2), of "vx_timestamp vx"] by simp
  show "sanity_checks wx = Inr ()"
    if "from_wire (vertex_from_protobuf now) decode VxProstDecode True bytes' = Inr wx" for bytes' wx
    by (rule vertex_wire.wire_received_valid[OF that])
qed

text \<open>An encoder that knows one message, for the concrete instances.\<close>

definition encode_only :: "'p \<Rightarrow> 'p \<Rightarrow> u8 list option" where
  "encode_only p0 p = (if p = p0 then Some [7] else None)"

definition decode_only :: "'p \<Rightarrow> u8 list \<Rightarrow> 'p option" where
  "decode_only p0 bytes = (if bytes = [7] then Some p0 else None)"

lemma decodes_only: "decodes (encode_only p0) (decode_only p0)"
  by (simp add: decodes_def encode_only_def decode_only_def)

definition wired_vertex :: vertex where
  "wired_vertex = (empty_vertex 5)\<lparr>vx_height := 1, vx_parents := [byte_hash 1, byte_hash 2]\<rparr>"

lemma wired_vertex_sane: "sanity_checks wired_vertex = Inr ()"
  by (simp add: sanity_checks_def wired_vertex_def empty_vertex_def VERSION_def)

theorem vertex_wire_roundtrip_witness:
  "from_wire (vertex_from_protobuf 9) (decode_only (proto_of_vertex wired_vertex)) VxProstDecode True [7] =
     Inr (wired_vertex\<lparr>vx_timestamp := 9\<rparr>)"
  by (rule vertex_wire_roundtrip[OF decodes_only, THEN conjunct1])
    (simp add: to_wire_def vertex_to_protobuf_eq wired_vertex_sane encode_only_def)

text \<open>
  C27: The hash of a vertex always exists, so that \<open>hash\<close> never panics, and does not depend
  on the timestamp: the vertex a peer decodes has the hash of the vertex that was sent.
\<close>

theorem vertex_hash_ignores_time:
  assumes "encodes_all encode"
  shows "\<exists>h. vertex_hash digest encode vx = Some h \<and>
    (\<forall>now. vertex_hash digest encode (vx\<lparr>vx_timestamp := now\<rparr>) = Some h)"
  using vertex_wire.wire_hash_total[OF assms] vertex_wire.wire_hash_norm
  by (metis vertex_hash_def)

theorem vertex_hash_ignores_time_witness:
  "\<exists>h. vertex_hash (\<lambda>bs. byte_hash (last bs)) (\<lambda>p. Some [of_nat (length (pv_parents p))]) wired_vertex = Some h \<and>
    (\<forall>now. vertex_hash (\<lambda>bs. byte_hash (last bs)) (\<lambda>p. Some [of_nat (length (pv_parents p))])
       (wired_vertex\<lparr>vx_timestamp := now\<rparr>) = Some h)"
  by (rule vertex_hash_ignores_time) (simp add: encodes_all_def)

lemma written: "write_message r b = Inr bytes \<Longrightarrow> r = Inr bytes"
  by (auto simp: write_message_def split: sum.splits if_splits)

text \<open>
  C28: What the codec writes it reads back: requests as they were, responses with the vertex they
  carry restamped. A response that is written or read carries only a vertex that passes the sanity
  checks.
\<close>

theorem messages_wire_roundtrip:
  assumes "decodes encode decode" and "decodes encode_req decode_req"
  shows "(write_response encode resp ok = Inr bytes \<longrightarrow>
      read_response now decode (Some bytes) = Inr (response_received now resp) \<and> response_valid resp) \<and>
    (write_request encode_req req ok = Inr bytes \<longrightarrow> read_request decode_req (Some bytes) = Inr req) \<and>
    (read_response now decode stream = Inr received \<longrightarrow> response_valid received)"
proof (intro conjI impI)
  assume "write_response encode resp ok = Inr bytes"
  then have sent: "to_wire response_to_protobuf encode ReqProstEncode True resp = Inr bytes"
    using written by (simp add: write_response_def)
  from response_wire.wire_roundtrip[OF assms(1) sent]
  show "read_response now decode (Some bytes) = Inr (response_received now resp)"
    by (simp add: read_response_def read_message_def)
  show "response_valid resp"
    using sent by (auto simp: to_wire_def response_wire.to_checked split: sum.splits)
next
  assume "write_request encode_req req ok = Inr bytes"
  then have "to_wire request_to_protobuf encode_req ReqProstEncode True req = Inr bytes"
    using written by (simp add: write_request_def)
  from request_wire.wire_roundtrip[OF assms(2) this]
  show "read_request decode_req (Some bytes) = Inr req"
    by (simp add: read_request_def read_message_def)
next
  assume "read_response now decode stream = Inr received"
  then show "response_valid received"
    using response_wire.wire_received_valid
    by (auto simp: read_response_def read_message_def split: option.splits sum.splits)
qed

theorem messages_wire_roundtrip_witness:
  "read_response 9 (decode_only (Some (ProtoVertex (proto_of_vertex wired_vertex)))) (Some [7]) =
     Inr (ResponseVertex (wired_vertex\<lparr>vx_timestamp := 9\<rparr>))"
  using messages_wire_roundtrip[OF decodes_only decodes_only,
      where resp = "ResponseVertex wired_vertex" and ok = True and bytes = "[7]" and now = 9]
  by (simp add: write_response_def write_message_def to_wire_def vertex_to_protobuf_eq
      wired_vertex_sane encode_only_def)

end
