(* ===== verification/Fetcher.thy ===== *)
theory Fetcher
  imports Consensus_Task
begin

text \<open>
  \<open>src/fetcher/task.rs\<close>: the task that asks one peer for missing vertices and, as the
  consensus task reports them, for their missing parents. An input is a response with the answer
  the consensus task gives if the response is a vertex and is submitted; so the model holds for any
  interleaving of the fetcher with the other tasks. \<open>None\<close> for a response is the closed channel.
\<close>

record fetcher =
  fe_peer :: peer_id
  fe_initial :: "hash list"
  fe_requested :: "hash fset"

datatype fetch_effect = RequestVertex hash peer_id | BlockPeerOf peer_id

definition fetcher_new :: "peer_id \<Rightarrow> hash list \<Rightarrow> fetcher" where
  "fetcher_new peer initial = \<lparr>fe_peer = peer, fe_initial = initial, fe_requested = {||}\<rparr>"

text \<open>The closure \<open>request_hashes\<close>.\<close>

fun request_hashes :: "hash list \<Rightarrow> fetcher \<Rightarrow> fetcher \<times> fetch_effect list" where
  "request_hashes [] t = (t, [])"
| "request_hashes (h # hs) t =
     (if h |\<in>| fe_requested t then request_hashes hs t
      else let (t', effs) = request_hashes hs (t\<lparr>fe_requested := finsert h (fe_requested t)\<rparr>)
           in (t', RequestVertex h (fe_peer t) # effs))"

text \<open>One response; the last component says whether the loop goes on.\<close>

definition fetch_response ::
  "response option \<Rightarrow> api_error + hash fset \<Rightarrow> fetcher \<Rightarrow> fetcher \<times> fetch_effect list \<times> bool" where
  "fetch_response resp submitted t =
     (case resp of
        None \<Rightarrow> (t, [], False)
      | Some (ResponseVertex vx) \<Rightarrow>
          (case submitted of
             Inl (ApiTask (ConsensusDag (MissingParents parents))) \<Rightarrow>
               let (t', effs) = request_hashes parents t in (t', effs, True)
           | _ \<Rightarrow> (t, [], True))
      | Some (ResponseError code) \<Rightarrow> (t, [], True)
      | Some (ResponsePreference _) \<Rightarrow> (t, [BlockPeerOf (fe_peer t)], False))"

fun fetch_loop ::
  "(response option \<times> (api_error + hash fset)) list \<Rightarrow> fetcher \<Rightarrow> fetcher \<times> fetch_effect list \<times> bool" where
  "fetch_loop [] t = (t, [], True)"
| "fetch_loop ((resp, submitted) # inbox) t =
     (let (t', effs, continue) = fetch_response resp submitted t
      in if continue
         then let (t'', effs', continue') = fetch_loop inbox t' in (t'', effs @ effs', continue')
         else (t', effs, False))"

definition fetcher_run ::
  "peer_id \<Rightarrow> hash list \<Rightarrow> (response option \<times> (api_error + hash fset)) list \<Rightarrow>
     fetcher \<times> fetch_effect list \<times> bool" where
  "fetcher_run peer initial inbox =
     (let (t, effs) = request_hashes initial (fetcher_new peer initial);
          (t', effs', continue) = fetch_loop inbox t
      in (t', effs @ effs', continue))"

section \<open>Requests\<close>

primrec requested_of :: "fetch_effect \<Rightarrow> hash list" where
  "requested_of (RequestVertex h peer) = [h]"
| "requested_of (BlockPeerOf peer) = []"

abbreviation requests :: "fetch_effect list \<Rightarrow> hash list" where
  "requests effs \<equiv> concat (map requested_of effs)"

text \<open>
  What every part of the run keeps: it requests, from the fetcher's own peer, exactly the hashes
  that are new to \<open>fe_requested\<close>, each once.
\<close>

definition requests_new :: "fetcher \<Rightarrow> fetcher \<Rightarrow> fetch_effect list \<Rightarrow> bool" where
  "requests_new t t' effs \<longleftrightarrow>
     fe_peer t' = fe_peer t \<and> fe_requested t |\<subseteq>| fe_requested t' \<and> distinct (requests effs) \<and>
     set (requests effs) = fset (fe_requested t') - fset (fe_requested t) \<and>
     (\<forall>e \<in> set effs. e = BlockPeerOf (fe_peer t) \<or> (\<exists>h. e = RequestVertex h (fe_peer t)))"

lemma requests_new_refl [simp]: "requests_new t t []"
  by (simp add: requests_new_def)

lemma requests_new_trans:
  assumes "requests_new t t1 effs" "requests_new t1 t2 effs'"
  shows "requests_new t t2 (effs @ effs')"
  using assms unfolding requests_new_def by (auto simp: less_eq_fset.rep_eq)

lemma request_hashes_new:
  "request_hashes hs t = (t', effs) \<Longrightarrow>
     requests_new t t' effs \<and> fe_requested t' = fe_requested t |\<union>| fset_of_list hs"
proof (induction hs t arbitrary: t' effs rule: request_hashes.induct)
  case (2 h hs t)
  show ?case
  proof (cases "h |\<in>| fe_requested t")
    case True
    with 2 show ?thesis by auto
  next
    case False
    let ?t1 = "t\<lparr>fe_requested := finsert h (fe_requested t)\<rparr>"
    obtain effs1 where rec: "request_hashes hs ?t1 = (t', effs1)" "effs = RequestVertex h (fe_peer t) # effs1"
      using False 2(3) by (auto simp: Let_def split: prod.splits)
    have "requests_new t ?t1 [RequestVertex h (fe_peer t)]"
      using False by (auto simp: requests_new_def)
    with requests_new_trans[of t ?t1 "[RequestVertex h (fe_peer t)]" t' effs1] 2(2)[OF False rec(1)] rec(2)
    show ?thesis by auto
  qed
qed auto

lemma fetch_response_new:
  assumes "fetch_response resp submitted t = (t', effs, continue)"
  shows "requests_new t t' effs"
proof (cases "\<exists>vx ps. resp = Some (ResponseVertex vx) \<and>
    submitted = Inl (ApiTask (ConsensusDag (MissingParents ps)))")
  case True
  then show ?thesis using assms request_hashes_new
    by (auto simp: fetch_response_def Let_def split: prod.splits)
next
  case False
  then have "t' = t \<and> (effs = [] \<or> effs = [BlockPeerOf (fe_peer t)])" using assms
    by (auto simp: fetch_response_def split: option.splits response.splits sum.splits api_error.splits
        consensus_error.splits dag_error.splits)
  then show ?thesis by (auto simp: requests_new_def)
qed

lemma fetch_loop_new: "fetch_loop inbox t = (t', effs, continue) \<Longrightarrow> requests_new t t' effs"
proof (induction inbox arbitrary: t t' effs continue)
  case (Cons x inbox)
  obtain resp submitted where x: "x = (resp, submitted)" by (cases x)
  obtain t1 effs1 c where one: "fetch_response resp submitted t = (t1, effs1, c)" by (metis prod_cases3)
  show ?case
  proof (cases c)
    case True
    then obtain effs2 where "fetch_loop inbox t1 = (t', effs2, continue)" "effs = effs1 @ effs2"
      using Cons.prems one x by (auto split: prod.splits)
    with Cons.IH requests_new_trans[OF fetch_response_new[OF one]] show ?thesis by blast
  next
    case False
    with Cons.prems one x fetch_response_new[OF one] show ?thesis by auto
  qed
qed simp

text \<open>What it asks for: the initial hashes, and the parents a submission missed.\<close>

definition missing_reported :: "(response option \<times> (api_error + hash fset)) list \<Rightarrow> hash set" where
  "missing_reported inbox =
     {h. \<exists>vx ps. (Some (ResponseVertex vx), Inl (ApiTask (ConsensusDag (MissingParents ps)))) \<in> set inbox \<and>
         h \<in> set ps}"

lemma fetch_response_requested:
  assumes "fetch_response resp submitted t = (t', effs, continue)"
  shows "fset (fe_requested t') = fset (fe_requested t) \<union> missing_reported [(resp, submitted)]"
proof (cases "\<exists>vx ps. resp = Some (ResponseVertex vx) \<and>
    submitted = Inl (ApiTask (ConsensusDag (MissingParents ps)))")
  case True
  then show ?thesis using assms request_hashes_new
    by (auto simp: fetch_response_def Let_def missing_reported_def fset_of_list.rep_eq split: prod.splits)
next
  case False
  then have "t' = t" using assms
    by (auto simp: fetch_response_def split: option.splits response.splits sum.splits api_error.splits
        consensus_error.splits dag_error.splits)
  with False show ?thesis by (auto simp: missing_reported_def)
qed

lemma missing_reported_Cons: "missing_reported (x # xs) = missing_reported [x] \<union> missing_reported xs"
  by (auto simp: missing_reported_def)

text \<open>The responses that are handled, up to the one that ends the loop.\<close>

definition ends_fetch :: "response option \<Rightarrow> bool" where
  "ends_fetch resp \<longleftrightarrow> (case resp of None \<Rightarrow> True | Some (ResponsePreference _) \<Rightarrow> True | _ \<Rightarrow> False)"

definition handled :: "(response option \<times> 'a) list \<Rightarrow> (response option \<times> 'a) list" where
  "handled inbox = takeWhile (\<lambda>(resp, _). \<not> ends_fetch resp) inbox"

lemma fetch_response_continue:
  "fetch_response resp submitted t = (t', effs, continue) \<Longrightarrow> continue = (\<not> ends_fetch resp)"
  by (auto simp: fetch_response_def ends_fetch_def Let_def
      split: option.splits response.splits sum.splits api_error.splits consensus_error.splits
        dag_error.splits prod.splits)

lemma fetch_loop_requested:
  "fetch_loop inbox t = (t', effs, continue) \<Longrightarrow>
     fset (fe_requested t') = fset (fe_requested t) \<union> missing_reported (handled inbox) \<and>
     continue = (\<forall>(resp, _) \<in> set inbox. \<not> ends_fetch resp)"
proof (induction inbox arbitrary: t t' effs continue)
  case Nil
  then show ?case by (simp add: missing_reported_def handled_def)
next
  case (Cons x inbox)
  obtain resp submitted where x: "x = (resp, submitted)" by (cases x)
  obtain t1 effs1 c where one: "fetch_response resp submitted t = (t1, effs1, c)" by (metis prod_cases3)
  note req = fetch_response_requested[OF one] and c = fetch_response_continue[OF one]
  show ?case
  proof (cases c)
    case True
    then obtain effs2 where "fetch_loop inbox t1 = (t', effs2, continue)"
      using Cons.prems one x by (auto split: prod.splits)
    from Cons.IH[OF this] True c req x missing_reported_Cons[of x "handled inbox"] show ?thesis
      by (auto simp: handled_def)
  next
    case False
    then have "missing_reported [(resp, submitted)] = {}" using c
      by (auto simp: missing_reported_def ends_fetch_def)
    with False c Cons.prems one x req show ?thesis by (auto simp: handled_def missing_reported_def)
  qed
qed

lemma fetcher_requests:
  assumes "fetcher_run peer initial inbox = (t, effs, continue)"
  shows "distinct (requests effs) \<and>
    set (requests effs) = set initial \<union> missing_reported (handled inbox) \<and>
    (\<forall>h q. RequestVertex h q \<in> set effs \<longrightarrow> q = peer) \<and>
    (continue \<longleftrightarrow> (\<forall>(resp, _) \<in> set inbox. \<not> ends_fetch resp))"
proof -
  let ?t0 = "fetcher_new peer initial"
  obtain t1 effs1 where start: "request_hashes initial ?t0 = (t1, effs1)" by (metis surj_pair)
  obtain effs2 where loop: "fetch_loop inbox t1 = (t, effs2, continue)" "effs = effs1 @ effs2"
    using assms start by (auto simp: fetcher_run_def Let_def split: prod.splits)
  note new1 = request_hashes_new[OF start] and req = fetch_loop_requested[OF loop(1)]
  have "requests_new ?t0 t effs"
    using requests_new_trans[OF _ fetch_loop_new[OF loop(1)]] new1 loop(2) by auto
  moreover have "fset (fe_requested t) = set initial \<union> missing_reported (handled inbox)"
    using req new1 by (auto simp: fetcher_new_def fset_of_list.rep_eq)
  ultimately show ?thesis using req by (auto simp: requests_new_def fetcher_new_def)
qed

text \<open>The peer is blocked only by the response that ends the loop.\<close>

lemma request_hashes_only:
  "request_hashes hs t = (t', effs) \<Longrightarrow> \<forall>e \<in> set effs. \<exists>h. e = RequestVertex h (fe_peer t)"
proof (induction hs t arbitrary: t' effs rule: request_hashes.induct)
  case (2 h hs t)
  then show ?case by (fastforce simp: Let_def split: if_splits prod.splits)
qed simp

lemma fetch_loop_blocks:
  "fetch_loop inbox t = (t', effs, c) \<Longrightarrow> \<forall>(resp, _) \<in> set inbox. \<not> ends_fetch resp \<Longrightarrow>
     \<forall>e \<in> set effs. \<exists>h. e = RequestVertex h (fe_peer t)"
proof (induction inbox arbitrary: t t' effs c)
  case (Cons x inbox)
  obtain resp submitted where x: "x = (resp, submitted)" by (cases x)
  obtain t1 effs1 c1 where one: "fetch_response resp submitted t = (t1, effs1, c1)" by (metis prod_cases3)
  have "c1" using fetch_response_continue[OF one] Cons.prems(2) x by auto
  then obtain effs2 where two: "fetch_loop inbox t1 = (t', effs2, c)" "effs = effs1 @ effs2"
    using Cons.prems(1) one x by (auto split: prod.splits)
  have peer: "fe_peer t1 = fe_peer t" using fetch_response_new[OF one] by (simp add: requests_new_def)
  have "\<forall>e \<in> set effs1. \<exists>h. e = RequestVertex h (fe_peer t)"
    using one request_hashes_only \<open>c1\<close>
    by (auto simp: fetch_response_def Let_def split: option.splits response.splits sum.splits api_error.splits
        consensus_error.splits dag_error.splits prod.splits)
  with Cons.IH[OF two(1)] Cons.prems(2) two(2) peer show ?case by auto
qed simp

lemma fetcher_blocks:
  assumes "fetcher_run peer initial inbox = (t, effs, c)" "\<forall>(resp, _) \<in> set inbox. \<not> ends_fetch resp"
  shows "\<forall>e \<in> set effs. \<exists>h. e = RequestVertex h peer"
proof -
  let ?t0 = "fetcher_new peer initial"
  obtain t1 effs1 where start: "request_hashes initial ?t0 = (t1, effs1)" by (metis surj_pair)
  obtain effs2 where loop: "fetch_loop inbox t1 = (t, effs2, c)" "effs = effs1 @ effs2"
    using assms(1) start by (auto simp: fetcher_run_def Let_def split: prod.splits)
  have "fe_peer t1 = peer" "fe_peer ?t0 = peer"
    using request_hashes_new[OF start] by (simp_all add: requests_new_def fetcher_new_def)
  with request_hashes_only[OF start] fetch_loop_blocks[OF loop(1) assms(2)] loop(2) show ?thesis by auto
qed

text \<open>
  C30: Whatever the peer answers and the consensus task reports, in whatever order, the fetcher asks
  its one peer for each hash at most once, and for exactly the hashes it was started with and the
  missing parents reported before it ends. It ends at the first response that is neither a vertex
  nor an error, or at the end of the channel.
\<close>

theorem fetcher_requests_once:
  assumes "fetcher_run peer initial inbox = (t, effs, continue)"
  shows "distinct (requests effs) \<and>
    set (requests effs) = set initial \<union> missing_reported (handled inbox) \<and>
    (\<forall>h q. RequestVertex h q \<in> set effs \<longrightarrow> q = peer) \<and>
    (continue \<longleftrightarrow> (\<forall>(resp, _) \<in> set inbox. \<not> ends_fetch resp))"
  by (rule fetcher_requests[OF assms])

definition fetched_inbox :: "(response option \<times> (api_error + hash fset)) list" where
  "fetched_inbox =
     [(Some (ResponseVertex genesis_vertex),
         Inl (ApiTask (ConsensusDag (MissingParents [byte_hash 1, byte_hash 2])))),
      (Some (ResponsePreference True), Inl TimerElapsed)]"

theorem fetcher_requests_once_witness:
  "set (requests (fst (snd (fetcher_run 3 [byte_hash 1] fetched_inbox)))) = {byte_hash 1, byte_hash 2}"
proof -
  obtain t effs c where run: "fetcher_run 3 [byte_hash 1] fetched_inbox = (t, effs, c)"
    by (metis prod_cases3)
  have "missing_reported (handled fetched_inbox) = {byte_hash 1, byte_hash 2}"
    by (auto simp: missing_reported_def handled_def ends_fetch_def fetched_inbox_def)
  with fetcher_requests_once[OF run] run show ?thesis by auto
qed

end
