(* ===== verification/P2p_Props.thy ===== *)
theory P2p_Props
  imports P2p_Task
begin

text \<open>The properties of the peer-to-peer task: ports, and the routing of requests and responses.\<close>

text \<open>
  C33: The search for a port ends. It binds the configured port if that is free, and otherwise,
  where searching is on, the least free port above it; it gives up exactly where none is free up
  to the greatest port number, without wrapping around to the low ones.
\<close>

theorem listener_binds_least_port:
  "start_listener listen_on quicv1 cfg =
     (let free = (\<lambda>port. listen_on (listen_addr quicv1 (pc_addr cfg) port));
          ports = (if pc_search_port cfg then {p. pc_port cfg \<le> p} else {pc_port cfg})
      in if \<exists>p \<in> ports. free p then Some (Min {p \<in> ports. free p}) else None)"
proof -
  let ?free = "\<lambda>port. listen_on (listen_addr quicv1 (pc_addr cfg) port)"
  let ?ports = "if pc_search_port cfg then {p. pc_port cfg \<le> p} else {pc_port cfg}"
  note found = search_port_from_result[of ?free "pc_port cfg" "pc_search_port cfg"]
  show ?thesis
  proof (cases "start_listener listen_on quicv1 cfg")
    case None
    with found have "\<not> (\<exists>p \<in> ?ports. ?free p)" by (auto simp: start_listener_def)
    with None show ?thesis by (simp add: Let_def)
  next
    case (Some p)
    with found have p: "?free p" "pc_port cfg \<le> p" "\<forall>q. pc_port cfg \<le> q \<and> q < p \<longrightarrow> \<not> ?free q"
      "pc_search_port cfg \<or> p = pc_port cfg" by (auto simp: start_listener_def)
    then have mem: "p \<in> {p \<in> ?ports. ?free p}" by auto
    moreover have "p \<le> q" if "q \<in> {p \<in> ?ports. ?free p}" for q
      using that p(2-4) by (auto split: if_splits)
    ultimately have "Min {p \<in> ?ports. ?free p} = p" by (intro Min_eqI) auto
    moreover have "\<exists>p \<in> ?ports. ?free p" using mem by blast
    ultimately show ?thesis using Some by (simp add: Let_def)
  qed
qed

section \<open>Routing\<close>

text \<open>An input that answers the outstanding request \<open>rid\<close>, or takes its identifier again.\<close>

definition touches_request :: "nat \<Rightarrow> p2p_input \<Rightarrow> bool" where
  "touches_request rid inp \<longleftrightarrow>
     (case inp of
        SwarmRequests (RrResponse r _) \<Rightarrow> r = rid
      | Inbound (SendRequest _ _ _) r _ \<Rightarrow> r = rid
      | _ \<Rightarrow> False)"

definition touches_inbound :: "nat \<Rightarrow> p2p_input \<Rightarrow> bool" where
  "touches_inbound rid inp \<longleftrightarrow>
     (case inp of
        SwarmRequests (RrRequest r _ _) \<Rightarrow> r = rid
      | Inbound (Respond r _) _ _ \<Rightarrow> r = rid
      | _ \<Rightarrow> False)"

lemma p2p_step_keeps_requests:
  assumes "p2p_step P inp t = Some (t', effs, continue)" and "\<not> touches_request rid inp"
  shows "fmlookup (pt_pending_requests t') rid = fmlookup (pt_pending_requests t) rid"
  using assms
  by (auto simp: p2p_step_def touches_request_def handle_request_response_def handle_inbound_action_def
      bind_eq_Some_conv split: p2p_input.splits rr_event.splits p2p_action.splits if_splits)

lemma p2p_step_keeps_responses:
  assumes "p2p_step P inp t = Some (t', effs, continue)" and "\<not> touches_inbound rid inp"
  shows "fmlookup (pt_pending_responses t') rid = fmlookup (pt_pending_responses t) rid"
  using assms
  by (auto simp: p2p_step_def touches_inbound_def handle_request_response_def handle_inbound_action_def
      bind_eq_Some_conv split: p2p_input.splits rr_event.splits p2p_action.splits if_splits)

lemma p2p_run_keeps:
  assumes "p2p_run P inps t = Some (t', effs, continue)"
  shows "list_all (\<lambda>inp. \<not> touches_request rid inp) inps \<Longrightarrow>
      fmlookup (pt_pending_requests t') rid = fmlookup (pt_pending_requests t) rid"
    and "list_all (\<lambda>inp. \<not> touches_inbound rid inp) inps \<Longrightarrow>
      fmlookup (pt_pending_responses t') rid = fmlookup (pt_pending_responses t) rid"
  using assms
  by (induction inps arbitrary: t t' effs continue)
    (fastforce simp: bind_eq_Some_conv p2p_step_keeps_requests p2p_step_keeps_responses split: if_splits)+

text \<open>The loop goes on while the channel of the actions is open.\<close>

lemma p2p_step_continues:
  "p2p_step P inp t = Some (t', effs, continue) \<Longrightarrow> continue \<longleftrightarrow> inp \<noteq> ActionsClosed"
  by (auto simp: p2p_step_def bind_eq_Some_conv split: p2p_input.splits prod.splits)

lemma p2p_run_continues:
  "p2p_run P inps t = Some (t', effs, continue) \<Longrightarrow> continue \<longleftrightarrow> ActionsClosed \<notin> set inps"
proof (induction inps arbitrary: t t' effs continue)
  case (Cons inp inps)
  then obtain t1 effs1 c1 where one: "p2p_step P inp t = Some (t1, effs1, c1)"
    by (auto simp: bind_eq_Some_conv)
  note c1 = p2p_step_continues[OF one]
  show ?case
  proof (cases c1)
    case True
    with one Cons.prems obtain effs2 where "p2p_run P inps t1 = Some (t', effs2, continue)"
      by (auto simp: bind_eq_Some_conv)
    with Cons.IH c1 True show ?thesis by auto
  next
    case False
    with one Cons.prems c1 show ?thesis by auto
  qed
qed simp

text \<open>
  C32: Whatever happens in between, as long as the loop goes on, a response from the network reaches
  the channel of the task that sent the request, and a response of this node goes out on the channel
  its request came in on, each once: a second one with the same identifier has no effect. A request that fails on the
  network instead (no response comes) stays pending and its asker hears nothing.
\<close>

theorem responses_reach_their_asker:
  assumes "p2p_step P (Inbound (SendRequest req (Some peer) ch) rid b) t = Some (t1, effs1, c1)"
    and "p2p_run P inps t1 = Some (t2, effs2, True)" and "list_all (\<lambda>inp. \<not> touches_request rid inp) inps"
    and "p2p_step P (SwarmRequests (RrRequest rid' req' chan)) u = Some (u1, effs3, c2)"
    and "p2p_run P inps' u1 = Some (u2, effs4, True)" and "list_all (\<lambda>inp. \<not> touches_inbound rid' inp) inps'"
  shows "effs1 = [RequestOut rid peer req] \<and>
    (\<exists>t3. p2p_step P (SwarmRequests (RrResponse rid resp)) t2 = Some (t3, [Deliver ch resp], True) \<and>
       p2p_step P (SwarmRequests (RrResponse rid resp')) t3 = Some (t3, [], True)) \<and>
    effs3 = [Emit (RequestMessage rid' req')] \<and>
    (\<exists>u3. p2p_step P (Inbound (Respond rid' resp) n b') u2 = Some (u3, [ResponseOut chan resp], True) \<and>
       p2p_step P (Inbound (Respond rid' resp') n' b'') u3 = Some (u3, [], True))"
proof -
  have t1: "t1 = t\<lparr>pt_pending_requests := fmupd rid ch (pt_pending_requests t)\<rparr>" "effs1 = [RequestOut rid peer req]"
    using assms(1) by (simp_all add: p2p_step_def handle_inbound_action_def)
  have u1: "u1 = u\<lparr>pt_pending_responses := fmupd rid' chan (pt_pending_responses u)\<rparr>"
    "effs3 = [Emit (RequestMessage rid' req')]"
    using assms(4) by (auto simp: p2p_step_def handle_request_response_def emit_def split: if_splits)
  have "fmlookup (pt_pending_requests t2) rid = Some ch"
    using p2p_run_keeps(1)[OF assms(2,3)] t1 by simp
  moreover have "fmlookup (pt_pending_responses u2) rid' = Some chan"
    using p2p_run_keeps(2)[OF assms(5,6)] u1 by simp
  ultimately show ?thesis using t1 u1
    by (simp add: p2p_step_def handle_request_response_def handle_inbound_action_def emit_def fmdrop_idle')
qed

definition quiet_env :: p2p_env where
  "quiet_env = \<lparr>pe_now = 0, pe_encode = (\<lambda>_. None), pe_decode = (\<lambda>_. None), pe_subscribed = True\<rparr>"

definition idle_task :: p2p_task where
  "idle_task = p2p_task_new \<lparr>pc_datadir = [], pc_identity_key = 0, pc_boot_peers = [], pc_addr = 0, pc_port = 9047, pc_search_port = True, pc_kad_mode_override = None\<rparr>"

theorem responses_reach_their_asker_witness:
  "\<exists>t1 t3. p2p_step quiet_env (Inbound (SendRequest (GetVertex default_hash) (Some 4) 11) 0 True) idle_task =
      Some (t1, [RequestOut 0 4 (GetVertex default_hash)], True) \<and>
    p2p_step quiet_env (SwarmRequests (RrResponse 0 (ResponsePreference True))) t1 =
      Some (t3, [Deliver 11 (ResponsePreference True)], True)"
proof -
  let ?send = "Inbound (SendRequest (GetVertex default_hash) (Some 4) 11) 0 True"
  let ?recv = "SwarmRequests (RrRequest 5 (GetVertex default_hash) 21)"
  obtain t1 where t1: "p2p_step quiet_env ?send idle_task = Some (t1, [RequestOut 0 4 (GetVertex default_hash)], True)"
    by (simp add: p2p_step_def handle_inbound_action_def)
  obtain u1 where u1: "p2p_step quiet_env ?recv idle_task =
      Some (u1, [Emit (RequestMessage 5 (GetVertex default_hash))], True)"
    by (simp add: p2p_step_def handle_request_response_def emit_def quiet_env_def)
  have run: "p2p_run quiet_env [SwarmOther] t1 = Some (t1, [], True)"
    "p2p_run quiet_env [] u1 = Some (u1, [], True)"
    by (simp_all add: p2p_step_def)
  have "\<exists>t3. p2p_step quiet_env (SwarmRequests (RrResponse 0 (ResponsePreference True))) t1 =
      Some (t3, [Deliver 11 (ResponsePreference True)], True)"
    using responses_reach_their_asker[OF t1 run(1) _ u1 run(2)]
    by (simp add: touches_request_def) blast
  with t1 show ?thesis by blast
qed

end
