(* ===== verification/Node.thy ===== *)
theory Node
  imports P2p_Task Fetcher
begin

text \<open>
  The parts around the tasks: the event handler (\<open>src/app/taurusd/handler.rs\<close>), the JSON RPC
  methods (\<open>src/rpc/handlers.rs\<close>) and the proposals of the sequencer
  (\<open>src/sequencer/mod.rs\<close>). Each awaits its calls to the other tasks: what a call returns is
  an argument, and what the part does in turn is its list of effects.
\<close>

section \<open>The event handler\<close>

datatype handler_effect =
    StartFetcher peer_id "hash list"
  | Report validation_report
  | RespondTo nat response
  | AddValidatorCall peer_id

text \<open>A vertex from the gossip network, with the consensus task's answer to its submission.\<close>

definition handler_gossip :: "broadcast \<Rightarrow> api_error + hash fset \<Rightarrow> handler_effect list" where
  "handler_gossip msg submitted =
     (case bc_data msg of
        BroadcastVertex vx \<Rightarrow>
          (case submitted of
             Inr _ \<Rightarrow> [Report (accept_message msg)]
           | Inl (ApiTask (ConsensusDag (MissingParents missing))) \<Rightarrow>
               [StartFetcher (bc_src msg) missing, Report (accept_message msg)]
           | Inl (ApiTask (ConsensusDag (BadHeight _ _))) \<Rightarrow> [Report (reject_message msg)]
           | Inl (ApiTask (ConsensusDag ConflictingAncestors)) \<Rightarrow> [Report (reject_message msg)]
           | Inl (ApiTask (ConsensusDag SelfReferentialParent)) \<Rightarrow> [Report (reject_message msg)]
           | Inl (ApiTask (ConsensusDag (VertexError _))) \<Rightarrow> [Report (reject_message msg)]
           | _ \<Rightarrow> [Report (ignore_message msg)]))"

text \<open>A request of a peer, with the consensus task's answers to the two kinds of call.\<close>

definition handler_request ::
  "nat \<Rightarrow> request \<Rightarrow> (hash \<Rightarrow> api_error + vertex option) \<Rightarrow> (hash \<Rightarrow> api_error + bool option) \<Rightarrow>
     handler_effect list" where
  "handler_request rid req vertex_call preference_call =
     [RespondTo rid
       (case req of
          GetVertex vhash \<Rightarrow>
            (case vertex_call vhash of
               Inr (Some vx) \<Rightarrow> ResponseVertex vx
             | Inr None \<Rightarrow> ResponseError ErrNotFound
             | Inl _ \<Rightarrow> ResponseError Unknown)
        | GetPreference vhash \<Rightarrow>
            (case preference_call vhash of
               Inr (Some pref) \<Rightarrow> ResponsePreference pref
             | Inr None \<Rightarrow> ResponseError ErrNotFound
             | Inl _ \<Rightarrow> ResponseError Unknown))]"

text \<open>One turn of the loop. Errors on the event channels are logged; a new frontier is ignored.\<close>

datatype handler_input = P2pEvent p2p_event | P2pEventError | ConsensusEvent | ConsensusEventError

record handler_calls =
  hc_submit :: "vertex \<Rightarrow> api_error + hash fset"
  hc_get_vertex :: "hash \<Rightarrow> api_error + vertex option"
  hc_get_preference :: "hash \<Rightarrow> api_error + bool option"

definition handler_step :: "handler_calls \<Rightarrow> handler_input \<Rightarrow> handler_effect list" where
  "handler_step C inp =
     (case inp of
        P2pEvent (GossipsubMessage msg) \<Rightarrow> handler_gossip msg (hc_submit C (broadcast_vertex (bc_data msg)))
      | P2pEvent (NewPeer peer) \<Rightarrow> [AddValidatorCall peer]
      | P2pEvent (RequestMessage rid req) \<Rightarrow>
          handler_request rid req (hc_get_vertex C) (hc_get_preference C)
      | P2pEventError \<Rightarrow> []
      | ConsensusEvent \<Rightarrow> []
      | ConsensusEventError \<Rightarrow> [])"

section \<open>JSON RPC\<close>

datatype rpc_error = RpcUnknown | RpcBusy | RpcBadArg

definition rpc_error_from :: "api_error \<Rightarrow> rpc_error" where
  "rpc_error_from e = (case e of TimerElapsed \<Rightarrow> RpcBusy | _ \<Rightarrow> RpcUnknown)"

text \<open>The error object: code and message; there is never any data.\<close>

definition rpc_error_object :: "rpc_error \<Rightarrow> int \<times> string \<times> string option" where
  "rpc_error_object e =
     (case e of RpcUnknown \<Rightarrow> - 32000 | RpcBusy \<Rightarrow> - 32001 | RpcBadArg \<Rightarrow> - 32002,
      case e of RpcUnknown \<Rightarrow> ''unknown error'' | RpcBusy \<Rightarrow> ''server is busy''
        | RpcBadArg \<Rightarrow> ''one or more arguments is incorrect'',
      None)"

definition rpc_get_frontier :: "vertex list call \<Rightarrow> rpc_error + vertex list" where
  "rpc_get_frontier c =
     (case api_get_frontier c of Inl e \<Rightarrow> Inl (rpc_error_from e) | Inr vxs \<Rightarrow> Inr vxs)"

definition rpc_get_frontier_meta ::
  "(vertex \<Rightarrow> hash) \<Rightarrow> vertex list call \<Rightarrow> rpc_error + vertex_meta list" where
  "rpc_get_frontier_meta H c =
     (case api_get_frontier_meta H c of Inl e \<Rightarrow> Inl (rpc_error_from e) | Inr metas \<Rightarrow> Inr metas)"

text \<open>
  A submission is published before the consensus task sees it. The argument is \<open>None\<close> where
  it does not parse as a vertex; the first component lists what was published.
\<close>

definition rpc_submit_vertex ::
  "vertex option \<Rightarrow> bool \<Rightarrow> (vertex \<Rightarrow> (consensus_error + hash fset) call) \<Rightarrow>
     p2p_action list \<times> (rpc_error + hash fset)" where
  "rpc_submit_vertex params p2p_alive submit =
     (case params of
        None \<Rightarrow> ([], Inl RpcBadArg)
      | Some vx \<Rightarrow>
          (case api_broadcast_vertex p2p_alive vx of
             Inl _ \<Rightarrow> ([], Inl RpcUnknown)
           | Inr published \<Rightarrow>
               ([published],
                case api_submit_vertex (submit vx) of
                  Inl e \<Rightarrow> Inl (rpc_error_from e) | Inr waiting \<Rightarrow> Inr waiting)))"

section \<open>The sequencer\<close>

text \<open>The proposal on a frontier: one more than its greatest height, in 64 bits; a crash on none.\<close>

definition propose :: "int \<Rightarrow> vertex_meta list \<Rightarrow> vertex option" where
  "propose now metas = do {
     m \<leftarrow> max_opt (map vm_height metas);
     Some ((empty_vertex now)\<lparr>vx_height := 1 + m, vx_parents := map vm_hash metas\<rparr>) }"

text \<open>
  One tick of the timer, with the answers of the node: an error of either request ends the
  sequencer, success leaves the vertex that was submitted.
\<close>

definition sequencer_tick ::
  "int \<Rightarrow> 'e + vertex_meta list \<Rightarrow> (vertex \<Rightarrow> 'e + hash list) \<Rightarrow> ('e + vertex) option" where
  "sequencer_tick now frontier_meta submit =
     (case frontier_meta of
        Inl e \<Rightarrow> Some (Inl e)
      | Inr metas \<Rightarrow> do {
          proposal \<leftarrow> propose now metas;
          (case submit proposal of Inl e \<Rightarrow> Some (Inl e) | Inr _ \<Rightarrow> Some (Inr proposal)) })"

section \<open>The consensus task as a service\<close>

text \<open>Several submissions in a row.\<close>

primrec submit_all :: "(vertex \<Rightarrow> 's \<Rightarrow> ('s \<times> 'r) option) \<Rightarrow> vertex list \<Rightarrow> 's \<Rightarrow> ('s \<times> 'r list) option" where
  "submit_all submit [] s = Some (s, [])"
| "submit_all submit (vx # vxs) s = do {
     (s1, r) \<leftarrow> submit vx s;
     (s2, rs) \<leftarrow> submit_all submit vxs s1;
     Some (s2, r # rs) }"

text \<open>
  A fetcher whose peer has answered with these vertices, each submitted as it came: the service's
  state, what the fetcher did, and whether its loop goes on.
\<close>

definition fetch_session ::
  "(vertex \<Rightarrow> 's \<Rightarrow> ('s \<times> (consensus_error + hash fset)) option) \<Rightarrow> peer_id \<Rightarrow> hash list \<Rightarrow>
     vertex list \<Rightarrow> 's \<Rightarrow> ('s \<times> fetch_effect list \<times> bool) option" where
  "fetch_session submit peer initial vxs s = do {
     (s', rs) \<leftarrow> submit_all submit vxs s;
     Some (s', snd (fetcher_run peer initial
       (zip (map (\<lambda>vx. Some (ResponseVertex vx)) vxs) (map (\<lambda>r. api_submit_vertex (Replied r)) rs)))) }"

text \<open>The parents that replies reported as missing.\<close>

definition missing_in :: "(consensus_error + hash fset) list \<Rightarrow> hash set" where
  "missing_in rs = (\<Union>ps \<in> {ps. Inl (ConsensusDag (MissingParents ps)) \<in> set rs}. set ps)"

lemma missing_reported_zip:
  "length rs = length vxs \<Longrightarrow>
   missing_reported
     (zip (map (\<lambda>vx. Some (ResponseVertex vx)) vxs) (map (\<lambda>r. api_submit_vertex (Replied r)) rs)) =
   missing_in rs"
proof (induction vxs rs rule: list_induct2')
  case (4 vx vxs r rs)
  have "missing_reported [(Some (ResponseVertex vx), api_submit_vertex (Replied r))] = missing_in [r]"
    by (auto simp: missing_reported_def missing_in_def api_submit_vertex_def split: sum.splits)
  then show ?case using 4
    by (simp only: list.map zip_Cons_Cons missing_reported_Cons[of "(_, _)" "zip _ _"])
       (auto simp: missing_in_def)
qed (simp_all add: missing_reported_def missing_in_def)

text \<open>
  What the handler, the fetcher and the RPC methods rely on: while there is room
  (\<open>ready n\<close>: for \<open>n\<close> more vertices) a submission is answered; nothing known is
  forgotten; success puts the vertex into the graph; and parents are reported as missing exactly
  where they are not known, in which case the vertex itself is remembered.
\<close>

locale consensus_service =
  fixes submit :: "vertex \<Rightarrow> 's \<Rightarrow> ('s \<times> (consensus_error + hash fset)) option"
    and ready :: "nat \<Rightarrow> 's \<Rightarrow> bool"
    and known :: "'s \<Rightarrow> hash set"
    and inserted_in :: "'s \<Rightarrow> hash set"
    and H :: "vertex \<Rightarrow> hash"
  assumes answers: "ready (Suc n) s \<Longrightarrow> \<exists>s' r. submit vx s = Some (s', r) \<and> ready n s'"
    and remembers: "ready (Suc n) s \<Longrightarrow> submit vx s = Some (s', r) \<Longrightarrow> known s \<subseteq> known s'"
    and enters: "ready (Suc n) s \<Longrightarrow> submit vx s = Some (s', Inr waiting) \<Longrightarrow> H vx \<in> inserted_in s'"
    and missing: "ready (Suc n) s \<Longrightarrow>
      submit vx s = Some (s', Inl (ConsensusDag (MissingParents ps))) \<Longrightarrow>
      set ps = set (vx_parents vx) - known s \<and> ps \<noteq> [] \<and> H vx \<in> known s'"
begin

lemma submit_all_answers:
  "ready (length vxs) s \<Longrightarrow> \<exists>s' rs. submit_all submit vxs s = Some (s', rs) \<and> length rs = length vxs"
proof (induction vxs arbitrary: s)
  case (Cons vx vxs)
  then obtain s1 r where "submit vx s = Some (s1, r)" "ready (length vxs) s1"
    using answers[of "length vxs" s vx] by auto
  with Cons.IH[of s1] show ?case by fastforce
qed simp

lemma reported_unknown:
  assumes "ready (length vxs) s" and "submit_all submit vxs s = Some (s', rs)"
  shows "missing_reported
      (zip (map (\<lambda>vx. Some (ResponseVertex vx)) vxs) (map (\<lambda>r. api_submit_vertex (Replied r)) rs))
    \<subseteq> (\<Union>vx \<in> set vxs. set (vx_parents vx)) - known s"
  using assms
proof (induction vxs arbitrary: s rs)
  case Nil
  then show ?case by (simp add: missing_reported_def)
next
  case (Cons vx vxs)
  obtain s1 r rs1 where s1: "submit vx s = Some (s1, r)" "submit_all submit vxs s1 = Some (s', rs1)"
    "rs = r # rs1"
    using Cons.prems(2) by (auto simp: bind_eq_Some_conv)
  have rdy: "ready (Suc (length vxs)) s" using Cons.prems(1) by simp
  then have rdy1: "ready (length vxs) s1" using answers[OF rdy, of vx] s1(1) by auto
  have grow: "known s \<subseteq> known s1" by (rule remembers[OF rdy s1(1)])
  have here: "missing_reported [(Some (ResponseVertex vx), api_submit_vertex (Replied r))] \<subseteq>
      set (vx_parents vx) - known s"
  proof
    fix h assume "h \<in> missing_reported [(Some (ResponseVertex vx), api_submit_vertex (Replied r))]"
    then obtain ps where "Inl (ApiTask (ConsensusDag (MissingParents ps))) = api_submit_vertex (Replied r)"
      "h \<in> set ps" by (auto simp: missing_reported_def)
    moreover from this have "r = Inl (ConsensusDag (MissingParents ps))"
      by (auto simp: api_submit_vertex_def split: sum.splits)
    ultimately show "h \<in> set (vx_parents vx) - known s" using missing[OF rdy] s1(1) by blast
  qed
  let ?zip = "\<lambda>vxs rs. zip (map (\<lambda>vx. Some (ResponseVertex vx)) vxs) (map (\<lambda>r. api_submit_vertex (Replied r)) rs)"
  have "missing_reported (?zip (vx # vxs) rs) =
      missing_reported [(Some (ResponseVertex vx), api_submit_vertex (Replied r))] \<union>
      missing_reported (?zip vxs rs1)"
    unfolding s1(3) list.map zip_Cons_Cons by (rule missing_reported_Cons)
  moreover have "missing_reported (?zip vxs rs1) \<subseteq> (\<Union>vx \<in> set vxs. set (vx_parents vx)) - known s1"
    by (rule Cons.IH[OF rdy1 s1(2)])
  ultimately show ?case using here grow unfolding list.set by blast
qed

text \<open>
  So the fetcher asks for what it was started with and for parents nobody knew, and then waits for
  more: vertices do not end its loop.
\<close>

lemma fetch_session_requests:
  assumes "ready (length vxs) s"
  shows "\<exists>s' rs effs. submit_all submit vxs s = Some (s', rs) \<and> length rs = length vxs \<and>
    fetch_session submit peer initial vxs s = Some (s', effs, True) \<and>
    distinct (requests effs) \<and> (\<forall>e \<in> set effs. \<exists>h. e = RequestVertex h peer) \<and>
    set (requests effs) = set initial \<union> missing_in rs \<and>
    missing_in rs \<subseteq> (\<Union>vx \<in> set vxs. set (vx_parents vx)) - known s"
proof -
  obtain s' rs where all: "submit_all submit vxs s = Some (s', rs)" "length rs = length vxs"
    using submit_all_answers[OF assms] by blast
  let ?inbox = "zip (map (\<lambda>vx. Some (ResponseVertex vx)) vxs) (map (\<lambda>r. api_submit_vertex (Replied r)) rs)"
  obtain t effs c where run: "fetcher_run peer initial ?inbox = (t, effs, c)" by (metis prod_cases3)
  note req = fetcher_requests[OF run]
  have open_loop: "\<forall>(resp, _) \<in> set ?inbox. \<not> ends_fetch resp"
    by (auto simp: ends_fetch_def dest!: set_zip_leftD)
  then have "handled ?inbox = ?inbox" unfolding handled_def by (simp add: takeWhile_eq_all_conv)
  moreover have "missing_reported ?inbox = missing_in rs" by (rule missing_reported_zip[OF all(2)])
  moreover have "missing_in rs \<subseteq> (\<Union>vx \<in> set vxs. set (vx_parents vx)) - known s"
    using reported_unknown[OF assms all(1)] calculation(2) by simp
  moreover have "\<forall>e \<in> set effs. \<exists>h. e = RequestVertex h peer"
    using fetcher_blocks[OF run open_loop] .
  ultimately show ?thesis using req all run open_loop by (simp add: fetch_session_def)
qed

end

section \<open>The consensus task provides the service\<close>

lemma check_missing:
  assumes "check_outcome E d vx (Inl (MissingParents ps))"
  shows "ps = filter (\<lambda>p. p |\<notin>| fmdom (dag_vertex d)) (vx_parents vx) \<and> ps \<noteq> []"
  using assms by (auto simp: check_outcome_def active_constraints_spec_def filter_empty_conv split: if_splits)

definition submit_reply :: "consensus_effect list \<Rightarrow> (consensus_error + hash fset) option" where
  "submit_reply effs = (case rev effs of Reply (SubmitReply r) # _ \<Rightarrow> Some r | _ \<Rightarrow> None)"

definition submit_call ::
  "env \<Rightarrow> (hash \<Rightarrow> nat list) \<Rightarrow> vertex \<Rightarrow> consensus_task \<Rightarrow>
     (consensus_task \<times> (consensus_error + hash fset)) option" where
  "submit_call E rng vx t = do {
     (t', effs) \<leftarrow> handle_action E rng (SubmitVertex vx) t;
     r \<leftarrow> submit_reply effs;
     Some (t', r) }"

definition task_ready ::
  "env \<Rightarrow> (hash \<Rightarrow> nat list) \<Rightarrow> consensus_config \<Rightarrow> nat \<Rightarrow> consensus_task \<Rightarrow> bool" where
  "task_ready E rng cfg n t \<longleftrightarrow>
     env_ok E \<and> task_inv (env_hash E) cfg t \<and> room n t \<and>
     (\<forall>h. fair_draws (length (ct_validators t)) (rng h))"

definition known_in :: "consensus_task \<Rightarrow> hash set" where
  "known_in t = fset (fmdom (dag_vertex (ct_dag t)))"

definition graph_in :: "consensus_task \<Rightarrow> hash set" where
  "graph_in t = fset (fmdom (dag_graph (ct_dag t)))"

lemma submit_call_walk:
  assumes ready: "task_ready E rng cfg (Suc n) t"
  shows "\<exists>t' resp. submit_call E rng vx t = Some (t', map_sum ConsensusDag id resp) \<and>
    task_ready E rng cfg n t' \<and> known_in t \<subseteq> known_in t' \<and>
    check_vertex E (ct_dag t) vx = Some (map_sum id (\<lambda>_. ()) resp) \<and>
    check_outcome E (ct_dag t) vx (map_sum id (\<lambda>_. ()) resp) \<and>
    ((\<exists>w. resp = Inr w) \<longrightarrow> env_hash E vx \<in> graph_in t') \<and>
    ((\<exists>ps. resp = Inl (MissingParents ps)) \<longrightarrow> env_hash E vx \<in> known_in t')"
proof -
  have E: "env_ok E" and inv: "task_inv (env_hash E) cfg t" and room: "room (Suc n) t"
    and fair: "\<And>h. fair_draws (length (ct_validators t)) (rng h)"
    using ready by (simp_all add: task_ready_def)
  have dinv: "dag_inv (env_hash E) (ct_dag t)"
    using inv reach_invariant by (auto simp: task_inv_def)
  obtain t' effs where sub: "submit_action E rng vx t = Some (t', effs)" "submit_effect E vx t t' effs"
    "task_inv (env_hash E) cfg t'" "room n t'"
    using submit_walk[of "env_hash E" cfg t E n rng vx, OF inv E refl room fair] by blast
  obtain d1 resp where ins: "try_insert E vx (ct_dag t) = Some (d1, resp)"
    and eff: "case resp of
        Inl e \<Rightarrow> t' = t\<lparr>ct_dag := d1\<rparr> \<and> effs = [Reply (SubmitReply (Inl (ConsensusDag e)))]
      | Inr waiting \<Rightarrow> \<exists>d2 S frontier polls.
          retry_pending E (env_hashes E waiting) d1 = Some (d2, Inr S) \<and>
          env_hash E vx |\<in>| fmdom (dag_graph d2) \<and> get_frontier E d2 = Some frontier \<and>
          t' = t\<lparr>ct_dag := d2, ct_unread := Suc (ct_unread t)\<rparr> \<and>
          effs = polls @ [NewFrontier frontier, Reply (SubmitReply (Inr waiting))] \<and>
          polls_started (env_hash E) t frontier polls"
    using sub(2) unfolding submit_effect_def by blast
  have out: "try_insert_outcome E vx (ct_dag t) (d1, resp)" "dag_inv (env_hash E) d1"
    using try_insert_walk[OF dinv E refl room_capacity[OF room], of vx] ins by auto
  note res = try_insert_result[OF out(1)]
  have ext: "extends (ct_dag t) d1" using try_insert_extends[OF dinv out(1)] by simp
  show ?thesis
  proof (cases resp)
    case (Inl e)
    then have t': "t' = t\<lparr>ct_dag := d1\<rparr>" "effs = [Reply (SubmitReply (Inl (ConsensusDag e)))]"
      using eff by simp_all
    have "env_hash E vx \<in> known_in t'" if "e = MissingParents ps" for ps
      using res Inl that t' by (simp add: known_in_def registered_def)
    with Inl t' sub res E fair ext show ?thesis
      by (intro exI[of _ t'] exI[of _ resp])
        (auto simp: submit_call_def handle_action_def submit_reply_def task_ready_def known_in_def
          extends_def)
  next
    case (Inr waiting)
    then obtain d2 S frontier polls where d2: "retry_pending E (env_hashes E waiting) d1 = Some (d2, Inr S)"
      "env_hash E vx |\<in>| fmdom (dag_graph d2)" "t' = t\<lparr>ct_dag := d2, ct_unread := Suc (ct_unread t)\<rparr>"
      "effs = polls @ [NewFrontier frontier, Reply (SubmitReply (Inr waiting))]"
      using eff by auto
    have "capacity d1" using try_insert_room[OF out(1), of n] room by (simp add: room_def capacity_def)
    then have "extends d1 d2" using retry_pending_walk[OF E refl out(2), of "env_hashes E waiting"] d2(1) by auto
    with ext have "extends (ct_dag t) d2" by (rule extends_trans)
    with Inr d2 sub res E fair show ?thesis
      by (intro exI[of _ t'] exI[of _ resp])
        (auto simp: submit_call_def handle_action_def submit_reply_def task_ready_def known_in_def
          graph_in_def extends_def)
  qed
qed

interpretation consensus_node:
  consensus_service "submit_call E rng" "task_ready E rng cfg" known_in graph_in "env_hash E"
  for E rng cfg
proof
  fix n t vx t' r waiting ps
  assume rdy: "task_ready E rng cfg (Suc n) t"
  obtain t1 resp where call: "submit_call E rng vx t = Some (t1, map_sum ConsensusDag id resp)"
    "task_ready E rng cfg n t1" "known_in t \<subseteq> known_in t1"
    "check_outcome E (ct_dag t) vx (map_sum id (\<lambda>_. ()) resp)"
    "(\<exists>w. resp = Inr w) \<longrightarrow> env_hash E vx \<in> graph_in t1"
    "(\<exists>ps. resp = Inl (MissingParents ps)) \<longrightarrow> env_hash E vx \<in> known_in t1"
    using submit_call_walk[OF rdy, of vx] by blast
  show "\<exists>s' r. submit_call E rng vx t = Some (s', r) \<and> task_ready E rng cfg n s'" using call by blast
  show "known_in t \<subseteq> known_in t'" if "submit_call E rng vx t = Some (t', r)" using call that by simp
  show "env_hash E vx \<in> graph_in t'" if "submit_call E rng vx t = Some (t', Inr waiting)"
    using call that by (cases resp) auto
  show "set ps = set (vx_parents vx) - known_in t \<and> ps \<noteq> [] \<and> env_hash E vx \<in> known_in t'"
    if "submit_call E rng vx t = Some (t', Inl (ConsensusDag (MissingParents ps)))"
  proof -
    have "resp = Inl (MissingParents ps)" "t' = t1" using call(1) that by (cases resp; simp)+
    with check_missing[of E "ct_dag t" vx ps] call(4,6) show ?thesis
      by (auto simp: known_in_def)
  qed
qed

end
