(* ===== verification/Node_Props.thy ===== *)
theory Node_Props
  imports Node Task_Props Wire_Props
begin

text \<open>
  What the parts achieve together: the verdict of the handler on a gossiped vertex, what a fetcher
  asks for when its vertices are submitted as they come, and the fate of the sequencer's proposals.
\<close>

section \<open>Gossip\<close>

text \<open>The cases of \<open>check_outcome\<close> for a vertex that passes the sanity checks.\<close>

lemma sane_check_cases:
  assumes out: "check_outcome E d vx r" and sane: "sanity_checks vx = Inr ()"
  obtains
    (inserted) "env_hash E vx |\<in>| fmdom (dag_graph d)" "r = Inl AlreadyInserted"
  | (missing) "env_hash E vx |\<notin>| fmdom (dag_graph d)" "\<not> set (vx_parents vx) \<subseteq> fset (fmdom (dag_vertex d))"
      "r = Inl (MissingParents (filter (\<lambda>p. p |\<notin>| fmdom (dag_vertex d)) (vx_parents vx)))"
  | (waiting) ps where "env_hash E vx |\<notin>| fmdom (dag_graph d)"
      "set (vx_parents vx) \<subseteq> fset (fmdom (dag_vertex d))"
      "\<not> set (vx_parents vx) \<subseteq> fset (fmdom (dag_graph d))" "r = Inl (WaitingOnParents ps)"
  | (height) a b where "env_hash E vx |\<notin>| fmdom (dag_graph d)"
      "set (vx_parents vx) \<subseteq> fset (fmdom (dag_vertex d))"
      "set (vx_parents vx) \<subseteq> fset (fmdom (dag_graph d))" "vx_height vx \<noteq> 1 + parent_height d vx"
      "r = Inl (BadHeight a b)"
  | (ancestors) "env_hash E vx |\<notin>| fmdom (dag_graph d)"
      "set (vx_parents vx) \<subseteq> fset (fmdom (dag_vertex d))"
      "set (vx_parents vx) \<subseteq> fset (fmdom (dag_graph d))" "vx_height vx = 1 + parent_height d vx"
      "rejected_reach d vx \<and> r = Inl RejectedAncestor \<or>
       \<not> rejected_reach d vx \<and> (r = Inl SelfReferentialParent \<or> r = Inl ConflictingAncestors \<or> r = Inr ())"
proof -
  have s: "vx_version vx = VERSION" "vx_parents vx \<noteq> []" "distinct (vx_parents vx)"
    using sane by (simp_all add: sanity_checks_ok_iff)
  have ancestors': "rejected_reach d vx \<and> r = Inl RejectedAncestor \<or>
       \<not> rejected_reach d vx \<and> (r = Inl SelfReferentialParent \<or> r = Inl ConflictingAncestors \<or> r = Inr ())"
    if "env_hash E vx |\<notin>| fmdom (dag_graph d)" "set (vx_parents vx) \<subseteq> fset (fmdom (dag_vertex d))"
      "set (vx_parents vx) \<subseteq> fset (fmdom (dag_graph d))" "vx_height vx = 1 + parent_height d vx"
    using out s that by (auto simp: check_outcome_def active_constraints_spec_def split: if_splits)
  show thesis
  proof (cases "env_hash E vx |\<in>| fmdom (dag_graph d)")
    case True
    then show thesis using inserted out s by (simp add: check_outcome_def)
  next
    case new: False
    show thesis
    proof (cases "set (vx_parents vx) \<subseteq> fset (fmdom (dag_vertex d))")
      case False
      then show thesis using missing new out s by (simp add: check_outcome_def)
    next
      case known: True
      show thesis
      proof (cases "set (vx_parents vx) \<subseteq> fset (fmdom (dag_graph d))")
        case False
        then show thesis using waiting new known out s by (simp add: check_outcome_def)
      next
        case graph: True
        show thesis
        proof (cases "vx_height vx = 1 + parent_height d vx")
          case False
          then show thesis using height new known graph out s by (simp add: check_outcome_def)
        next
          case True
          show thesis by (rule ancestors[OF new known graph True ancestors'[OF new known graph True]])
        qed
      qed
    qed
  qed
qed

lemma verdicts_differ:
  "accept_message m \<noteq> reject_message m" "accept_message m \<noteq> ignore_message m"
  "reject_message m \<noteq> accept_message m" "reject_message m \<noteq> ignore_message m"
  "ignore_message m \<noteq> accept_message m" "ignore_message m \<noteq> reject_message m"
  by (simp_all add: accept_message_def reject_message_def ignore_message_def)

lemma gossiped_vertex_sane:
  assumes "handle_gossipsub now decode (GossipMessage src msg_id topic bytes) = Some (GossipsubMessage msg)"
    and "bc_data msg = BroadcastVertex vx"
  shows "sanity_checks vx = Inr () \<and> bc_src msg = src"
proof -
  obtain data where data: "from_wire (broadcast_from_protobuf now) decode BcProstDecode True bytes = Inr data"
    "msg = \<lparr>bc_id = msg_id, bc_src = src, bc_topic = topic, bc_data = data\<rparr>"
    using assms(1) by (auto simp: handle_gossipsub_def split: sum.splits)
  with broadcast_wire.wire_received_valid[OF data(1)] assms(2) show ?thesis by simp
qed

definition expected_verdict :: "env \<Rightarrow> dag \<Rightarrow> vertex \<Rightarrow> broadcast \<Rightarrow> validation_report" where
  "expected_verdict E d vx msg =
     (if env_hash E vx |\<in>| fmdom (dag_graph d) then ignore_message msg
      else if \<not> set (vx_parents vx) \<subseteq> fset (fmdom (dag_vertex d)) then accept_message msg
      else if \<not> set (vx_parents vx) \<subseteq> fset (fmdom (dag_graph d)) then ignore_message msg
      else if vx_height vx \<noteq> 1 + parent_height d vx then reject_message msg
      else if rejected_reach d vx then ignore_message msg
      else if check_vertex E d vx = Some (Inr ()) then accept_message msg
      else reject_message msg)"

lemma gossip_verdict:
  assumes "task_reach H cfg t" and "env_ok E" and "env_hash E = H" and "room 1 t"
    and "\<And>h. fair_draws (length (ct_validators t)) (rng h)"
    and "handle_gossipsub now decode (GossipMessage src msg_id topic bytes) = Some (GossipsubMessage msg)"
    and "bc_data msg = BroadcastVertex vx"
  shows "\<exists>t' r. submit_call E rng vx t = Some (t', r) \<and>
    handler_gossip msg (api_submit_vertex (Replied r)) =
      (if H vx \<notin> graph_in t \<and> \<not> set (vx_parents vx) \<subseteq> known_in t
       then [StartFetcher src (filter (\<lambda>p. p \<notin> known_in t) (vx_parents vx))] else []) @
      [Report (expected_verdict E (ct_dag t) vx msg)] \<and>
    (check_vertex E (ct_dag t) vx = Some (Inr ()) \<longrightarrow> H vx \<in> graph_in t')"
proof -
  have "task_ready E rng cfg (Suc 0) t"
    using task_reach_inv[OF assms(1)] assms(2-5) by (simp add: task_ready_def)
  then obtain t' resp where call: "submit_call E rng vx t = Some (t', map_sum ConsensusDag id resp)"
    "check_vertex E (ct_dag t) vx = Some (map_sum id (\<lambda>_. ()) resp)"
    "check_outcome E (ct_dag t) vx (map_sum id (\<lambda>_. ()) resp)"
    "(\<exists>w. resp = Inr w) \<longrightarrow> env_hash E vx \<in> graph_in t'"
    using submit_call_walk by blast
  note gossip = gossiped_vertex_sane[OF assms(6,7)]
  have enters: "check_vertex E (ct_dag t) vx = Some (Inr ()) \<longrightarrow> H vx \<in> graph_in t'"
    using call(2,4) assms(3) by (cases resp) auto
  have "handler_gossip msg (api_submit_vertex (Replied (map_sum ConsensusDag id resp))) =
      (if H vx \<notin> graph_in t \<and> \<not> set (vx_parents vx) \<subseteq> known_in t
       then [StartFetcher src (filter (\<lambda>p. p \<notin> known_in t) (vx_parents vx))] else []) @
      [Report (expected_verdict E (ct_dag t) vx msg)]"
    using call(3) gossip[THEN conjunct1]
  proof (cases rule: sane_check_cases)
    case inserted
    then show ?thesis using assms(3,7) gossip
      by (cases resp) (auto simp: handler_gossip_def api_submit_vertex_def expected_verdict_def graph_in_def)
  next
    case missing
    then show ?thesis using assms(3,7) gossip
      by (cases resp) (auto simp: handler_gossip_def api_submit_vertex_def expected_verdict_def graph_in_def known_in_def)
  next
    case waiting
    then show ?thesis using assms(3,7) gossip
      by (cases resp) (auto simp: handler_gossip_def api_submit_vertex_def expected_verdict_def graph_in_def known_in_def)
  next
    case height
    then show ?thesis using assms(3,7) gossip
      by (cases resp) (auto simp: handler_gossip_def api_submit_vertex_def expected_verdict_def graph_in_def known_in_def)
  next
    case ancestors
    then show ?thesis using assms(3,7) gossip call(2)
      by (cases resp) (auto simp: handler_gossip_def api_submit_vertex_def expected_verdict_def graph_in_def known_in_def)
  qed
  with call(1) enters show ?thesis by blast
qed

text \<open>
  C9: The handler's verdict on a vertex that came over the gossip network is determined by the
  graph. A vertex already in it is ignored; one with unknown parents is passed on, and a fetcher is
  sent to its source for exactly those parents; one whose parents wait for others, or with a
  rejected ancestor, is ignored; a wrong height or conflicting or self-referential ancestors cost
  the peer; and only a vertex that passes every check is accepted for good, and is then in the graph.
\<close>

theorem gossip_verdicts:
  assumes "task_reach H cfg t" and "env_ok E" and "env_hash E = H" and "room 1 t"
    and "\<And>h. fair_draws (length (ct_validators t)) (rng h)"
    and "handle_gossipsub now decode (GossipMessage src msg_id topic bytes) = Some (GossipsubMessage msg)"
    and "bc_data msg = BroadcastVertex vx"
  shows "\<exists>t' r. submit_call E rng vx t = Some (t', r) \<and>
    handler_gossip msg (api_submit_vertex (Replied r)) =
      (if H vx \<notin> graph_in t \<and> \<not> set (vx_parents vx) \<subseteq> known_in t
       then [StartFetcher src (filter (\<lambda>p. p \<notin> known_in t) (vx_parents vx))] else []) @
      [Report (expected_verdict E (ct_dag t) vx msg)] \<and>
    (check_vertex E (ct_dag t) vx = Some (Inr ()) \<longrightarrow> H vx \<in> graph_in t')"
  by (rule gossip_verdict[OF assms])

definition gossiped :: vertex where
  "gossiped = v1\<lparr>vx_timestamp := 9\<rparr>"

lemma gossiped_received:
  "handle_gossipsub 9 (decode_only (Some (proto_of_vertex v1))) (GossipMessage 4 [1] [2] [7]) =
     Some (GossipsubMessage
       \<lparr>bc_id = [1], bc_src = 4, bc_topic = [2], bc_data = BroadcastVertex gossiped\<rparr>)"
  by (simp add: handle_gossipsub_def from_wire_def decode_only_def broadcast_from_protobuf_def
      vertex_from_proto_of_vertex gossiped_def sanity_checks_def v1_def test_vertex_def)

lemma small_task_fair: "fair_draws (length (ct_validators small_task)) [0, 1, 0]"
  using consensus_task_new_cases[OF small_start_new(1)]
  by (auto simp: fair_draws_def small_task_def add_validator_def)

theorem gossip_verdicts_witness:
  "\<exists>t' r. submit_call test_env (\<lambda>_. [0, 1, 0]) gossiped small_task = Some (t', r) \<and>
    (check_vertex test_env (ct_dag small_task) gossiped = Some (Inr ()) \<longrightarrow> h1 \<in> graph_in t')"
proof -
  have "room 1 small_task" using small_task_reach(2) by (simp add: room_def)
  moreover have "vx_namespace_id gossiped = h1" by (simp add: gossiped_def v1_def test_vertex_def)
  ultimately show ?thesis
    using gossip_verdicts[OF small_task_reach(1) test_env_ok test_env_hash _ small_task_fair gossiped_received]
    by simp blast
qed

section \<open>Fetching\<close>

text \<open>
  C31: A fetcher whose peer answers with vertices, each submitted to the consensus task as it comes:
  every submission is answered, and the fetcher asks its peer, once each, for exactly the hashes it
  was started with and the parents that the replies reported missing, all of them parents of these
  vertices that the task did not know. It does nothing else, and it is still waiting afterwards: no
  number of vertices ends its loop.
\<close>

theorem fetcher_asks_only_unknown:
  assumes "task_reach H cfg t" and "env_ok E" and "env_hash E = H" and "room (length vxs) t"
    and "\<And>h. fair_draws (length (ct_validators t)) (rng h)"
  shows "\<exists>t' rs effs. submit_all (submit_call E rng) vxs t = Some (t', rs) \<and> length rs = length vxs \<and>
    fetch_session (submit_call E rng) peer initial vxs t = Some (t', effs, True) \<and>
    distinct (requests effs) \<and> (\<forall>e \<in> set effs. \<exists>h. e = RequestVertex h peer) \<and>
    set (requests effs) = set initial \<union> missing_in rs \<and>
    missing_in rs \<subseteq> (\<Union>vx \<in> set vxs. set (vx_parents vx)) - known_in t"
proof (rule consensus_node.fetch_session_requests)
  show "task_ready E rng cfg (length vxs) t"
    using task_reach_inv[OF assms(1)] assms(2-5) by (simp add: task_ready_def)
qed

theorem fetcher_asks_only_unknown_witness:
  "\<exists>t' effs. fetch_session (submit_call test_env (\<lambda>_. [0, 1, 0])) 4 [h3] [v3, v1] small_task =
     Some (t', effs, True) \<and> h3 \<in> set (requests effs)"
proof -
  have "room (length [v3, v1]) small_task" using small_task_reach(2) by (simp add: room_def)
  from fetcher_asks_only_unknown[OF small_task_reach(1) test_env_ok test_env_hash this small_task_fair,
      of 4 "[h3]"]
  obtain t' rs effs where "fetch_session (submit_call test_env (\<lambda>_. [0, 1, 0])) 4 [h3] [v3, v1] small_task =
      Some (t', effs, True)" "set (requests effs) = set [h3] \<union> missing_in rs" by blast
  then show ?thesis by (metis UnI1 list.set_intros(1))
qed

section \<open>The sequencer\<close>

text \<open>Decided vertices have decided ancestors, as far as acceptance goes.\<close>

definition acceptance_closed :: "dag \<Rightarrow> bool" where
  "acceptance_closed d \<longleftrightarrow>
     (\<forall>p h. p \<in> parents_of d h \<longrightarrow> decision_of d (unity h) = Some True \<longrightarrow>
        decision_of d (unity p) = Some True)"

lemma undecided_ancestor_reached:
  assumes closed: "acceptance_closed d" and path: "(k, p) \<in> (parent_rel d)\<^sup>*"
    and clean: "\<And>j. j \<in> undecided_reach d p \<Longrightarrow> decision_of d (unity j) \<noteq> Some False"
  shows "k \<in> undecided_reach d p \<or> decision_of d (unity k) = Some True"
  using path
proof (induction rule: converse_rtrancl_induct)
  case base
  then show ?case by (simp add: undecided_reach_def)
next
  case (step j k)
  have parent: "j \<in> parents_of d k" using step(1) by (simp add: parent_rel_def)
  show ?case
  proof (cases "decision_of d (unity k) = Some True")
    case True
    then show ?thesis using closed parent by (simp add: acceptance_closed_def)
  next
    case False
    then have k: "k \<in> undecided_reach d p" using step(3) by blast
    then have "decision_of d (unity k) = None" using clean[OF k] False by (cases "decision_of d (unity k)") auto
    then have "(j, k) \<in> undecided_rel d" using parent by (simp add: undecided_rel_def)
    with k show ?thesis by (auto simp: undecided_reach_def intro: converse_rtrancl_into_rtrancl)
  qed
qed

text \<open>An undecided constraint of an undecided ancestor of a preferred tip is preferred.\<close>

lemma tip_constraint_preferred:
  assumes inv: "dag_inv H d" and E: "env_ok E" and v: "fmlookup (dag_graph d) p = Some v"
    and sp: "strongly_preferred_in E d p" and closed: "acceptance_closed d"
    and k: "(k, p) \<in> (parent_rel d)\<^sup>*" "decision_of d (unity k) = None"
      "fmlookup (dag_graph d) k = Some w" "c \<in> set (parent_constraints w)" "decision_of d c = None"
  shows "preferred_of d c"
proof -
  note clean = strongly_preferred_clean[OF inv E v sp]
  have reach: "k \<in> undecided_reach d p"
    using undecided_ancestor_reached[OF closed k(1) clean] k(2) by auto
  have p: "decision_of d (unity p) = None"
    using reach k(2) undecided_reach_unfold[of d p] by (cases "decision_of d (unity p)") auto
  obtain f where "query E d p = Some (Inr (True, f))" using sp by (auto simp: strongly_preferred_in_def)
  moreover obtain r where "query E d p = Some r" "query_spec E d p r" using query_walk[OF inv E] by blast
  ultimately obtain cs where cs: "active_constraints_spec d v (Inr cs)" "\<forall>c \<in> set cs. preferred_of d c"
    using v p by (auto simp: query_spec_def split: if_splits)
  have "ancestor_constraint d (\<lambda>q k. k \<in> undecided_reach d q) v c"
  proof (cases "k = p")
    case True
    then show ?thesis using v k(3,4) by (simp add: ancestor_constraint_def)
  next
    case False
    then obtain q where "q \<in> set (vx_parents v)" "k \<in> undecided_reach d q"
      using reach p undecided_reach_unfold[of d p] parents_of_eq[OF v] by auto
    then show ?thesis using k(2-4) by (auto simp: ancestor_constraint_def)
  qed
  then have "c \<in> set cs" using cs(1) k(5) by (simp add: active_constraints_spec_def)
  then show ?thesis using cs(2) by blast
qed

lemma active_constraintD:
  assumes "active_constraints_spec d vx (Inr cs)" "e \<in> set cs"
  shows "decision_of d e = None \<and> ancestor_constraint d (\<lambda>p k. (k, p) \<in> (parent_rel d)\<^sup>*) vx e"
  using assms by (simp add: active_constraints_spec_def)

lemma opposites_not_preferred:
  assumes "preferred_of d c" "preferred_of d (opposite c)"
  shows "is_unity c"
proof -
  have "c = opposite c" using assms by (auto simp: preferred_of_def split: option.splits)
  then show ?thesis by (metis is_unity_def opposite_simps(3))
qed

text \<open>The proposal on a frontier, as the checks see it.\<close>

lemma proposal_facts:
  assumes inv: "dag_inv H d" and E: "env_ok E" and fr: "get_frontier E d = Some vxs" and ne: "vxs \<noteq> []"
    and px: "propose now (map (vertex_meta_of H) vxs) = Some px"
  shows "vx_version px = VERSION" "vx_parents px = map H vxs" "distinct (vx_parents px)"
    "vx_parents px \<noteq> []" "vx_height px = 1 + parent_height d px"
    "\<And>p. p \<in> set (vx_parents px) \<Longrightarrow> \<exists>v. fmlookup (dag_graph d) p = Some v \<and>
       strongly_preferred_in E d p \<and> (\<forall>k. p \<notin> parents_of d k)"
proof -
  obtain vxs' where walk: "get_frontier E d = Some vxs'" "distinct (map H vxs')"
    "\<And>v. v \<in> set vxs' \<longleftrightarrow> fmlookup (dag_frontier d) (H v) = Some v \<and> strongly_preferred_in E d (H v)"
    using get_frontier_walk[OF inv E] by blast
  have same: "vxs' = vxs" using walk(1) fr by simp
  note px' = px[unfolded propose_def]
  obtain m where m: "max_opt (map vx_height vxs) = Some m"
    "px = (empty_vertex now)\<lparr>vx_height := 1 + m, vx_parents := map H vxs\<rparr>"
    using px' by (auto simp: bind_eq_Some_conv vertex_meta_of_def comp_def)
  then show ps: "vx_version px = VERSION" "vx_parents px = map H vxs" "distinct (vx_parents px)"
    "vx_parents px \<noteq> []"
    using walk(2) same ne by (simp_all add: empty_vertex_def)
  have node: "fmlookup (dag_graph d) (H v) = Some v \<and> (\<forall>k. H v \<notin> parents_of d k)" if "v \<in> set vxs" for v
    using walk(3)[of v] that same dag_invD(4)[OF inv]
    by (auto simp: frontier_ok_def parents_of_def split: option.splits)
  have "height_in (dag_graph d) (H v) = vx_height v" if "v \<in> set vxs" for v
    using node[OF that] by (simp add: height_in_def)
  then have "(\<lambda>p. height_in (dag_graph d) p) ` set (vx_parents px) = set (map vx_height vxs)"
    unfolding ps(2) by (auto simp: image_iff)
  moreover have "m = Max (set (map vx_height vxs))" using m(1) ne by (simp add: max_opt_Max)
  ultimately show "vx_height px = 1 + parent_height d px" using m(2) by (simp add: parent_height_def)
  show "\<exists>v. fmlookup (dag_graph d) p = Some v \<and> strongly_preferred_in E d p \<and> (\<forall>k. p \<notin> parents_of d k)"
    if "p \<in> set (vx_parents px)" for p
    using that node walk(3) same unfolding ps(2) by auto
qed

lemma proposal_checked:
  assumes "dag_reach H cfg genesis d" and "env_ok E" and "env_hash E = H"
    and "get_frontier E d = Some frontier"
  shows "case propose now (map (vertex_meta_of H) frontier) of
      None \<Rightarrow> frontier = []
    | Some px \<Rightarrow> frontier \<noteq> [] \<and>
        (H px |\<notin>| fmdom (dag_graph d) \<longrightarrow>
          (\<exists>r. check_vertex E d px = Some r \<and> (r = Inr () \<or> r = Inl ConflictingAncestors) \<and>
            (acceptance_closed d \<longrightarrow> r = Inr ())))"
proof (cases "frontier = []")
  case True
  then show ?thesis by (simp add: propose_def)
next
  case ne: False
  have inv: "dag_inv H d" using reach_invariant[OF assms(1)] by blast
  obtain px where px: "propose now (map (vertex_meta_of H) frontier) = Some px"
    using ne by (cases frontier) (auto simp: propose_def)
  note facts = proposal_facts[OF inv assms(2,4) ne px]
  have "\<exists>r. check_vertex E d px = Some r \<and> (r = Inr () \<or> r = Inl ConflictingAncestors) \<and>
      (acceptance_closed d \<longrightarrow> r = Inr ())" if new: "H px |\<notin>| fmdom (dag_graph d)"
  proof -
    obtain r where r: "check_vertex E d px = Some r" "check_outcome E d px r"
      using check_vertex_walk[OF inv assms(2)] by blast
    have sub: "set (vx_parents px) \<subseteq> fset (fmdom (dag_graph d))" using facts(6) by (auto intro: fmdomI)
    have clean: "\<not> rejected_reach d px"
      using facts(6) strongly_preferred_clean[OF inv assms(2)] unfolding rejected_reach_def by blast
    have tips: "(p, q) \<notin> (parent_rel d)\<^sup>+" if "p \<in> set (vx_parents px)" for p q
      using facts(6)[OF that] by (auto simp: parent_rel_def elim: converse_tranclE)
    have sane: "sanity_checks px = Inr ()" using facts(1,3,4) by (simp add: sanity_checks_ok_iff)
    have active: "\<exists>cs. active_constraints_spec d px (Inr cs) \<and>
        r = (if conflicting cs then Inl ConflictingAncestors else Inr ())"
    proof -
      have "\<not> active_constraints_spec d px (Inl e)" for e
        using clean tips by (auto simp: active_constraints_spec_def)
      moreover have "set (vx_parents px) \<subseteq> fset (fmdom (dag_vertex d))"
        using sub graph_subset_vertex[OF dag_invD(2)[OF inv]] by (auto simp: less_eq_fset.rep_eq)
      ultimately have "\<exists>cs. get_active_ancestor_constraints E d px = Some (Inr cs) \<and>
          active_constraints_spec d px (Inr cs) \<and>
          r = (if conflicting cs then Inl ConflictingAncestors else Inr ())"
        using r(2) facts(1,3,4,5) new assms(3) sub by (simp only: check_outcome_def simp_thms if_True if_False)
      then show ?thesis by blast
    qed
    then obtain cs where cs: "active_constraints_spec d px (Inr cs)"
      "r = (if conflicting cs then Inl ConflictingAncestors else Inr ())" by blast
    have "\<not> conflicting cs" if closed: "acceptance_closed d"
    proof
      assume "conflicting cs"
      then obtain c where c: "c \<in> set cs" "opposite c \<in> set cs" "\<not> is_unity c"
        by (auto simp: conflicting_def)
      have inherited: "preferred_of d e" if e: "e \<in> set cs" "e \<notin> set (parent_constraints px)" for e
      proof -
        obtain p k w where k: "p \<in> set (vx_parents px)" "(k, p) \<in> (parent_rel d)\<^sup>*"
          "decision_of d (unity k) = None" "fmlookup (dag_graph d) k = Some w"
          "e \<in> set (parent_constraints w)" "decision_of d e = None"
          using active_constraintD[OF cs(1) e(1)] e(2) by (auto simp: ancestor_constraint_def)
        obtain v where v: "fmlookup (dag_graph d) p = Some v" "strongly_preferred_in E d p"
          using facts(6)[OF k(1)] by blast
        show ?thesis by (rule tip_constraint_preferred[OF inv assms(2) v closed k(2-6)])
      qed
      have own: "opposite e \<notin> set cs" if e: "e \<in> set (parent_constraints px)" "\<not> is_unity e" for e
      proof
        assume opp: "opposite e \<in> set cs"
        have "opposite e \<notin> set (parent_constraints px)"
          using constraints_of_one_way[OF facts(3), of e] e by (simp add: parent_constraints_def)
        then obtain k w where k: "fmlookup (dag_graph d) k = Some w" "opposite e \<in> set (parent_constraints w)"
          using active_constraintD[OF cs(1) opp] by (auto simp: ancestor_constraint_def)
        have "before e \<in> set (vx_parents px)" using parent_constraints_ends[OF e(1)] by blast
        moreover have "before e \<in> parents_of d k"
          using parent_constraints_ends(2)[OF k(2)] parents_of_eq[OF k(1)] by simp
        ultimately show False using facts(6) by blast
      qed
      have "c \<notin> set (parent_constraints px)" using own[of c] c by blast
      moreover have "opposite c \<notin> set (parent_constraints px)" using own[of "opposite c"] c by auto
      ultimately have "is_unity c" using inherited c opposites_not_preferred by blast
      with c(3) show False by blast
    qed
    with r(1) cs(2) show ?thesis by auto
  qed
  then show ?thesis using px ne by auto
qed

text \<open>
  C12: The vertex the sequencer builds on a nonempty frontier is never refused for its format, its
  height, unknown, waiting, rejected or self-referential ancestors: if it is new, the only error
  left is that its ancestors conflict. Where every accepted vertex has accepted parents even that is
  excluded, and the proposal is accepted. On an empty frontier the sequencer crashes.
\<close>

theorem sequencer_proposal_accepted:
  assumes "dag_reach H cfg genesis d" and "env_ok E" and "env_hash E = H"
    and "get_frontier E d = Some frontier"
  shows "case propose now (map (vertex_meta_of H) frontier) of
      None \<Rightarrow> frontier = []
    | Some px \<Rightarrow> frontier \<noteq> [] \<and>
        (H px |\<notin>| fmdom (dag_graph d) \<longrightarrow>
          (\<exists>r. check_vertex E d px = Some r \<and> (r = Inr () \<or> r = Inl ConflictingAncestors) \<and>
            (acceptance_closed d \<longrightarrow> r = Inr ())))"
  by (rule proposal_checked[OF assms])

text \<open>A proposal on the graph that holds only its genesis vertex.\<close>

definition counting_env :: env where
  "counting_env =
     \<lparr>env_hash = (\<lambda>vx. if vx_parents vx = [] then h0 else h1),
      env_hashes = sorted_list_of_fset, env_constraints = sorted_list_of_fset\<rparr>"

lemma genesis_run:
  "do { r \<leftarrow> dag_new counting_env one [v0];
        case r of Inl _ \<Rightarrow> None | Inr d \<Rightarrow> Some (get_frontier counting_env d, dag_graph d = fmap_of_list [(h0, v0)]) } =
   Some (Some [v0], True)"
  by (simp add: counting_env_def one_def get_frontier_def strongly_preferred_def run_eval
      del: fmap_of_list_simps fmupd_lookup cong: eval_cong)

theorem sequencer_proposal_accepted_witness:
  "\<exists>d px. propose 5 [vertex_meta_of (env_hash counting_env) v0] = Some px \<and>
     get_frontier counting_env d = Some [v0] \<and> check_vertex counting_env d px = Some (Inr ())"
proof -
  obtain r where r: "dag_new counting_env one [v0] = Some r" "(case r of Inl _ \<Rightarrow> None
      | Inr d \<Rightarrow> Some (get_frontier counting_env d, dag_graph d = fmap_of_list [(h0, v0)])) = Some (Some [v0], True)"
    using genesis_run by (auto simp: bind_eq_Some_conv)
  then obtain d where d: "dag_new counting_env one [v0] = Some (Inr d)"
    "get_frontier counting_env d = Some [v0]" "dag_graph d = fmap_of_list [(h0, v0)]"
    by (cases r) auto
  have ok: "env_ok counting_env" by (simp add: env_ok_def counting_env_def sorted_fset_iterates)
  have reach: "dag_reach (env_hash counting_env) one v0 d" by (rule reach_new[OF ok refl v0_root d(1)])
  have "acceptance_closed d"
    using d(3) by (auto simp: acceptance_closed_def parents_of_def v0_root fmlookup_of_list split: option.splits if_splits)
  moreover have "h1 |\<notin>| fmdom (dag_graph d)" using d(3) hash_simps by (simp add: fmdom_fmap_of_list)
  moreover have meta: "vertex_meta_of (env_hash counting_env) v0 = \<lparr>vm_hash = h0, vm_height = 0\<rparr>"
    by (simp add: vertex_meta_of_def counting_env_def v0_root)
  moreover define px where "px = (empty_vertex 5)\<lparr>vx_height := 1, vx_parents := [h0]\<rparr>"
  moreover have "propose 5 [vertex_meta_of (env_hash counting_env) v0] = Some px"
    by (simp add: propose_def meta px_def)
  moreover have "env_hash counting_env px = h1" by (simp add: counting_env_def px_def)
  ultimately show ?thesis
    using sequencer_proposal_accepted[OF reach ok refl d(2), of 5] d(2) by auto
qed

end
