(* ===== verification/Two_Nodes.thy ===== *)
theory Two_Nodes
  imports Node_Props P2p_Props
begin

text \<open>
  Two nodes: what one sends the other receives. The steps of the tasks of both nodes are composed as
  the network composes them: the bytes an effect of one node puts on the wire are the input of the
  other. What the two tasks do between these steps is arbitrary.
\<close>

section \<open>What a node knows is sane\<close>

text \<open>Every vertex a node remembers has passed the sanity checks, but for the genesis vertex.\<close>

definition known_sane :: "vertex \<Rightarrow> dag \<Rightarrow> bool" where
  "known_sane genesis d \<longleftrightarrow>
     (\<forall>h v. fmlookup (dag_vertex d) h = Some v \<longrightarrow> v = genesis \<or> sanity_checks v = Inr ())"

lemma try_insert_sane:
  assumes "try_insert_outcome E vx d (d', r)" and "known_sane genesis d"
  shows "known_sane genesis d'"
proof -
  note res = try_insert_result[OF assms(1)]
  have sane: "sanity_checks vx = Inr ()" if "\<forall>e. r \<noteq> Inl (VertexError e)"
    using res[THEN conjunct1] that by (cases "sanity_checks vx"; cases r) (auto simp: check_vertex_def)
  show ?thesis
  proof (cases r)
    case (Inl e)
    with res have "d' = (if \<exists>ps. e = MissingParents ps \<or> e = WaitingOnParents ps
        then registered (env_hash E vx) vx d else d)" by simp
    with sane Inl assms(2) show ?thesis by (auto simp: known_sane_def registered_def split: if_splits)
  next
    case (Inr W)
    with res sane assms(2) show ?thesis by (auto simp: known_sane_def inserted_def)
  qed
qed

lemma retry_loop_sane:
  assumes "env_ok E" and "env_hash E = H"
  shows "retry_loop n E queue S d = Some (d', S') \<Longrightarrow> dag_inv H d \<Longrightarrow> capacity d \<Longrightarrow>
    known_sane genesis d \<Longrightarrow> known_sane genesis d'"
proof (induction n arbitrary: queue S d)
  case (Suc n)
  show ?case
  proof (cases queue)
    case Nil
    with Suc.prems show ?thesis by simp
  next
    case (Cons h rest)
    show ?thesis
    proof (cases "fmlookup (dag_vertex d) h")
      case None
      with Suc Cons show ?thesis by simp
    next
      case (Some vx)
      obtain d1 r where d1: "try_insert E vx d = Some (d1, r)" "dag_inv H d1"
        "fmdom (dag_vertex d1) = fmdom (dag_vertex d)"
        using try_insert_known[OF Suc.prems(2) assms Suc.prems(3) Some] by blast
      have "try_insert_outcome E vx d (d1, r)"
        using try_insert_walk[OF Suc.prems(2) assms Suc.prems(3), of vx] d1(1) by auto
      then have sane: "known_sane genesis d1" by (rule try_insert_sane[OF _ Suc.prems(4)])
      have cap: "capacity d1" using Suc.prems(3) d1(3) by (simp add: capacity_def)
      from Suc.prems(1) Cons Some d1(1) obtain queue' S1 where "retry_loop n E queue' S1 d1 = Some (d', S')"
        by (cases r) auto
      then show ?thesis by (rule Suc.IH[OF _ d1(2) cap sane])
    qed
  qed
qed simp

lemma reach_known_sane:
  assumes "dag_reach H cfg genesis d"
  shows "known_sane genesis d"
  using assms
proof (induction rule: dag_reach.induct)
  case (reach_new E d)
  then have i: "insert_initial E genesis (empty_dag cfg) = Some d"
    by (auto simp: dag_new_def dag_config_check_def bind_eq_Some_conv split: if_splits)
  have "H genesis |\<notin>| fmdom (dag_graph (empty_dag cfg))" by (simp add: empty_dag_def)
  with insert_initial_root[OF dag_inv_empty reach_new(1-3) this] reach_new(4) i
  have "dag_vertex d = fmupd (H genesis) genesis (dag_vertex (empty_dag cfg))" by auto
  then show ?case by (simp add: known_sane_def empty_dag_def)
next
  case (reach_insert d E vx d' r)
  then show ?case using try_insert_walk[OF reach_inv[OF reach_insert(1)] reach_insert(2,3,4), of vx]
    by (auto intro: try_insert_sane)
next
  case (reach_retry d E hs d' r)
  then show ?case using retry_loop_sane[OF reach_retry(2,3) _ reach_inv[OF reach_retry(1)] reach_retry(4)]
    by (auto simp: retry_pending_def bind_eq_Some_conv)
next
  case (reach_record d E h b d' r)
  then have "dag_vertex d' = dag_vertex d"
    using record_step[OF reach_inv[OF reach_record(1)] reach_record(2,4)]
    by (auto simp: votes_only_def same_maps_def)
  with reach_record.IH show ?case by (simp add: known_sane_def)
qed

lemma known_vertex:
  assumes "task_reach H cfg t" and "get_vertex (ct_dag t) h = Some vx"
  shows "H vx = h" and "vx = genesis_vertex \<or> sanity_checks vx = Inr ()"
proof -
  have reach: "dag_reach H (cc_dag cfg) genesis_vertex (ct_dag t)"
    using task_reach_inv[OF assms(1)] by (simp add: task_inv_def)
  show "H vx = h" using dag_invD(2)[OF reach_inv[OF reach]] assms(2) by (simp add: maps_ok_def get_vertex_def)
  show "vx = genesis_vertex \<or> sanity_checks vx = Inr ()"
    using reach_known_sane[OF reach] assms(2) by (simp add: known_sane_def get_vertex_def)
qed

section \<open>Fetching a vertex from a peer\<close>

text \<open>What the network carries of the effects of a step.\<close>

definition carried :: "'e + 'a \<Rightarrow> 'a option" where
  "carried r = (case r of Inl _ \<Rightarrow> None | Inr x \<Rightarrow> Some x)"

definition request_out :: "p2p_effect list \<Rightarrow> (nat \<times> request) option" where
  "request_out effs = (case effs of [RequestOut rid peer req] \<Rightarrow> Some (rid, req) | _ \<Rightarrow> None)"

definition event_out :: "p2p_effect list \<Rightarrow> p2p_event option" where
  "event_out effs = (case effs of [Emit ev] \<Rightarrow> Some ev | _ \<Rightarrow> None)"

definition answer_out :: "handler_effect list \<Rightarrow> (nat \<times> response) option" where
  "answer_out effs = (case effs of [RespondTo rid resp] \<Rightarrow> Some (rid, resp) | _ \<Rightarrow> None)"

definition response_out :: "p2p_effect list \<Rightarrow> response option" where
  "response_out effs = (case effs of [ResponseOut chan resp] \<Rightarrow> Some resp | _ \<Rightarrow> None)"

text \<open>The encoders and decoders of \<open>prost\<close> for the two messages, which both nodes share.\<close>

record codec =
  co_encode_request :: "proto_request_msg \<Rightarrow> u8 list option"
  co_decode_request :: "u8 list \<Rightarrow> proto_request_msg option"
  co_encode_response :: "proto_response_msg \<Rightarrow> u8 list option"
  co_decode_response :: "u8 list \<Rightarrow> proto_response_msg option"

text \<open>Decoding undoes encoding, and the messages of an exchange are encoded.\<close>

definition codec_ok :: "codec \<Rightarrow> request \<Rightarrow> response \<Rightarrow> bool" where
  "codec_ok co req resp \<longleftrightarrow>
     decodes (co_encode_request co) (co_decode_request co) \<and>
     decodes (co_encode_response co) (co_decode_response co) \<and>
     (\<forall>p. request_to_protobuf True req = Inr p \<longrightarrow> co_encode_request co p \<noteq> None) \<and>
     (\<forall>p. response_to_protobuf True resp = Inr p \<longrightarrow> co_encode_response co p \<noteq> None)"

text \<open>
  Node \<open>a\<close> asks node \<open>b\<close> for the vertex \<open>h\<close> and passes the answer to the channel
  \<open>ch\<close>. In the meantime \<open>a\<close> takes the inputs \<open>as\<close> and \<open>b\<close> the inputs \<open>bs\<close>. The
  identifiers are those the network layer gives to the request on either side.
\<close>

definition fetch_exchange ::
  "codec \<Rightarrow> p2p_env \<Rightarrow> p2p_env \<Rightarrow> (hash \<Rightarrow> api_error + vertex option) \<Rightarrow>
     (hash \<Rightarrow> api_error + bool option) \<Rightarrow> int \<Rightarrow> hash \<Rightarrow> peer_id \<Rightarrow> nat \<Rightarrow> nat \<Rightarrow> nat \<Rightarrow> nat \<Rightarrow>
     p2p_input list \<Rightarrow> p2p_input list \<Rightarrow> p2p_task \<Rightarrow> p2p_task \<Rightarrow>
     (p2p_task \<times> p2p_task \<times> p2p_effect list) option" where
  "fetch_exchange co PA PB vertex_call preference_call now h peer ch rid rid' chan as bs a b = do {
     (a, effs, _) \<leftarrow> p2p_step PA (Inbound (SendRequest (GetVertex h) (Some peer) ch) rid True) a;
     (rid, req) \<leftarrow> request_out effs;
     bytes \<leftarrow> carried (write_request (co_encode_request co) req True);
     req \<leftarrow> carried (read_request (co_decode_request co) (Some bytes));
     (b, effs, _) \<leftarrow> p2p_step PB (SwarmRequests (RrRequest rid' req chan)) b;
     ev \<leftarrow> event_out effs;
     (rid', resp) \<leftarrow> answer_out (handler_step
       \<lparr>hc_submit = (\<lambda>_. Inl ActionSend), hc_get_vertex = vertex_call, hc_get_preference = preference_call\<rparr>
       (P2pEvent ev));
     (b, _, running) \<leftarrow> p2p_run PB bs b;
     (b, effs, _) \<leftarrow> if running then p2p_step PB (Inbound (Respond rid' resp) 0 True) b else None;
     resp \<leftarrow> response_out effs;
     bytes \<leftarrow> carried (write_response (co_encode_response co) resp True);
     resp \<leftarrow> carried (read_response now (co_decode_response co) (Some bytes));
     (a, _, running) \<leftarrow> p2p_run PA as a;
     (a, effs, _) \<leftarrow> if running then p2p_step PA (SwarmRequests (RrResponse rid resp)) a else None;
     Some (a, b, effs) }"

lemma request_carried:
  assumes "codec_ok co req resp"
  shows "do { bytes \<leftarrow> carried (write_request (co_encode_request co) req True);
      carried (read_request (co_decode_request co) (Some bytes)) } = Some req"
proof -
  obtain p where p: "request_to_protobuf True req = Inr p"
    using request_wire.to_unchecked[of req] request_wire.to_checked[of req] by blast
  then obtain bytes where "co_encode_request co p = Some bytes" using assms by (auto simp: codec_ok_def)
  with p have sent: "to_wire request_to_protobuf (co_encode_request co) ReqProstEncode True req = Inr bytes"
    by (simp add: to_wire_def)
  have "decodes (co_encode_request co) (co_decode_request co)" using assms by (simp add: codec_ok_def)
  from request_wire.wire_roundtrip[OF this sent] sent show ?thesis
    by (simp add: carried_def write_request_def write_message_def read_request_def read_message_def)
qed

lemma response_carried:
  assumes "codec_ok co req resp" and "response_valid resp"
  shows "do { bytes \<leftarrow> carried (write_response (co_encode_response co) resp True);
      carried (read_response now (co_decode_response co) (Some bytes)) } = Some (response_received now resp)"
proof -
  obtain p where p: "response_to_protobuf True resp = Inr p"
    using response_wire.to_unchecked[of resp] response_wire.to_checked[of resp] assms(2) by blast
  then obtain bytes where "co_encode_response co p = Some bytes" using assms(1) by (auto simp: codec_ok_def)
  with p have sent: "to_wire response_to_protobuf (co_encode_response co) ReqProstEncode True resp = Inr bytes"
    by (simp add: to_wire_def)
  have "decodes (co_encode_response co) (co_decode_response co)" using assms(1) by (simp add: codec_ok_def)
  from response_wire.wire_roundtrip[OF this sent] sent show ?thesis
    by (simp add: carried_def write_response_def write_message_def read_response_def read_message_def)
qed

lemma write_insane:
  assumes "\<not> response_valid resp"
  shows "carried (write_response encode resp written) = None"
proof -
  have "\<exists>e. to_wire response_to_protobuf encode ReqProstEncode True resp = Inl e"
  proof (cases "response_to_protobuf True resp")
    case (Inr p)
    with response_wire.to_checked[of resp p] assms show ?thesis by simp
  qed (simp add: to_wire_def)
  then show ?thesis by (auto simp: write_response_def write_message_def carried_def)
qed

text \<open>
  C8: A vertex is fetched from a peer: where the peer's consensus task knows a vertex under the hash
  asked for and neither task's loop ends (each ends only when every sender of actions is gone), it
  comes back through both peer-to-peer tasks, both codecs and the peer's handler to the channel of
  the task that asked, unchanged but for its timestamp, and so under that hash, whatever else the two
  tasks do in between. The one exception is the genesis vertex: it has no parents and fails the check
  of the codec, so that nothing comes back.
\<close>

theorem vertex_fetched_from_peer:
  assumes "codec_ok co (GetVertex h) (ResponseVertex vx)" and "pe_subscribed PB"
    and "task_reach H cfg t" and "get_vertex (ct_dag t) h = Some vx"
    and "\<And>v now. H (v\<lparr>vx_timestamp := now\<rparr>) = H v"
    and "\<And>a1. p2p_run PA as a1 \<noteq> None" and "\<And>b1. p2p_run PB bs b1 \<noteq> None"
    and "ActionsClosed \<notin> set as" and "ActionsClosed \<notin> set bs"
    and "list_all (\<lambda>inp. \<not> touches_request rid inp) as" and "list_all (\<lambda>inp. \<not> touches_inbound rid' inp) bs"
  shows "case fetch_exchange co PA PB (\<lambda>h. api_get_vertex (Replied (get_vertex (ct_dag t) h))) pref now h
        peer ch rid rid' chan as bs a b of
      None \<Rightarrow> vx = genesis_vertex
    | Some (a', b', effs) \<Rightarrow> \<exists>vx'. vx \<noteq> genesis_vertex \<and> effs = [Deliver ch (ResponseVertex vx')] \<and>
        vx' = vx\<lparr>vx_timestamp := now\<rparr> \<and> H vx' = h \<and>
        fmlookup (pt_pending_requests a') rid = None \<and> fmlookup (pt_pending_responses b') rid' = None"
proof -
  obtain a1 where a1: "p2p_step PA (Inbound (SendRequest (GetVertex h) (Some peer) ch) rid True) a =
      Some (a1, [RequestOut rid peer (GetVertex h)], True)"
    "fmlookup (pt_pending_requests a1) rid = Some ch"
    by (simp add: p2p_step_def handle_inbound_action_def)
  obtain b1 where b1: "p2p_step PB (SwarmRequests (RrRequest rid' (GetVertex h) chan)) b =
      Some (b1, [Emit (RequestMessage rid' (GetVertex h))], True)"
    "fmlookup (pt_pending_responses b1) rid' = Some chan"
    using assms(2) by (simp add: p2p_step_def handle_request_response_def emit_def)
  obtain a2 ea where a2: "p2p_run PA as a1 = Some (a2, ea, True)"
    using assms(6)[of a1] p2p_run_continues[of PA as a1] assms(8) by fastforce
  obtain b2 eb where b2: "p2p_run PB bs b1 = Some (b2, eb, True)"
    using assms(7)[of b1] p2p_run_continues[of PB bs b1] assms(9) by fastforce
  have pend: "fmlookup (pt_pending_requests a2) rid = Some ch" "fmlookup (pt_pending_responses b2) rid' = Some chan"
    using p2p_run_keeps(1)[OF a2 assms(10)] p2p_run_keeps(2)[OF b2 assms(11)] a1(2) b1(2) by simp_all
  let ?resp = "ResponseVertex vx" and ?recv = "ResponseVertex (vx\<lparr>vx_timestamp := now\<rparr>)"
  let ?b3 = "b2\<lparr>pt_pending_responses := fmdrop rid' (pt_pending_responses b2)\<rparr>"
  let ?a3 = "a2\<lparr>pt_pending_requests := fmdrop rid (pt_pending_requests a2)\<rparr>"
  have b3: "p2p_step PB (Inbound (Respond rid' ?resp) 0 True) b2 = Some (?b3, [ResponseOut chan ?resp], True)"
    by (simp add: p2p_step_def handle_inbound_action_def pend)
  have a3: "p2p_step PA (SwarmRequests (RrResponse rid ?recv)) a2 = Some (?a3, [Deliver ch ?recv], True)"
    by (simp add: p2p_step_def handle_request_response_def emit_def pend)
  have handled: "handler_step \<lparr>hc_submit = s, hc_get_vertex = (\<lambda>h. api_get_vertex (Replied (get_vertex (ct_dag t) h))),
      hc_get_preference = pref\<rparr> (P2pEvent (RequestMessage rid' (GetVertex h))) = [RespondTo rid' ?resp]" for s
    by (simp add: handler_step_def handler_request_def api_get_vertex_def assms(4))
  obtain q where q: "carried (write_request (co_encode_request co) (GetVertex h) True) = Some q"
    "carried (read_request (co_decode_request co) (Some q)) = Some (GetVertex h)"
    using request_carried[OF assms(1)] by (auto simp: bind_eq_Some_conv)
  note steps = fetch_exchange_def a1(1) request_out_def q b1(1) event_out_def handled answer_out_def b2 b3
    response_out_def a2
  show ?thesis
  proof (cases "vx = genesis_vertex")
    case True
    then have "\<not> response_valid ?resp" by (simp add: genesis_vertex_def sanity_checks_ok_iff)
    then have "fetch_exchange co PA PB (\<lambda>h. api_get_vertex (Replied (get_vertex (ct_dag t) h))) pref now h
        peer ch rid rid' chan as bs a b = None" by (simp add: steps write_insane)
    with True show ?thesis by simp
  next
    case False
    with known_vertex[OF assms(3,4)] have known: "H vx = h" "response_valid ?resp" by simp_all
    obtain r where r: "carried (write_response (co_encode_response co) ?resp True) = Some r"
      "carried (read_response now (co_decode_response co) (Some r)) = Some ?recv"
      using response_carried[OF assms(1) known(2), of now] by (auto simp: bind_eq_Some_conv)
    show ?thesis using False known(1) assms(5) by (simp add: steps r a3)
  qed
qed

text \<open>A node that has taken the vertex \<open>v1\<close>, and the codec for one request and one response.\<close>

lemma holding_run:
  "do { (t1, effs) \<leftarrow> handle_action test_env (\<lambda>_. [0, 1]) (SubmitVertex v1) small_task;
        Some (get_vertex (ct_dag t1) h1) } = Some (Some v1)"
proof -
  have start: "small_start =
     (case consensus_task_new test_env small_config of Some (Inr t) \<Rightarrow> t | _ \<Rightarrow> undefined)"
    by (simp add: small_start_new(1))
  show ?thesis
    unfolding small_task_def start
    by (simp add: consensus_task_new_def small_config_def consensus_config_check_def genesis_vertex_def
      add_validator_def task_eval retry_pending_def get_vertex_def slice_get_def
      retry_fuel_def get_frontier_def strongly_preferred_def start_pollster_def
      get_validators_for_query_def default_hash_h0 ffilter_eval run_eval numeral_2_eq_2
      del: fmap_of_list_simps fmupd_lookup cong: eval_cong)
qed

definition v1_codec :: codec where
  "v1_codec =
     \<lparr>co_encode_request = encode_only (Some (ProtoGetVertex \<lparr>ph_hash = as_slice h1\<rparr>)),
      co_decode_request = decode_only (Some (ProtoGetVertex \<lparr>ph_hash = as_slice h1\<rparr>)),
      co_encode_response = encode_only (Some (ProtoVertex (proto_of_vertex v1))),
      co_decode_response = decode_only (Some (ProtoVertex (proto_of_vertex v1)))\<rparr>"

lemma v1_codec_ok: "codec_ok v1_codec (GetVertex h1) (ResponseVertex v1)"
proof -
  have "sanity_checks v1 = Inr ()" by (simp add: v1_def test_vertex_def sanity_checks_def VERSION_def)
  then show ?thesis
    by (simp add: codec_ok_def v1_codec_def decodes_only hash_to_protobuf_def vertex_to_protobuf_eq)
      (simp add: encode_only_def)
qed

lemma v1_known:
  obtains t where "task_reach vx_namespace_id small_config t" "get_vertex (ct_dag t) h1 = Some v1"
proof -
  obtain t effs where t: "handle_action test_env (\<lambda>_. [0, 1]) (SubmitVertex v1) small_task = Some (t, effs)"
    "get_vertex (ct_dag t) h1 = Some v1"
    using holding_run by (auto simp: bind_eq_Some_conv)
  have "room 1 small_task" using small_task_reach(2) by (simp add: room_def)
  from task_action[OF small_task_reach(1) test_env_ok test_env_hash this t(1)] t(2) that show thesis by blast
qed

theorem vertex_fetched_from_peer_witness:
  "\<exists>t a' b'. task_reach vx_namespace_id small_config t \<and>
    fetch_exchange v1_codec quiet_env quiet_env (\<lambda>h. api_get_vertex (Replied (get_vertex (ct_dag t) h)))
      (\<lambda>_. Inl ActionSend) 9 h1 4 11 0 5 21 [] [] idle_task idle_task =
    Some (a', b', [Deliver 11 (ResponseVertex (v1\<lparr>vx_timestamp := 9\<rparr>))])"
proof -
  obtain t where t: "task_reach vx_namespace_id small_config t" "get_vertex (ct_dag t) h1 = Some v1"
    by (rule v1_known)
  have "v1 \<noteq> genesis_vertex" by (simp add: v1_def test_vertex_def genesis_vertex_def)
  moreover have "pe_subscribed quiet_env" by (simp add: quiet_env_def)
  ultimately show ?thesis
    using vertex_fetched_from_peer[OF v1_codec_ok _ t, where PA = quiet_env and PB = quiet_env and as = "[]"
        and bs = "[]" and pref = "\<lambda>_. Inl ActionSend" and now = 9 and peer = 4 and ch = 11 and rid = 0
        and rid' = 5 and chan = 21 and a = idle_task and b = idle_task] t(1)
    by (force split: option.splits)
qed

section \<open>Spreading a vertex by gossip\<close>

definition action_out :: "p2p_action list \<Rightarrow> p2p_action option" where
  "action_out acts = (case acts of [act] \<Rightarrow> Some act | _ \<Rightarrow> None)"

definition publish_out :: "p2p_effect list \<Rightarrow> (string \<times> u8 list) option" where
  "publish_out effs = (case effs of [PublishBytes topic bytes] \<Rightarrow> Some (topic, bytes) | _ \<Rightarrow> None)"

text \<open>
  A vertex is submitted to node \<open>a\<close> over JSON RPC, is published, and reaches node \<open>b\<close>, whose
  handler submits it to its consensus task, in state \<open>t\<close>. The result is the new state of this
  task and what the handler does.
\<close>

definition gossip_exchange ::
  "p2p_env \<Rightarrow> p2p_env \<Rightarrow> (string \<Rightarrow> u8 list) \<Rightarrow> env \<Rightarrow> (hash \<Rightarrow> nat list) \<Rightarrow> peer_id \<Rightarrow> u8 list \<Rightarrow>
     vertex \<Rightarrow> (vertex \<Rightarrow> (consensus_error + hash fset) call) \<Rightarrow> p2p_task \<Rightarrow> p2p_task \<Rightarrow> consensus_task \<Rightarrow>
     (consensus_task \<times> handler_effect list) option" where
  "gossip_exchange PA PB digest E rng src msg_id vx submit a b t = do {
     act \<leftarrow> action_out (fst (rpc_submit_vertex (Some vx) True submit));
     (a, effs, _) \<leftarrow> p2p_step PA (Inbound act 0 True) a;
     (topic, bytes) \<leftarrow> publish_out effs;
     (b, effs, _) \<leftarrow> p2p_step PB (SwarmGossip (GossipMessage src msg_id (digest topic) bytes)) b;
     ev \<leftarrow> event_out effs;
     (case ev of
        GossipsubMessage msg \<Rightarrow> do {
          (t', r) \<leftarrow> submit_call E rng (broadcast_vertex (bc_data msg)) t;
          Some (t', handler_step
            \<lparr>hc_submit = (\<lambda>_. api_submit_vertex (Replied r)), hc_get_vertex = (\<lambda>_. Inl ActionSend),
             hc_get_preference = (\<lambda>_. Inl ActionSend)\<rparr> (P2pEvent ev)) }
      | _ \<Rightarrow> None) }"

definition received_message :: "(string \<Rightarrow> u8 list) \<Rightarrow> peer_id \<Rightarrow> u8 list \<Rightarrow> vertex \<Rightarrow> broadcast" where
  "received_message digest src msg_id vx =
     \<lparr>bc_id = msg_id, bc_src = src, bc_topic = digest ''Vertex'', bc_data = BroadcastVertex vx\<rparr>"

text \<open>The timestamp plays no part in any check.\<close>

lemma restamped_check:
  assumes "\<And>v now. env_hash E (v\<lparr>vx_timestamp := now\<rparr>) = env_hash E v"
  shows "check_vertex E d (vx\<lparr>vx_timestamp := now\<rparr>) = check_vertex E d vx"
    and "expected_verdict E d (vx\<lparr>vx_timestamp := now\<rparr>) msg = expected_verdict E d vx msg"
proof -
  have anc: "get_active_ancestor_constraints E d (vx\<lparr>vx_timestamp := now\<rparr>) = get_active_ancestor_constraints E d vx"
    by (simp add: get_active_ancestor_constraints_def get_active_ancestors_def parent_constraints_def
        cong: if_cong)
  show check: "check_vertex E d (vx\<lparr>vx_timestamp := now\<rparr>) = check_vertex E d vx"
    by (simp add: check_vertex_def sanity_checks_def anc assms cong: if_cong)
  have "rejected_reach d (vx\<lparr>vx_timestamp := now\<rparr>) = rejected_reach d vx"
    "parent_height d (vx\<lparr>vx_timestamp := now\<rparr>) = parent_height d vx"
    by (simp_all add: rejected_reach_def parent_height_def)
  with check show "expected_verdict E d (vx\<lparr>vx_timestamp := now\<rparr>) msg = expected_verdict E d vx msg"
    by (simp add: expected_verdict_def assms)
qed

lemma gossip_spreads:
  fixes src :: peer_id and msg_id :: "u8 list" and digest :: "string \<Rightarrow> u8 list"
  assumes "decodes (pe_encode PA) (pe_decode PB)" and "pe_encode PA (Some (proto_of_vertex vx)) \<noteq> None"
    and "pe_subscribed PB" and "sanity_checks vx = Inr ()"
    and "task_reach H cfg t" and "env_ok E" and "env_hash E = H" and "room 1 t"
    and "\<And>h. fair_draws (length (ct_validators t)) (rng h)"
    and "\<And>v now. H (v\<lparr>vx_timestamp := now\<rparr>) = H v"
  defines "msg \<equiv> received_message digest src msg_id (vx\<lparr>vx_timestamp := pe_now PB\<rparr>)"
  shows "\<exists>t'. gossip_exchange PA PB digest E rng src msg_id vx submit a b t = Some (t',
      (if H vx \<notin> graph_in t \<and> \<not> set (vx_parents vx) \<subseteq> known_in t
       then [StartFetcher src (filter (\<lambda>p. p \<notin> known_in t) (vx_parents vx))] else []) @
      [Report (expected_verdict E (ct_dag t) vx msg)]) \<and>
    (check_vertex E (ct_dag t) vx = Some (Inr ()) \<longrightarrow> H vx \<in> graph_in t')"
proof -
  let ?vx = "vx\<lparr>vx_timestamp := pe_now PB\<rparr>"
  obtain bytes where bytes: "pe_encode PA (Some (proto_of_vertex vx)) = Some bytes" using assms(2) by blast
  have sent: "to_wire broadcast_to_protobuf (pe_encode PA) BcProstEncode True (BroadcastVertex vx) = Inr bytes"
    by (simp add: to_wire_def vertex_to_protobuf_eq assms(4) bytes)
  have a1: "p2p_step PA (Inbound (Broadcast (BroadcastVertex vx)) 0 True) a = Some (a, [PublishBytes ''Vertex'' bytes], True)"
    by (simp add: p2p_step_def handle_inbound_action_def sent)
  have got: "handle_gossipsub (pe_now PB) (pe_decode PB) (GossipMessage src msg_id (digest ''Vertex'') bytes) =
      Some (GossipsubMessage msg)"
    using broadcast_wire.wire_roundtrip[OF assms(1) sent, of "pe_now PB" BcProstDecode]
    by (simp add: handle_gossipsub_def msg_def received_message_def)
  then have b1: "p2p_step PB (SwarmGossip (GossipMessage src msg_id (digest ''Vertex'') bytes)) b =
      Some (b, [Emit (GossipsubMessage msg)], True)"
    using assms(3) by (simp add: p2p_step_def emit_def)
  have data: "bc_data msg = BroadcastVertex ?vx" by (simp add: msg_def received_message_def)
  have stamp: "\<And>v now. env_hash E (v\<lparr>vx_timestamp := now\<rparr>) = env_hash E v" using assms(7,10) by simp
  obtain t' r where call: "submit_call E rng ?vx t = Some (t', r)"
    "handler_gossip msg (api_submit_vertex (Replied r)) =
      (if H ?vx \<notin> graph_in t \<and> \<not> set (vx_parents ?vx) \<subseteq> known_in t
       then [StartFetcher src (filter (\<lambda>p. p \<notin> known_in t) (vx_parents ?vx))] else []) @
      [Report (expected_verdict E (ct_dag t) ?vx msg)]"
    "check_vertex E (ct_dag t) ?vx = Some (Inr ()) \<longrightarrow> H ?vx \<in> graph_in t'"
    using gossip_verdict[where rng = rng, OF assms(5-9) got data] by blast
  then show ?thesis
    by (simp add: gossip_exchange_def rpc_submit_vertex_def api_broadcast_vertex_def send_action_def
        action_out_def a1 publish_out_def b1 event_out_def data handler_step_def
        restamped_check[OF stamp] assms(10))
qed

text \<open>
  C7: A proposal spreads: let two nodes hold the same graph, in which every accepted vertex has
  accepted parents. The vertex the sequencer proposes on its frontier, if it is new, enters the graph
  of the node it is submitted to, is published, and enters the graph of the other node, whose handler
  accepts the message.
\<close>

theorem proposal_spreads:
  assumes "decodes (pe_encode PA) (pe_decode PB)" and "pe_encode PA (Some (proto_of_vertex px)) \<noteq> None"
    and "pe_subscribed PB"
    and "task_reach H cfg s" and "task_reach H cfg t" and "ct_dag s = ct_dag t" and "acceptance_closed (ct_dag t)"
    and "env_ok E" and "env_hash E = H" and "room 1 s" and "room 1 t"
    and "\<And>h. fair_draws (length (ct_validators s)) (rng h)" and "\<And>h. fair_draws (length (ct_validators t)) (rng' h)"
    and "\<And>v now. H (v\<lparr>vx_timestamp := now\<rparr>) = H v"
    and "get_frontier E (ct_dag s) = Some frontier"
    and "propose now (map (vertex_meta_of H) frontier) = Some px" and "H px \<notin> graph_in s"
  shows "\<exists>s' W t' report. submit_call E rng px s = Some (s', Inr W) \<and> H px \<in> graph_in s' \<and>
    gossip_exchange PA PB digest E rng' src msg_id px submit a b t = Some (t', [Report report]) \<and>
    vr_acceptance report = Accept \<and> H px \<in> graph_in t'"
proof -
  have reach: "dag_reach H (cc_dag cfg) genesis_vertex (ct_dag s)"
    using task_reach_inv[OF assms(4)] by (simp add: task_inv_def)
  have new: "H px |\<notin>| fmdom (dag_graph (ct_dag t))" using assms(6,17) by (simp add: graph_in_def)
  have check: "check_vertex E (ct_dag t) px = Some (Inr ())"
    using proposal_checked[OF reach assms(8,9,15), of now] assms(6,7,16) new by auto
  then have sane: "sanity_checks px = Inr ()"
    by (cases "sanity_checks px") (auto simp: check_vertex_def)
  have "task_ready E rng cfg (Suc 0) s"
    using task_reach_inv[OF assms(4)] assms(8,9,10,12) by (simp add: task_ready_def)
  then obtain s' resp where s': "submit_call E rng px s = Some (s', map_sum ConsensusDag id resp)"
    "check_vertex E (ct_dag s) px = Some (map_sum id (\<lambda>_. ()) resp)"
    "(\<exists>w. resp = Inr w) \<longrightarrow> env_hash E px \<in> graph_in s'"
    using submit_call_walk by blast
  with check assms(6) obtain W where W: "resp = Inr W" by (cases resp) auto
  let ?msg = "received_message digest src msg_id (px\<lparr>vx_timestamp := pe_now PB\<rparr>)"
  obtain t' where t': "gossip_exchange PA PB digest E rng' src msg_id px submit a b t = Some (t',
      (if H px \<notin> graph_in t \<and> \<not> set (vx_parents px) \<subseteq> known_in t
       then [StartFetcher src (filter (\<lambda>p. p \<notin> known_in t) (vx_parents px))] else []) @
      [Report (expected_verdict E (ct_dag t) px ?msg)])" "H px \<in> graph_in t'"
    using gossip_spreads[where rng = rng' and src = src and msg_id = msg_id and digest = digest and submit = submit
        and a = a and b = b, OF assms(1-3) sane assms(5,8,9,11,13,14)] check by blast
  have "check_outcome E (ct_dag t) px (Inr ())"
    using check_vertex_walk[OF _ assms(8), of H "ct_dag t" px] reach_inv[OF reach] assms(6) check by auto
  then have passes: "set (vx_parents px) \<subseteq> fset (fmdom (dag_vertex (ct_dag t)))"
    "expected_verdict E (ct_dag t) px ?msg = accept_message ?msg"
    using sane check new assms(9)
    by (cases rule: sane_check_cases; simp add: expected_verdict_def)+
  show ?thesis
    using s'(1,3) W t' passes assms(9) by (auto simp: known_in_def accept_message_def)
qed

text \<open>Two fresh nodes.\<close>

lemma fresh_run:
  "do { r \<leftarrow> dag_new counting_env (test_config 1 1) [genesis_vertex];
        case r of Inl _ \<Rightarrow> None
        | Inr d \<Rightarrow> Some (get_frontier counting_env d, dag_graph d = fmap_of_list [(h0, genesis_vertex)],
            fcard (fmdom (dag_vertex d)) + 1 < 2 ^ 64) } =
   Some (Some [genesis_vertex], True, True)"
  by (simp add: counting_env_def genesis_vertex_def default_hash_h0 get_frontier_def strongly_preferred_def run_eval
      del: fmap_of_list_simps fmupd_lookup cong: eval_cong)

lemma fresh_task:
  obtains t where "task_reach (env_hash counting_env) small_config t" "room 1 t" "ct_validators t = []"
    "get_frontier counting_env (ct_dag t) = Some [genesis_vertex]"
    "dag_graph (ct_dag t) = fmap_of_list [(h0, genesis_vertex)]"
proof -
  obtain r where r: "dag_new counting_env (test_config 1 1) [genesis_vertex] = Some r"
    "(case r of Inl _ \<Rightarrow> None
      | Inr d \<Rightarrow> Some (get_frontier counting_env d, dag_graph d = fmap_of_list [(h0, genesis_vertex)],
          fcard (fmdom (dag_vertex d)) + 1 < 2 ^ 64)) = Some (Some [genesis_vertex], True, True)"
    using fresh_run by (auto simp: bind_eq_Some_conv)
  then obtain d where d: "dag_new counting_env (test_config 1 1) [genesis_vertex] = Some (Inr d)"
    "get_frontier counting_env d = Some [genesis_vertex]" "dag_graph d = fmap_of_list [(h0, genesis_vertex)]"
    "fcard (fmdom (dag_vertex d)) + 1 < 2 ^ 64"
    by (cases r) auto
  let ?t = "\<lparr>ct_config = small_config, ct_dag = d, ct_validators = [], ct_unread = 0\<rparr>"
  have new: "consensus_task_new counting_env small_config = Some (Inr ?t)"
    using d(1) by (simp add: consensus_task_new_def consensus_config_check_def small_config_def)
  have ok: "env_ok counting_env" by (simp add: env_ok_def counting_env_def sorted_fset_iterates)
  show thesis
    by (rule that[of ?t]) (use task_start[OF ok refl new] d in \<open>simp_all add: room_def\<close>)
qed

definition fresh_proposal :: vertex where
  "fresh_proposal = (empty_vertex 5)\<lparr>vx_height := 1, vx_parents := [h0]\<rparr>"

definition proposal_env :: p2p_env where
  "proposal_env =
     \<lparr>pe_now = 9, pe_encode = encode_only (Some (proto_of_vertex fresh_proposal)),
      pe_decode = decode_only (Some (proto_of_vertex fresh_proposal)), pe_subscribed = True\<rparr>"

theorem proposal_spreads_witness:
  "\<exists>t s' W t' report.
    submit_call counting_env (\<lambda>_. []) fresh_proposal t = Some (s', Inr W) \<and>
    gossip_exchange proposal_env proposal_env (\<lambda>_. [2]) counting_env (\<lambda>_. []) 4 [1] fresh_proposal (\<lambda>_. Late) idle_task idle_task t =
      Some (t', [Report report]) \<and>
    vr_acceptance report = Accept \<and> h1 \<in> graph_in t'"
proof -
  obtain t where t: "task_reach (env_hash counting_env) small_config t" "room 1 t" "ct_validators t = []"
    "get_frontier counting_env (ct_dag t) = Some [genesis_vertex]"
    "dag_graph (ct_dag t) = fmap_of_list [(h0, genesis_vertex)]"
    by (rule fresh_task)
  have ok: "env_ok counting_env" by (simp add: env_ok_def counting_env_def sorted_fset_iterates)
  have closed: "acceptance_closed (ct_dag t)"
    using t(5) by (auto simp: acceptance_closed_def parents_of_def genesis_vertex_def fmlookup_of_list
        split: option.splits if_splits)
  have fair: "fair_draws (length (ct_validators t)) []" using t(3) by (simp add: fair_draws_def)
  have meta: "propose 5 (map (vertex_meta_of (env_hash counting_env)) [genesis_vertex]) = Some fresh_proposal"
    by (simp add: propose_def vertex_meta_of_def counting_env_def genesis_vertex_def fresh_proposal_def)
  have hash: "env_hash counting_env fresh_proposal = h1" by (simp add: counting_env_def fresh_proposal_def)
  then have new: "env_hash counting_env fresh_proposal \<notin> graph_in t"
    using t(5) hash_simps by (simp add: graph_in_def fmdom_fmap_of_list)
  have enc: "decodes (pe_encode proposal_env) (pe_decode proposal_env)" "pe_encode proposal_env (Some (proto_of_vertex fresh_proposal)) \<noteq> None"
    "pe_subscribed proposal_env"
    by (simp_all add: proposal_env_def decodes_only) (simp add: encode_only_def)
  have stamp: "env_hash counting_env (v\<lparr>vx_timestamp := n\<rparr>) = env_hash counting_env v" for v n
    by (simp add: counting_env_def)
  from proposal_spreads[where rng = "\<lambda>_. []" and rng' = "\<lambda>_. []" and digest = "\<lambda>_. [2]" and src = 4
      and msg_id = "[1]" and submit = "\<lambda>_. Late" and a = idle_task and b = idle_task,
      OF enc t(1) t(1) refl closed ok refl t(2) t(2) fair fair stamp t(4) meta new]
  show ?thesis unfolding hash by blast
qed

end
