(* ===== verification/Network_Behaviour.thy ===== *)
theory Network_Behaviour
  imports P2p_Task
begin

text \<open>
  \<open>src/p2p/behaviour.rs\<close> and the start of \<open>src/p2p/task.rs\<close>: the protocols of
  \<open>libp2p\<close> are configured and combined, the node subscribes to the topic of every kind of
  broadcast, and the task binds its ports and joins the network. The library is a parameter: a record
  of its constructors and setters, over one type for all of its values.
\<close>

section \<open>The library\<close>

text \<open>A constructor that can fail yields an option; what it fails with is kept only as its kind.\<close>

record 'l libp2p =
  lp_public :: "keypair \<Rightarrow> 'l"
  lp_peer_id :: "'l \<Rightarrow> peer_id"
  lp_kad_config :: 'l
  lp_set_query_timeout :: "nat \<Rightarrow> 'l \<Rightarrow> 'l"
  lp_gossipsub_config :: "bool \<Rightarrow> 'l option"
  lp_identify_config :: "string \<Rightarrow> 'l \<Rightarrow> 'l"
  lp_mdns_config :: 'l
  lp_request_config :: 'l
  lp_gossipsub_new :: "keypair \<Rightarrow> 'l \<Rightarrow> 'l option"
  lp_subscribe :: "string \<Rightarrow> 'l \<Rightarrow> 'l option"
  lp_identify_new :: "'l \<Rightarrow> 'l"
  lp_kad_new :: "peer_id \<Rightarrow> 'l \<Rightarrow> 'l"
  lp_block_lists :: 'l
  lp_upnp :: 'l
  lp_mdns_new :: "'l \<Rightarrow> peer_id \<Rightarrow> 'l option"
  lp_requests_new :: "string \<Rightarrow> 'l \<Rightarrow> 'l"
  lp_kad_set_mode :: "kad_mode option \<Rightarrow> 'l \<Rightarrow> 'l"

section \<open>Configuration\<close>

definition PROTOCOL_NAME :: string where
  "PROTOCOL_NAME = ''/taurus/0.1.0''"

text \<open>The name of the request protocol, \<open>AsRef<str>\<close> of \<open>request::Protocol\<close>.\<close>

definition REQUEST_PROTOCOL_NAME :: string where
  "REQUEST_PROTOCOL_NAME = ''/taurus_request/0.1.0''"

definition DEFAULT_KAD_QUERY_TIMOUT :: nat where
  "DEFAULT_KAD_QUERY_TIMOUT = 60"

datatype behaviour_error = BehaviourIo | BehaviourSubscription

record 'l behaviour_config =
  bf_keys :: keypair
  bf_identify_cfg :: 'l
  bf_kad_cfg :: 'l
  bf_gossipsub_cfg :: 'l
  bf_mdns_cfg :: 'l
  bf_request_cfg :: 'l

text \<open>Messages are validated before they propagate; a configuration that cannot be built is a crash.\<close>

definition behaviour_config_new :: "'l libp2p \<Rightarrow> keypair \<Rightarrow> 'l behaviour_config option" where
  "behaviour_config_new L keys = do {
     gossipsub_cfg \<leftarrow> lp_gossipsub_config L True;
     Some \<lparr>bf_keys = keys,
       bf_identify_cfg = lp_identify_config L PROTOCOL_NAME (lp_public L keys),
       bf_kad_cfg = lp_set_query_timeout L DEFAULT_KAD_QUERY_TIMOUT (lp_kad_config L),
       bf_gossipsub_cfg = gossipsub_cfg, bf_mdns_cfg = lp_mdns_config L,
       bf_request_cfg = lp_request_config L\<rparr> }"

section \<open>The behaviour\<close>

record 'l behaviour =
  bh_identify :: 'l
  bh_kademlia :: 'l
  bh_gossipsub :: 'l
  bh_block_lists :: 'l
  bh_upnp :: 'l
  bh_mdns :: 'l
  bh_requests :: 'l

text \<open>\<open>BroadcastData::iter()\<close>: each variant once, with the default of its contents.\<close>

definition broadcast_iter :: "broadcast_data list" where
  "broadcast_iter = [BroadcastVertex default_vertex]"

text \<open>\<open>From<BroadcastData> for TopicHash\<close>, over the hash of a topic.\<close>

definition topic_hash_of :: "(string \<Rightarrow> u8 list) \<Rightarrow> broadcast_data \<Rightarrow> u8 list" where
  "topic_hash_of sha256 m = sha256 (topic_of m)"

primrec subscribe_all :: "'l libp2p \<Rightarrow> broadcast_data list \<Rightarrow> 'l \<Rightarrow> 'l option" where
  "subscribe_all L [] g = Some g"
| "subscribe_all L (m # ms) g = do { g' \<leftarrow> lp_subscribe L (topic_of m) g; subscribe_all L ms g' }"

definition behaviour_new ::
  "'l libp2p \<Rightarrow> 'l behaviour_config \<Rightarrow> (behaviour_error + 'l behaviour) option" where
  "behaviour_new L cfg =
     (let local_peer_id = lp_peer_id L (lp_public L (bf_keys cfg)) in do {
        gossipsub \<leftarrow> lp_gossipsub_new L (bf_keys cfg) (bf_gossipsub_cfg cfg);
        (case subscribe_all L broadcast_iter gossipsub of
           None \<Rightarrow> Some (Inl BehaviourSubscription)
         | Some gossipsub \<Rightarrow>
             (case lp_mdns_new L (bf_mdns_cfg cfg) local_peer_id of
                None \<Rightarrow> Some (Inl BehaviourIo)
              | Some mdns \<Rightarrow>
                  Some (Inr \<lparr>bh_identify = lp_identify_new L (bf_identify_cfg cfg),
                    bh_kademlia = lp_kad_new L local_peer_id (bf_kad_cfg cfg),
                    bh_gossipsub = gossipsub, bh_block_lists = lp_block_lists L, bh_upnp = lp_upnp L,
                    bh_mdns = mdns,
                    bh_requests = lp_requests_new L REQUEST_PROTOCOL_NAME (bf_request_cfg cfg)\<rparr>))) })"

section \<open>The start of the task\<close>

definition P2P_EVENT_CHAN_CAPACITY :: nat where
  "P2P_EVENT_CHAN_CAPACITY = 128"

text \<open>
  The swarm around the behaviour: an error of the transport (\<open>tcp_ok\<close> is false) or of the
  behaviour is a crash. Connections idle for 60 seconds are closed.
\<close>

record 'l swarm =
  sw_behaviour :: "'l behaviour"
  sw_idle_timeout :: nat

definition swarm_new :: "'l libp2p \<Rightarrow> bool \<Rightarrow> p2p_config \<Rightarrow> 'l swarm option" where
  "swarm_new L tcp_ok cfg =
     (if \<not> tcp_ok then None
      else do {
        bcfg \<leftarrow> behaviour_config_new L (pc_identity_key cfg);
        r \<leftarrow> behaviour_new L bcfg;
        (case r of
           Inl _ \<Rightarrow> None
         | Inr b \<Rightarrow>
             Some \<lparr>sw_behaviour =
                 b\<lparr>bh_kademlia := lp_kad_set_mode L (pc_kad_mode_override cfg) (bh_kademlia b)\<rparr>,
               sw_idle_timeout = 60\<rparr>) })"

text \<open>The handle other tasks hold; numbers stand for the two channels.\<close>

record p2p_api =
  pa_action_ch :: nat
  pa_event_sender :: nat

definition p2p_api_new :: "nat \<Rightarrow> nat \<Rightarrow> p2p_api" where
  "p2p_api_new action_ch event_sender = \<lparr>pa_action_ch = action_ch, pa_event_sender = event_sender\<rparr>"

definition p2p_start ::
  "'l libp2p \<Rightarrow> bool \<Rightarrow> nat \<Rightarrow> nat \<Rightarrow> p2p_config \<Rightarrow> (p2p_task \<times> 'l swarm \<times> p2p_api) option" where
  "p2p_start L tcp_ok action_ch event_ch cfg = do {
     swarm \<leftarrow> swarm_new L tcp_ok cfg;
     Some (p2p_task_new cfg, swarm, p2p_api_new action_ch event_ch) }"

text \<open>
  What the task does before its loop: both listeners, the boot peers, and its own identity. A
  failure of either is only logged.
\<close>

definition p2p_enter ::
  "'l libp2p \<Rightarrow> (multiaddr \<Rightarrow> bool) \<Rightarrow> bool \<Rightarrow> p2p_task \<Rightarrow>
     p2p_task \<times> u16 option \<times> u16 option \<times> p2p_effect list" where
  "p2p_enter L listen_on bootstrap_ok t =
     (let cfg = pt_config t;
          tcp = start_listener listen_on False cfg;
          quic = start_listener listen_on True cfg;
          (effs, _) = join_dht bootstrap_ok (pc_boot_peers cfg)
      in (t\<lparr>pt_peer_id := Some (lp_peer_id L (lp_public L (pc_identity_key cfg)))\<rparr>, tcp, quic, effs))"

section \<open>Subscriptions\<close>

text \<open>
  The documentation of the gossip layer: a new one has no subscription, and \<open>subscribe\<close> adds the
  topic and no other.
\<close>

definition subscriptions_documented :: "'l libp2p \<Rightarrow> ('l \<Rightarrow> string set) \<Rightarrow> bool" where
  "subscriptions_documented L topics \<longleftrightarrow>
     (\<forall>keys cfg g. lp_gossipsub_new L keys cfg = Some g \<longrightarrow> topics g = {}) \<and>
     (\<forall>topic g g'. lp_subscribe L topic g = Some g' \<longrightarrow> topics g' = insert topic (topics g))"

lemma subscribe_all_topics:
  assumes "subscriptions_documented L topics" and "subscribe_all L ms g = Some g'"
  shows "topics g' = topics g \<union> topic_of ` set ms"
  using assms(2)
proof (induction ms arbitrary: g)
  case (Cons m ms)
  then obtain g1 where g1: "lp_subscribe L (topic_of m) g = Some g1" "subscribe_all L ms g1 = Some g'"
    by (auto simp: bind_eq_Some_conv)
  have "topics g1 = insert (topic_of m) (topics g)"
    using assms(1) g1(1) by (simp add: subscriptions_documented_def)
  with Cons.IH[OF g1(2)] show ?case by simp
qed simp

text \<open>Every broadcast has the topic of a variant.\<close>

lemma broadcast_topics: "topic_of ` set broadcast_iter = range topic_of"
proof -
  have "topic_of m = ''Vertex''" for m by (cases m) simp
  then show ?thesis by (auto simp: broadcast_iter_def image_iff)
qed

lemma behaviour_new_gossipsub:
  assumes "behaviour_new L cfg = Some (Inr b)"
  shows "\<exists>g. lp_gossipsub_new L (bf_keys cfg) (bf_gossipsub_cfg cfg) = Some g \<and>
    subscribe_all L broadcast_iter g = Some (bh_gossipsub b)"
  using assms by (force simp: behaviour_new_def Let_def bind_eq_Some_conv split: option.splits)

lemma swarm_new_behaviour:
  assumes "swarm_new L tcp_ok cfg = Some sw"
  obtains bcfg b where "behaviour_config_new L (pc_identity_key cfg) = Some bcfg"
    "behaviour_new L bcfg = Some (Inr b)"
    "sw_behaviour sw = b\<lparr>bh_kademlia := lp_kad_set_mode L (pc_kad_mode_override cfg) (bh_kademlia b)\<rparr>"
proof -
  obtain bcfg r where r: "behaviour_config_new L (pc_identity_key cfg) = Some bcfg" "behaviour_new L bcfg = Some r"
    "(case r of Inl _ \<Rightarrow> None | Inr b \<Rightarrow>
       Some \<lparr>sw_behaviour = b\<lparr>bh_kademlia := lp_kad_set_mode L (pc_kad_mode_override cfg) (bh_kademlia b)\<rparr>,
         sw_idle_timeout = 60\<rparr>) = Some sw"
    using assms by (auto simp: swarm_new_def bind_eq_Some_conv split: if_splits)
  from r(3) obtain b where "r = Inr b"
    "sw = \<lparr>sw_behaviour = b\<lparr>bh_kademlia := lp_kad_set_mode L (pc_kad_mode_override cfg) (bh_kademlia b)\<rparr>,
       sw_idle_timeout = 60\<rparr>"
    by (auto split: sum.splits)
  with r(1,2) show thesis by (intro that[of bcfg b]) simp_all
qed

lemma swarm_subscriptions:
  assumes "subscriptions_documented L topics" and "swarm_new L tcp_ok cfg = Some sw"
  shows "topics (bh_gossipsub (sw_behaviour sw)) = range topic_of"
proof -
  obtain bcfg b where b: "behaviour_new L bcfg = Some (Inr b)"
    "bh_gossipsub (sw_behaviour sw) = bh_gossipsub b"
    using assms(2) by (rule swarm_new_behaviour) simp
  obtain g where g: "lp_gossipsub_new L (bf_keys bcfg) (bf_gossipsub_cfg bcfg) = Some g"
    "subscribe_all L broadcast_iter g = Some (bh_gossipsub b)"
    using behaviour_new_gossipsub[OF b(1)] by blast
  have "topics g = {}" using assms(1) g(1) by (auto simp: subscriptions_documented_def)
  with subscribe_all_topics[OF assms(1) g(2)] b(2) show ?thesis by (simp add: broadcast_topics)
qed

lemma published_topics:
  assumes "p2p_run P inps t = Some (t', effs, c)" and "PublishBytes topic bytes \<in> set effs"
  shows "topic \<in> range topic_of"
  using assms
proof (induction inps arbitrary: t effs)
  case (Cons inp inps)
  then obtain t1 effs1 continue where step: "p2p_step P inp t = Some (t1, effs1, continue)"
    by (auto simp: bind_eq_Some_conv)
  have here: "topic \<in> range topic_of" if "PublishBytes topic bytes \<in> set effs1"
    using step that
    by (auto simp: p2p_step_def emit_def handle_identify_def handle_request_response_def
        handle_inbound_action_def bind_eq_Some_conv
        split: p2p_input.splits option.splits if_splits prod.splits identify_event.splits
          rr_event.splits p2p_action.splits sum.splits)
  show ?case
  proof (cases continue)
    case True
    with step Cons.prems obtain effs2 where "p2p_run P inps t1 = Some (t', effs2, c)" "effs = effs1 @ effs2"
      by (auto simp: bind_eq_Some_conv)
    with Cons.IH Cons.prems(2) here show ?thesis by auto
  next
    case False
    with step Cons.prems here show ?thesis by auto
  qed
qed simp

text \<open>
  C37: A node hears what it says: when its swarm is built, its gossip layer is subscribed to exactly
  the topics of the broadcasts, and whatever the task goes through, every message it publishes is
  published on a topic the node is subscribed to.
\<close>

theorem broadcasts_are_subscribed:
  assumes "subscriptions_documented L topics"
    and "p2p_start L tcp_ok action_ch event_ch cfg = Some (t, sw, api)"
    and "p2p_run P inps (fst (p2p_enter L listen_on bootstrap_ok t)) = Some (t', effs, continue)"
  shows "topics (bh_gossipsub (sw_behaviour sw)) = range topic_of \<and>
    (\<forall>topic bytes. PublishBytes topic bytes \<in> set effs \<longrightarrow> topic \<in> topics (bh_gossipsub (sw_behaviour sw)))"
proof -
  have "swarm_new L tcp_ok cfg = Some sw" using assms(2) by (auto simp: p2p_start_def bind_eq_Some_conv)
  from swarm_subscriptions[OF assms(1) this] published_topics[OF assms(3)] show ?thesis by auto
qed

text \<open>A library whose values are the lists of topics subscribed to.\<close>

definition topic_lib :: "string list libp2p" where
  "topic_lib =
     \<lparr>lp_public = (\<lambda>_. []), lp_peer_id = (\<lambda>_. 1), lp_kad_config = [], lp_set_query_timeout = (\<lambda>_ c. c),
      lp_gossipsub_config = (\<lambda>_. Some []), lp_identify_config = (\<lambda>_ _. []), lp_mdns_config = [],
      lp_request_config = [], lp_gossipsub_new = (\<lambda>_ _. Some []), lp_subscribe = (\<lambda>topic g. Some (topic # g)),
      lp_identify_new = (\<lambda>c. c), lp_kad_new = (\<lambda>_ c. c), lp_block_lists = [], lp_upnp = [],
      lp_mdns_new = (\<lambda>c _. Some c), lp_requests_new = (\<lambda>_ c. c), lp_kad_set_mode = (\<lambda>_ c. c)\<rparr>"

definition plain_config :: p2p_config where
  "plain_config = \<lparr>pc_datadir = [], pc_identity_key = 0, pc_boot_peers = [], pc_addr = 0, pc_port = 9047,
     pc_search_port = False, pc_kad_mode_override = None\<rparr>"

definition vertex_env :: p2p_env where
  "vertex_env = \<lparr>pe_now = 0, pe_encode = (\<lambda>_. Some [7]), pe_decode = (\<lambda>_. None), pe_subscribed = True\<rparr>"

theorem broadcasts_are_subscribed_witness:
  "\<exists>t sw api t' effs.
    p2p_start topic_lib True 0 1 plain_config = Some (t, sw, api) \<and>
    p2p_run vertex_env [Inbound (Broadcast (BroadcastVertex (default_vertex\<lparr>vx_version := VERSION, vx_parents := [default_hash]\<rparr>))) 0 True]
      (fst (p2p_enter topic_lib (\<lambda>_. True) True t)) = Some (t', effs, True) \<and>
    effs = [PublishBytes ''Vertex'' [7]] \<and>
    set (bh_gossipsub (sw_behaviour sw)) = range topic_of"
proof -
  let ?inps = "[Inbound (Broadcast (BroadcastVertex (default_vertex\<lparr>vx_version := VERSION, vx_parents := [default_hash]\<rparr>))) 0 True]"
  have doc: "subscriptions_documented topic_lib set"
    by (simp add: subscriptions_documented_def topic_lib_def)
  obtain t sw api where start: "p2p_start topic_lib True 0 1 plain_config = Some (t, sw, api)"
    by (simp add: p2p_start_def swarm_new_def behaviour_config_new_def behaviour_new_def topic_lib_def
        broadcast_iter_def Let_def)
  obtain t' where run: "p2p_run vertex_env ?inps (fst (p2p_enter topic_lib (\<lambda>_. True) True t)) =
      Some (t', [PublishBytes ''Vertex'' [7]], True)"
    by (simp add: p2p_step_def handle_inbound_action_def vertex_env_def to_wire_def default_vertex_def
        vertex_to_protobuf_def sanity_checks_def VERSION_def hash_to_protobuf_def)
  show ?thesis
    using start run broadcasts_are_subscribed[OF doc start run] by blast
qed

end
