(* ===== verification/Taurus_Util.thy ===== *)
theory Taurus_Util
  imports Taurus_Prelude
begin

text \<open>
  \<open>src/util/mod.rs\<close>: numbers made readable. The argument is an \<open>i64\<close>; its negation
  wraps, as it does in a release build.
\<close>

definition neg_i64 :: "int \<Rightarrow> int" where
  "neg_i64 n = (if n = - (2 ^ 63) then n else - n)"

definition i64 :: "int \<Rightarrow> bool" where
  "i64 n \<longleftrightarrow> - (2 ^ 63) \<le> n \<and> n < 2 ^ 63"

text \<open>Decimal notation, as \<open>format!\<close> has it.\<close>

fun digits :: "nat \<Rightarrow> string" where
  "digits n = (if n < 10 then [char_of (48 + n)] else digits (n div 10) @ [char_of (48 + n mod 10)])"

declare digits.simps [simp del]

definition decimal :: "int \<Rightarrow> string" where
  "decimal n = (if n < 0 then ''-'' @ digits (nat (- n)) else digits (nat n))"

definition prefixes :: "string list" where
  "prefixes = ['''', ''k'', ''M'', ''G'', ''T'', ''P'']"

function scale_loop :: "int \<Rightarrow> nat \<Rightarrow> int \<times> nat" where
  "scale_loop num pre = (if 10000 \<le> num then scale_loop (num div 1000) (pre + 1) else (num, pre))"
  by pat_completeness auto

termination
  by (relation "measure (\<lambda>(num, pre). nat num)") auto

declare scale_loop.simps [simp del]

text \<open>Indexing the prefixes out of range would be a crash.\<close>

definition human_readable :: "int \<Rightarrow> string \<Rightarrow> string option" where
  "human_readable num units =
     (let sign = (if num < 0 then ''-'' else '''');
          (m, pre) = scale_loop (max num (neg_i64 num)) 0
      in do {
        prefix \<leftarrow> slice_get prefixes pre;
        Some (sign @ decimal m @ '' '' @ prefix @ units) })"

lemma scale_loop_result:
  assumes "0 \<le> num"
  shows "\<exists>k. scale_loop num pre = (num div 1000 ^ k, pre + k) \<and> num div 1000 ^ k < 10000 \<and>
    (0 < k \<longrightarrow> 10 \<le> num div 1000 ^ k \<and> 10000 * 1000 ^ (k - 1) \<le> num)"
  using assms
proof (induction num pre rule: scale_loop.induct)
  case (1 num pre)
  show ?case
  proof (cases "10000 \<le> num")
    case False
    then show ?thesis by (intro exI[of _ 0]) (simp add: scale_loop.simps)
  next
    case True
    let ?n = "num div 1000"
    obtain k where k: "scale_loop ?n (pre + 1) = (?n div 1000 ^ k, pre + 1 + k)" "?n div 1000 ^ k < 10000"
      "0 < k \<longrightarrow> 10 \<le> ?n div 1000 ^ k \<and> 10000 * 1000 ^ (k - 1) \<le> ?n"
    proof -
      have "0 \<le> ?n" using True by simp
      from "1.IH"[OF True this] that show thesis by blast
    qed
    have div: "?n div 1000 ^ k = num div 1000 ^ Suc k"
      by (simp add: zdiv_zmult2_eq[symmetric])
    have "10 \<le> ?n div 1000 ^ k" using k(3) True by (cases k) auto
    moreover have "10000 * 1000 ^ (Suc k - 1) \<le> num"
    proof (cases k)
      case (Suc j)
      then have "10000 * 1000 ^ j \<le> num div 1000" using k(3) by simp
      then have "10000 * 1000 ^ j * 1000 \<le> num" by linarith
      with Suc show ?thesis by simp
    qed (use True in simp)
    ultimately show ?thesis using True k(1,2) div
      by (intro exI[of _ "Suc k"]) (subst scale_loop.simps, simp)
  qed
qed

text \<open>
  C34: The formatting of a number never indexes past the last prefix. Apart from the least number,
  the mantissa is the magnitude divided, rounding down, by the power of 1000 that the prefix names;
  it has at most four digits, and at least two where it was divided. The least number, whose
  negation wraps around, comes out unscaled with its sign twice.
\<close>

theorem human_readable_scales:
  assumes "i64 n"
  shows "if n = - (2 ^ 63) then human_readable n units = Some (''--'' @ digits (2 ^ 63) @ '' '' @ units)
    else \<exists>k m. human_readable n units =
        Some ((if n < 0 then ''-'' else '''') @ digits m @ '' '' @ prefixes ! k @ units) \<and>
      k < length prefixes \<and> int m = \<bar>n\<bar> div 1000 ^ k \<and> m < 10000 \<and> (0 < k \<longrightarrow> 10 \<le> m)"
proof (cases "n = - (2 ^ 63)")
  case True
  then have "scale_loop (max n (neg_i64 n)) 0 = (- (2 ^ 63), 0)"
    by (subst scale_loop.simps) (simp add: neg_i64_def)
  with True show ?thesis
    by (simp add: human_readable_def decimal_def prefixes_def)
next
  case False
  then have mag: "max n (neg_i64 n) = \<bar>n\<bar>" by (simp add: neg_i64_def)
  obtain k where k: "scale_loop \<bar>n\<bar> 0 = (\<bar>n\<bar> div 1000 ^ k, k)" "\<bar>n\<bar> div 1000 ^ k < 10000"
    "0 < k \<longrightarrow> 10 \<le> \<bar>n\<bar> div 1000 ^ k \<and> 10000 * 1000 ^ (k - 1) \<le> \<bar>n\<bar>"
    using scale_loop_result[of "\<bar>n\<bar>" 0] by auto
  have "k < 6"
  proof (rule ccontr)
    assume "\<not> k < 6"
    then have "(1000 :: int) ^ 5 \<le> 1000 ^ (k - 1)" by (intro power_increasing) auto
    then have "10000 * 1000 ^ 5 \<le> \<bar>n\<bar>" using k(3) \<open>\<not> k < 6\<close> by simp
    with assms False show False by (auto simp: i64_def abs_if split: if_splits)
  qed
  moreover have "0 \<le> \<bar>n\<bar> div 1000 ^ k" by (simp add: pos_imp_zdiv_nonneg_iff)
  moreover have "nat (\<bar>n\<bar> div 1000 ^ k) < 10000 \<and> (0 < k \<longrightarrow> 10 \<le> nat (\<bar>n\<bar> div 1000 ^ k))"
    using k(2,3) by linarith
  ultimately have "human_readable n units =
        Some ((if n < 0 then ''-'' else '''') @ digits (nat (\<bar>n\<bar> div 1000 ^ k)) @ '' '' @ prefixes ! k @ units) \<and>
      k < length prefixes \<and> int (nat (\<bar>n\<bar> div 1000 ^ k)) = \<bar>n\<bar> div 1000 ^ k \<and>
      nat (\<bar>n\<bar> div 1000 ^ k) < 10000 \<and> (0 < k \<longrightarrow> 10 \<le> nat (\<bar>n\<bar> div 1000 ^ k))"
    using k mag by (simp add: human_readable_def decimal_def prefixes_def)
  with False show ?thesis by (simp only: if_False) blast
qed

theorem human_readable_scales_witness:
  "human_readable (- (2 ^ 63)) ''Hz'' = Some (''--'' @ digits (2 ^ 63) @ '' '' @ ''Hz'')"
  using human_readable_scales[of "- (2 ^ 63)" "''Hz''"] by (simp add: i64_def)

end
