(* ===== verification/Daemon.thy ===== *)
theory Daemon
  imports Node Network_Behaviour Taurus_Util
begin

text \<open>
  The two programs: the daemon (\<open>src/app/taurusd\<close>) with its RPC server
  (\<open>src/rpc/task.rs\<close>), and the sequencer (\<open>src/app/taurseq.rs\<close>,
  \<open>src/sequencer/mod.rs\<close>): command lines, directories, the identity key, the configurations
  made of them, and the order in which \<open>main\<close> starts the tasks. The parser of command lines
  (the crate \<open>clap\<close>), the library \<open>libp2p\<close> and the machine are parameters.
\<close>

section \<open>Command lines\<close>

datatype arg_kind =
  KindString | KindAddr | KindMultiaddr | KindPath | KindPort | KindMillis | KindOneOf "string list" | KindFlag

record arg_spec =
  as_name :: string
  as_kind :: arg_kind
  as_required :: bool
  as_default :: "string option"
  as_conflicts :: "string list"

definition arg :: "string \<Rightarrow> arg_kind \<Rightarrow> arg_spec" where
  "arg name kind =
     \<lparr>as_name = name, as_kind = kind, as_required = False, as_default = None, as_conflicts = []\<rparr>"

definition taurusd_args :: "arg_spec list" where
  "taurusd_args =
    [(arg ''bind'' KindAddr)\<lparr>as_default := Some ''0.0.0.0''\<rparr>,
     arg ''bootpeer'' KindMultiaddr,
     (arg ''datadir'' KindPath)\<lparr>as_conflicts := [''tmpdir'']\<rparr>,
     arg ''dhtmode'' (KindOneOf [''client'', ''server'']),
     (arg ''loglevel'' (KindOneOf [''info'', ''debug'', ''trace'']))\<lparr>as_default := Some ''info''\<rparr>,
     (arg ''port'' KindPort)\<lparr>as_default := Some ''9047''\<rparr>,
     arg ''portsearch'' KindFlag,
     (arg ''rpcbind'' KindAddr)\<lparr>as_default := Some ''127.0.0.1''\<rparr>,
     (arg ''rpcport'' KindPort)\<lparr>as_default := Some ''9048''\<rparr>,
     arg ''rpcportsearch'' KindFlag,
     (arg ''tmpdir'' KindFlag)\<lparr>as_conflicts := [''datadir'']\<rparr>]"

definition taurseq_args :: "arg_spec list" where
  "taurseq_args =
    [(arg ''rpchost'' KindString)\<lparr>as_required := True\<rparr>,
     (arg ''delay'' KindMillis)\<lparr>as_default := Some ''1000''\<rparr>,
     (arg ''loglevel'' (KindOneOf [''info'', ''debug'', ''trace'']))\<lparr>as_default := Some ''info''\<rparr>]"

datatype arg_value =
  ArgString string | ArgAddr u32 | ArgMultiaddr multiaddr | ArgPath string | ArgPort u16 | ArgMillis u64

text \<open>What the parser returns: the values of each argument, and the flags that were given.\<close>

record arg_matches =
  am_values :: "(string, arg_value list) fmap"
  am_flags :: "string fset"

definition arg_values :: "arg_matches \<Rightarrow> string \<Rightarrow> arg_value list" where
  "arg_values m name = (case fmlookup (am_values m) name of None \<Rightarrow> [] | Some vs \<Rightarrow> vs)"

definition get_flag :: "arg_matches \<Rightarrow> string \<Rightarrow> bool" where
  "get_flag m name \<longleftrightarrow> name |\<in>| am_flags m"

text \<open>Reading a value at another type than it was parsed at is a crash.\<close>

definition get_one :: "(arg_value \<Rightarrow> 'a option) \<Rightarrow> arg_matches \<Rightarrow> string \<Rightarrow> 'a option option" where
  "get_one read m name =
     (case arg_values m name of [] \<Rightarrow> Some None | v # _ \<Rightarrow> map_option Some (read v))"

definition get_many :: "(arg_value \<Rightarrow> 'a option) \<Rightarrow> arg_matches \<Rightarrow> string \<Rightarrow> 'a list option option" where
  "get_many read m name =
     (case arg_values m name of [] \<Rightarrow> Some None | vs \<Rightarrow> map_option Some (run_map read vs))"

text \<open>\<open>get_one(\<dots>).unwrap()\<close>.\<close>

definition required_arg :: "(arg_value \<Rightarrow> 'a option) \<Rightarrow> arg_matches \<Rightarrow> string \<Rightarrow> 'a option" where
  "required_arg read m name = do { v \<leftarrow> get_one read m name; v }"

fun as_string :: "arg_value \<Rightarrow> string option" where
  "as_string (ArgString s) = Some s" | "as_string _ = None"

fun as_addr :: "arg_value \<Rightarrow> u32 option" where
  "as_addr (ArgAddr a) = Some a" | "as_addr _ = None"

fun as_multiaddr :: "arg_value \<Rightarrow> multiaddr option" where
  "as_multiaddr (ArgMultiaddr a) = Some a" | "as_multiaddr _ = None"

fun as_path :: "arg_value \<Rightarrow> string option" where
  "as_path (ArgPath p) = Some p" | "as_path _ = None"

fun as_port :: "arg_value \<Rightarrow> u16 option" where
  "as_port (ArgPort p) = Some p" | "as_port _ = None"

fun as_millis :: "arg_value \<Rightarrow> u64 option" where
  "as_millis (ArgMillis n) = Some n" | "as_millis _ = None"

section \<open>Directories and the identity key\<close>

text \<open>\<open>PathBuf::join\<close>.\<close>

definition path_join :: "string \<Rightarrow> string \<Rightarrow> string" where
  "path_join base p =
     (if p \<noteq> [] \<and> hd p = CHR ''/'' then p
      else if base = [] \<or> last base = CHR ''/'' then base @ p
      else base @ ''/'' @ p)"

text \<open>
  \<open>Path::to_str\<close>: a path is any sequence of bytes, and shown only if they are UTF-8. The ranges of
  the second byte exclude overlong forms, surrogates and code points above the greatest.
\<close>

definition continuation :: "nat \<Rightarrow> bool" where
  "continuation b \<longleftrightarrow> 128 \<le> b \<and> b \<le> 191"

definition second_byte :: "nat \<Rightarrow> nat \<Rightarrow> bool" where
  "second_byte b c \<longleftrightarrow>
     (if b = 224 then 160 \<le> c \<and> c \<le> 191 else if b = 237 then 128 \<le> c \<and> c \<le> 159
      else if b = 240 then 144 \<le> c \<and> c \<le> 191 else if b = 244 then 128 \<le> c \<and> c \<le> 143
      else continuation c)"

fun utf8_bytes :: "nat list \<Rightarrow> bool" where
  "utf8_bytes [] \<longleftrightarrow> True"
| "utf8_bytes (b # bs) \<longleftrightarrow>
     (if b < 128 then utf8_bytes bs
      else if 194 \<le> b \<and> b \<le> 223
        then (case bs of c # cs \<Rightarrow> continuation c \<and> utf8_bytes cs | _ \<Rightarrow> False)
      else if 224 \<le> b \<and> b \<le> 239
        then (case bs of c # d # cs \<Rightarrow> second_byte b c \<and> continuation d \<and> utf8_bytes cs | _ \<Rightarrow> False)
      else if 240 \<le> b \<and> b \<le> 244
        then (case bs of c # d # e # cs \<Rightarrow>
            second_byte b c \<and> continuation d \<and> continuation e \<and> utf8_bytes cs | _ \<Rightarrow> False)
      else False)"

definition is_utf8 :: "string \<Rightarrow> bool" where
  "is_utf8 s \<longleftrightarrow> utf8_bytes (map of_char s)"

definition path_to_str :: "string \<Rightarrow> string option" where
  "path_to_str p = (if is_utf8 p then Some p else None)"

text \<open>The machine: its directory for application data, if it has one, and for temporary files.\<close>

record machine =
  mc_data_dir :: "string option"
  mc_temp_dir :: string

text \<open>
  \<open>name\<close> is the random name drawn, by this call, for a temporary directory.
\<close>

definition app_data_dir :: "machine \<Rightarrow> string \<Rightarrow> arg_matches \<Rightarrow> string option" where
  "app_data_dir M name m = do {
     given \<leftarrow> get_one as_path m ''datadir'';
     (case given of
        Some dir \<Rightarrow> Some dir
      | None \<Rightarrow> do {
          data_dir \<leftarrow> mc_data_dir M;
          Some (if get_flag m ''tmpdir'' then path_join (path_join (mc_temp_dir M) ''taurus/'') name
                else path_join data_dir ''taurus/'') }) }"

text \<open>
  The calls on the file system, and the encoding of keys. \<open>None\<close> of \<open>fc_read\<close> is any error, for
  whatever reason, of a file that is there or not.
\<close>

record 's file_calls =
  fc_create_dir_all :: "string \<Rightarrow> 's \<Rightarrow> 's"
  fc_read :: "string \<Rightarrow> 's \<Rightarrow> u8 list option"
  fc_write :: "string \<Rightarrow> u8 list \<Rightarrow> 's \<Rightarrow> 's option"

record key_codec =
  kc_encode :: "keypair \<Rightarrow> u8 list option"
  kc_decode :: "u8 list \<Rightarrow> keypair option"

text \<open>
  \<open>newkey\<close> is the key that would be generated; it is on any error of reading, and written over what
  is there. A key file that does not decode, or cannot be written, is a crash.
\<close>

definition get_peer_identity_key ::
  "'s file_calls \<Rightarrow> key_codec \<Rightarrow> keypair \<Rightarrow> string \<Rightarrow> 's \<Rightarrow> (keypair \<times> 's) option" where
  "get_peer_identity_key F K newkey datadir s =
     (let keypath = path_join datadir ''identity_key'';
          s1 = fc_create_dir_all F datadir s
      in case fc_read F keypath s1 of
           Some keydata \<Rightarrow> do { key \<leftarrow> kc_decode K keydata; Some (key, s1) }
         | None \<Rightarrow> do {
             keydata \<leftarrow> kc_encode K newkey;
             s2 \<leftarrow> fc_write F keypath keydata s1;
             Some (newkey, s2) })"

section \<open>Configurations\<close>

text \<open>The parser admits no other mode than these two; any other is \<open>unreachable!\<close>.\<close>

definition kad_mode_of :: "string \<Rightarrow> kad_mode option" where
  "kad_mode_of s =
     (if s = ''client'' then Some KadClient else if s = ''server'' then Some KadServer else None)"

definition build_p2p_cfg ::
  "machine \<Rightarrow> string \<Rightarrow> 's file_calls \<Rightarrow> key_codec \<Rightarrow> keypair \<Rightarrow> arg_matches \<Rightarrow> 's \<Rightarrow>
     (p2p_config \<times> 's) option" where
  "build_p2p_cfg M name F K newkey m s = do {
     dir \<leftarrow> app_data_dir M name m;
     let datadir = path_join dir ''p2p/'';
     (identity_key, s') \<leftarrow> get_peer_identity_key F K newkey datadir s;
     boot_peers \<leftarrow> get_many as_multiaddr m ''bootpeer'';
     addr \<leftarrow> required_arg as_addr m ''bind'';
     port \<leftarrow> required_arg as_port m ''port'';
     dhtmode \<leftarrow> get_one as_string m ''dhtmode'';
     mode \<leftarrow> (case dhtmode of None \<Rightarrow> Some None | Some mode \<Rightarrow> map_option Some (kad_mode_of mode));
     Some (\<lparr>pc_datadir = datadir, pc_identity_key = identity_key,
       pc_boot_peers = (case boot_peers of None \<Rightarrow> [] | Some ps \<Rightarrow> ps),
       pc_addr = addr, pc_port = port, pc_search_port = get_flag m ''portsearch'',
       pc_kad_mode_override = mode\<rparr>, s') }"

definition build_consensus_cfg ::
  "(vertex \<Rightarrow> hash) \<Rightarrow> machine \<Rightarrow> string \<Rightarrow> arg_matches \<Rightarrow> consensus_config option" where
  "build_consensus_cfg H M name m = do {
     dir \<leftarrow> app_data_dir M name m;
     Some (default_consensus_config
       \<lparr>cc_datadir := path_join dir ''consensus/'',
        cc_dag := default_dag_config\<lparr>cfg_genesis := H genesis_vertex\<rparr>\<rparr>) }"

record rpc_config =
  rc_bind_addr :: u32
  rc_bind_port :: u16
  rc_search_port :: bool

definition build_rpc_cfg :: "arg_matches \<Rightarrow> rpc_config option" where
  "build_rpc_cfg m = do {
     addr \<leftarrow> required_arg as_addr m ''rpcbind'';
     port \<leftarrow> required_arg as_port m ''rpcport'';
     Some \<lparr>rc_bind_addr = addr, rc_bind_port = port, rc_search_port = get_flag m ''rpcportsearch''\<rparr> }"

section \<open>The RPC server\<close>

record rpc_task =
  rt_config :: rpc_config
  rt_bind_addr :: u32
  rt_bind_port :: u16
  rt_consensus_api :: consensus_api
  rt_p2p_api :: p2p_api

definition rpc_task_new :: "rpc_config \<Rightarrow> consensus_api \<Rightarrow> p2p_api \<Rightarrow> rpc_task" where
  "rpc_task_new cfg capi papi =
     \<lparr>rt_config = cfg, rt_bind_addr = rc_bind_addr cfg, rt_bind_port = rc_bind_port cfg,
      rt_consensus_api = capi, rt_p2p_api = papi\<rparr>"

text \<open>\<open>Display\<close> of an IPv4 address.\<close>

definition ipv4_display :: "u32 \<Rightarrow> string" where
  "ipv4_display a =
     (let byte = (\<lambda>k. digits (unat (drop_bit (8 * k) a) mod 256))
      in byte 3 @ ''.'' @ byte 2 @ ''.'' @ byte 1 @ ''.'' @ byte 0)"

definition rpc_address :: "rpc_task \<Rightarrow> string" where
  "rpc_address t = ipv4_display (rt_bind_addr t) @ '':'' @ digits (unat (rt_bind_port t))"

text \<open>
  The server is built on the first free address (\<open>build\<close> is the builder's answer); the
  result is the task with the port bound, or none where it gives up.
\<close>

definition rpc_bind :: "(string \<Rightarrow> bool) \<Rightarrow> rpc_task \<Rightarrow> rpc_task option" where
  "rpc_bind build t = do {
     port \<leftarrow> search_port_from (\<lambda>port. build (rpc_address (t\<lparr>rt_bind_port := port\<rparr>)))
       (rc_search_port (rt_config t)) (rt_bind_port t);
     Some (t\<lparr>rt_bind_port := port\<rparr>) }"

section \<open>The sequencer\<close>

record sequencer_config =
  sc_rpc_url :: string
  sc_delay_millis :: u64

definition build_cfg :: "arg_matches \<Rightarrow> sequencer_config option" where
  "build_cfg m = do {
     rpchost \<leftarrow> required_arg as_string m ''rpchost'';
     delay \<leftarrow> required_arg as_millis m ''delay'';
     Some \<lparr>sc_rpc_url = rpchost, sc_delay_millis = delay\<rparr> }"

text \<open>
  The ticks of the timer, each with its time and the node's answers. The result is the error that
  ended the loop, if any, and the vertices submitted.
\<close>

fun sequencer_loop ::
  "(int \<times> ('e + vertex_meta list) \<times> (vertex \<Rightarrow> 'e + hash list)) list \<Rightarrow> ('e option \<times> vertex list) option" where
  "sequencer_loop [] = Some (None, [])"
| "sequencer_loop ((now, frontier_meta, submit) # ticks) = do {
     r \<leftarrow> sequencer_tick now frontier_meta submit;
     (case r of
        Inl e \<Rightarrow> Some (Some e, [])
      | Inr vx \<Rightarrow> do { (e, vxs) \<leftarrow> sequencer_loop ticks; Some (e, vx # vxs) }) }"

text \<open>\<open>interval\<close> (the crate \<open>tokio\<close>) is documented to panic on a period of zero.\<close>

definition sequencer_run ::
  "(string \<Rightarrow> 'e option) \<Rightarrow> sequencer_config \<Rightarrow>
     (int \<times> ('e + vertex_meta list) \<times> (vertex \<Rightarrow> 'e + hash list)) list \<Rightarrow> ('e option \<times> vertex list) option" where
  "sequencer_run connect cfg ticks =
     (case connect (sc_rpc_url cfg) of
        Some e \<Rightarrow> Some (Some e, [])
      | None \<Rightarrow> if sc_delay_millis cfg = 0 then None else sequencer_loop ticks)"

text \<open>\<open>setup_logger\<close> reads the level; the program is the run, whose error is only logged.\<close>

definition logger_level :: "arg_matches \<Rightarrow> string option" where
  "logger_level m = required_arg as_string m ''loglevel''"

definition taurseq_main ::
  "(string \<Rightarrow> 'e option) \<Rightarrow> arg_matches \<Rightarrow>
     (int \<times> ('e + vertex_meta list) \<times> (vertex \<Rightarrow> 'e + hash list)) list \<Rightarrow> ('e option \<times> vertex list) option" where
  "taurseq_main connect m ticks = do {
     _ \<leftarrow> logger_level m;
     cfg \<leftarrow> build_cfg m;
     sequencer_run connect cfg ticks }"

section \<open>The daemon\<close>

record handler =
  hd_p2p_api :: p2p_api
  hd_consensus_api :: consensus_api

definition handler_new :: "p2p_api \<Rightarrow> consensus_api \<Rightarrow> handler" where
  "handler_new papi capi = \<lparr>hd_p2p_api = papi, hd_consensus_api = capi\<rparr>"

text \<open>\<open>consensus::start\<close>; the channels of a task are numbered by whoever starts it.\<close>

definition consensus_start ::
  "env \<Rightarrow> nat \<Rightarrow> nat \<Rightarrow> consensus_config \<Rightarrow> (consensus_error + consensus_task \<times> consensus_api) option" where
  "consensus_start E action_ch event_ch cfg = do {
     r \<leftarrow> consensus_task_new E cfg;
     Some (case r of Inl e \<Rightarrow> Inl e | Inr t \<Rightarrow> Inr (t, consensus_api_new action_ch event_ch)) }"

record 'l daemon =
  dm_logged_dir :: string
  dm_p2p :: p2p_task
  dm_swarm :: "'l swarm"
  dm_consensus :: consensus_task
  dm_rpc :: rpc_task
  dm_handler :: handler

text \<open>
  \<open>main\<close> up to its loop. Each of the three calls for the data directory draws its own name. The
  first is only for the log, whose line wants the path as a string: one that is not UTF-8 is a crash, at
  every level of the log, since each includes the line.
\<close>

definition daemon_start ::
  "'l libp2p \<Rightarrow> bool \<Rightarrow> env \<Rightarrow> machine \<Rightarrow> (nat \<Rightarrow> string) \<Rightarrow> 's file_calls \<Rightarrow> key_codec \<Rightarrow> keypair \<Rightarrow>
     arg_matches \<Rightarrow> 's \<Rightarrow> ('l daemon \<times> 's) option" where
  "daemon_start L tcp_ok E M name F K newkey m s = do {
     _ \<leftarrow> logger_level m;
     logged_path \<leftarrow> app_data_dir M (name 0) m;
     logged \<leftarrow> path_to_str logged_path;
     (pcfg, s') \<leftarrow> build_p2p_cfg M (name 1) F K newkey m s;
     (p2p, swarm, papi) \<leftarrow> p2p_start L tcp_ok 0 1 pcfg;
     ccfg \<leftarrow> build_consensus_cfg (env_hash E) M (name 2) m;
     r \<leftarrow> consensus_start E 2 3 ccfg;
     (t, capi) \<leftarrow> (case r of Inl _ \<Rightarrow> None | Inr x \<Rightarrow> Some x);
     rcfg \<leftarrow> build_rpc_cfg m;
     Some (\<lparr>dm_logged_dir = logged, dm_p2p = p2p, dm_swarm = swarm, dm_consensus = t,
       dm_rpc = rpc_task_new rcfg capi papi, dm_handler = handler_new papi capi\<rparr>, s') }"

text \<open>The loop ends, and with it the daemon, on the first error of the consensus events.\<close>

datatype event_result = EventOk | EventErr

fun daemon_running :: "event_result list \<Rightarrow> bool" where
  "daemon_running [] = True"
| "daemon_running (EventOk # events) = daemon_running events"
| "daemon_running (EventErr # events) = False"

end
