(* ===== verification/Daemon_Props.thy ===== *)
theory Daemon_Props
  imports Daemon Task_Props
begin

text \<open>
  What the two programs promise: a command line the parser admits does not crash them, the daemon
  keeps its identity from one start to the next and starts with an accepted genesis vertex, and the
  sequencer ends with the first failure.
\<close>

section \<open>Files\<close>

text \<open>
  What the identity key rests on: a file that can be read after it was written holds what was written
  (it may also not be readable at all), and creating directories does not touch files.
\<close>

locale file_system =
  fixes F :: "'s file_calls"
  assumes read_written:
      "fc_write F p bytes s = Some s' \<Longrightarrow> fc_read F p s' = Some bytes \<or> fc_read F p s' = None"
    and read_created: "fc_read F p (fc_create_dir_all F dir s) = fc_read F p s"
begin

lemma key_found:
  "fc_read F (path_join dir ''identity_key'') s = Some bytes \<Longrightarrow>
    get_peer_identity_key F K newkey dir s =
      (case kc_decode K bytes of None \<Rightarrow> None | Some key \<Rightarrow> Some (key, fc_create_dir_all F dir s))"
  by (simp add: get_peer_identity_key_def Let_def read_created split: option.splits)

lemma key_unreadable:
  "fc_read F (path_join dir ''identity_key'') s = None \<Longrightarrow>
    get_peer_identity_key F K newkey dir s = Some (key, s') \<longleftrightarrow>
      key = newkey \<and> (\<exists>bytes. kc_encode K newkey = Some bytes \<and>
        fc_write F (path_join dir ''identity_key'') bytes (fc_create_dir_all F dir s) = Some s')"
  by (auto simp: get_peer_identity_key_def Let_def read_created bind_eq_Some_conv)

text \<open>A start leaves a key file that, if it can be read, gives its key.\<close>

lemma key_kept:
  assumes codec: "\<And>k bytes. kc_encode K k = Some bytes \<Longrightarrow> kc_decode K bytes = Some k"
    and start: "get_peer_identity_key F K newkey dir s = Some (key, s')"
    and readable: "fc_read F (path_join dir ''identity_key'') s' \<noteq> None"
  shows "get_peer_identity_key F K newkey' dir s' = Some (key, fc_create_dir_all F dir s')"
proof (cases "fc_read F (path_join dir ''identity_key'') s")
  case None
  then obtain bytes where bytes: "key = newkey" "kc_encode K newkey = Some bytes"
    "fc_write F (path_join dir ''identity_key'') bytes (fc_create_dir_all F dir s) = Some s'"
    using start key_unreadable by blast
  then have "fc_read F (path_join dir ''identity_key'') s' = Some bytes"
    using read_written[OF bytes(3)] readable by blast
  then show ?thesis using codec[OF bytes(2)] bytes(1) by (simp add: key_found)
next
  case (Some bytes)
  then have "kc_decode K bytes = Some key" "s' = fc_create_dir_all F dir s"
    using start by (auto simp: key_found split: option.splits)
  then show ?thesis using Some by (simp add: key_found read_created)
qed

end

text \<open>
  A disk: its directories, its files, the directories nothing may be created in, and the files that
  are there but may not be read. A path is a string; a trailing slash is not part of the name of a
  directory.
\<close>

record disk =
  dk_dirs :: "string fset"
  dk_files :: "(string, u8 list) fmap"
  dk_protected :: "string fset"
  dk_unreadable :: "string fset"

definition parent_dir :: "string \<Rightarrow> string" where
  "parent_dir p = rev (tl (dropWhile (\<lambda>c. c \<noteq> CHR ''/'') (rev p)))"

definition dir_prefixes :: "string \<Rightarrow> string list" where
  "dir_prefixes p = map (\<lambda>i. take i p) (filter (\<lambda>i. i = length p \<or> p ! i = CHR ''/'') [0..<Suc (length p)])"

definition disk_create_dir_all :: "string \<Rightarrow> disk \<Rightarrow> disk" where
  "disk_create_dir_all dir k =
     (if list_ex (\<lambda>p. p |\<in>| dk_protected k \<or> p |\<in>| fmdom (dk_files k)) (dir_prefixes dir) then k
      else k\<lparr>dk_dirs := dk_dirs k |\<union>| fset_of_list (dir_prefixes dir)\<rparr>)"

definition disk_write :: "string \<Rightarrow> u8 list \<Rightarrow> disk \<Rightarrow> disk option" where
  "disk_write p bytes k =
     (if parent_dir p |\<in>| dk_dirs k \<and> parent_dir p |\<notin>| dk_protected k \<and> p |\<notin>| dk_dirs k
      then Some (k\<lparr>dk_files := fmupd p bytes (dk_files k)\<rparr>) else None)"

definition disk_calls :: "disk file_calls" where
  "disk_calls =
     \<lparr>fc_create_dir_all = disk_create_dir_all,
      fc_read = (\<lambda>p k. if p |\<in>| dk_unreadable k then None else fmlookup (dk_files k) p),
      fc_write = disk_write\<rparr>"

interpretation disk: file_system disk_calls
  by unfold_locales (auto simp: disk_calls_def disk_write_def disk_create_dir_all_def split: if_splits)

text \<open>
  C36: The identity of the daemon over its starts, for any file system whose files read back as
  written where they can be read. A start that can read the key file runs under the key in it and
  writes nothing; one that cannot, for whatever reason and whether or not a key is there, generates a
  key, writes it over what is there and runs under it. So the next start runs under the same key,
  whatever key it would generate, if it can read the file; and if it cannot, the identity is lost: it
  runs, if at all, under the key it generates, and that key has replaced the old one.
\<close>

theorem identity_key_kept:
  assumes "\<forall>k bytes. kc_encode K k = Some bytes \<longrightarrow> kc_decode K bytes = Some k"
    and "\<forall>p bytes s s'. fc_write F p bytes s = Some s' \<longrightarrow> fc_read F p s' = Some bytes \<or> fc_read F p s' = None"
    and "\<forall>p d s. fc_read F p (fc_create_dir_all F d s) = fc_read F p s"
    and "get_peer_identity_key F K newkey dir s = Some (key, s')"
  shows "(case fc_read F (path_join dir ''identity_key'') s of
       Some bytes \<Rightarrow> kc_decode K bytes = Some key \<and> s' = fc_create_dir_all F dir s
     | None \<Rightarrow> key = newkey \<and> (\<exists>bytes. kc_encode K newkey = Some bytes \<and>
         fc_write F (path_join dir ''identity_key'') bytes (fc_create_dir_all F dir s) = Some s')) \<and>
    (if fc_read F (path_join dir ''identity_key'') s' \<noteq> None
     then get_peer_identity_key F K newkey' dir s' = Some (key, fc_create_dir_all F dir s')
     else \<forall>key' s''. get_peer_identity_key F K newkey' dir s' = Some (key', s'') \<longrightarrow>
       key' = newkey' \<and> (\<exists>bytes. kc_encode K newkey' = Some bytes \<and>
         fc_write F (path_join dir ''identity_key'') bytes (fc_create_dir_all F dir s') = Some s''))"
proof -
  have fs: "file_system F" using assms(2,3) by (auto simp: file_system_def)
  have codec: "kc_encode K k = Some bytes \<Longrightarrow> kc_decode K bytes = Some k" for k bytes using assms(1) by blast
  note found = file_system.key_found[OF fs] and unreadable = file_system.key_unreadable[OF fs]
  have first: "case fc_read F (path_join dir ''identity_key'') s of
       Some bytes \<Rightarrow> kc_decode K bytes = Some key \<and> s' = fc_create_dir_all F dir s
     | None \<Rightarrow> key = newkey \<and> (\<exists>bytes. kc_encode K newkey = Some bytes \<and>
         fc_write F (path_join dir ''identity_key'') bytes (fc_create_dir_all F dir s) = Some s')"
    using assms(4) unreadable[of dir s K newkey key s'] found[of dir s _ K newkey]
    by (auto split: option.splits)
  show ?thesis
    using first file_system.key_kept[OF fs codec assms(4), of newkey'] unreadable[of dir s' K newkey'] by auto
qed

definition byte_codec :: key_codec where
  "byte_codec = \<lparr>kc_encode = (\<lambda>k. if k < 256 then Some [of_nat k] else None),
     kc_decode = (\<lambda>bs. case bs of [b] \<Rightarrow> Some (unat b) | _ \<Rightarrow> None)\<rparr>"

lemma byte_codec_inverse: "kc_encode byte_codec k = Some bytes \<Longrightarrow> kc_decode byte_codec bytes = Some k"
  by (auto simp: byte_codec_def unat_of_nat split: if_splits)

definition fresh_disk :: disk where
  "fresh_disk = \<lparr>dk_dirs = {|'''', ''/d''|}, dk_files = fmempty, dk_protected = {||}, dk_unreadable = {||}\<rparr>"

lemma fresh_disk_key:
  "\<exists>s'. get_peer_identity_key disk_calls byte_codec 5 ''/d/taurus/p2p/'' fresh_disk = Some (5, s') \<and>
     fc_read disk_calls ''/d/taurus/p2p/identity_key'' s' \<noteq> None"
  by (simp add: Let_def get_peer_identity_key_def disk_calls_def byte_codec_def fresh_disk_def disk_write_def
      disk_create_dir_all_def dir_prefixes_def parent_dir_def path_join_def upt_rec nth_Cons')

text \<open>A disk whose key file may be written but not read.\<close>

definition locked_disk :: disk where
  "locked_disk = \<lparr>dk_dirs = {|'''', ''/d'', ''/d/p2p''|},
     dk_files = fmap_of_list [(''/d/p2p/identity_key'', [7])],
     dk_protected = {||}, dk_unreadable = {|''/d/p2p/identity_key''|}\<rparr>"

lemma locked_disk_key:
  "\<exists>s'. get_peer_identity_key disk_calls byte_codec 5 ''/d/p2p/'' locked_disk = Some (5, s') \<and>
     fmlookup (dk_files s') ''/d/p2p/identity_key'' = Some [5] \<and>
     fc_read disk_calls ''/d/p2p/identity_key'' s' = None"
  by (simp add: Let_def get_peer_identity_key_def disk_calls_def byte_codec_def locked_disk_def disk_write_def
      disk_create_dir_all_def dir_prefixes_def parent_dir_def path_join_def upt_rec nth_Cons'
      fmlookup_of_list)

text \<open>On the fresh disk the key stays; on the locked one each start replaces it.\<close>

theorem identity_key_kept_witness:
  "(\<exists>s' s''. get_peer_identity_key disk_calls byte_codec 5 ''/d/taurus/p2p/'' fresh_disk = Some (5, s') \<and>
    get_peer_identity_key disk_calls byte_codec 6 ''/d/taurus/p2p/'' s' = Some (5, s'')) \<and>
   (\<exists>s'. get_peer_identity_key disk_calls byte_codec 5 ''/d/p2p/'' locked_disk = Some (5, s') \<and>
    (\<forall>key s''. get_peer_identity_key disk_calls byte_codec 6 ''/d/p2p/'' s' = Some (key, s'') \<longrightarrow> key = 6))"
proof -
  have laws: "\<forall>k bytes. kc_encode byte_codec k = Some bytes \<longrightarrow> kc_decode byte_codec bytes = Some k"
    "\<forall>p bytes s s'. fc_write disk_calls p bytes s = Some s' \<longrightarrow>
      fc_read disk_calls p s' = Some bytes \<or> fc_read disk_calls p s' = None"
    "\<forall>p d s. fc_read disk_calls p (fc_create_dir_all disk_calls d s) = fc_read disk_calls p s"
    using byte_codec_inverse disk.read_written disk.read_created by blast+
  obtain s' where s': "get_peer_identity_key disk_calls byte_codec 5 ''/d/taurus/p2p/'' fresh_disk = Some (5, s')"
    "fc_read disk_calls ''/d/taurus/p2p/identity_key'' s' \<noteq> None"
    using fresh_disk_key by blast
  obtain t' where t': "get_peer_identity_key disk_calls byte_codec 5 ''/d/p2p/'' locked_disk = Some (5, t')"
    "fc_read disk_calls ''/d/p2p/identity_key'' t' = None"
    using locked_disk_key by blast
  have "get_peer_identity_key disk_calls byte_codec 6 ''/d/taurus/p2p/'' s' =
      Some (5, fc_create_dir_all disk_calls ''/d/taurus/p2p/'' s')"
    using identity_key_kept[where newkey' = 6, OF laws s'(1)] s'(2) by (simp add: path_join_def)
  moreover have "key = 6" if "get_peer_identity_key disk_calls byte_codec 6 ''/d/p2p/'' t' = Some (key, s'')" for key s''
    using identity_key_kept[where newkey' = 6, OF laws t'(1)] t'(2) that by (simp add: path_join_def)
  ultimately show ?thesis using s'(1) t'(1) by blast
qed

section \<open>Command lines\<close>

text \<open>
  What the parser documents of its result: an argument that is required or has a default has a value,
  values are of the kind asked for, and of two arguments in conflict only one is given.
\<close>

fun value_fits :: "arg_kind \<Rightarrow> arg_value \<Rightarrow> bool" where
  "value_fits KindString v \<longleftrightarrow> as_string v \<noteq> None"
| "value_fits KindAddr v \<longleftrightarrow> as_addr v \<noteq> None"
| "value_fits KindMultiaddr v \<longleftrightarrow> as_multiaddr v \<noteq> None"
| "value_fits KindPath v \<longleftrightarrow> as_path v \<noteq> None"
| "value_fits KindPort v \<longleftrightarrow> as_port v \<noteq> None"
| "value_fits KindMillis v \<longleftrightarrow> as_millis v \<noteq> None"
| "value_fits (KindOneOf choices) v \<longleftrightarrow> (case as_string v of None \<Rightarrow> False | Some s \<Rightarrow> s \<in> set choices)"
| "value_fits KindFlag v \<longleftrightarrow> False"

definition given :: "arg_matches \<Rightarrow> string \<Rightarrow> bool" where
  "given m name \<longleftrightarrow> arg_values m name \<noteq> [] \<or> get_flag m name"

definition conforms :: "arg_spec list \<Rightarrow> arg_matches \<Rightarrow> bool" where
  "conforms specs m \<longleftrightarrow>
     list_all (\<lambda>a.
       list_all (value_fits (as_kind a)) (arg_values m (as_name a)) \<and>
       (as_required a \<or> as_default a \<noteq> None \<longrightarrow> arg_values m (as_name a) \<noteq> []) \<and>
       (given m (as_name a) \<longrightarrow> list_all (\<lambda>c. \<not> given m c) (as_conflicts a))) specs"

lemma get_one_fits:
  assumes "list_all (\<lambda>v. read v \<noteq> None) (arg_values m name)"
  shows "\<exists>r. get_one read m name = Some r \<and> (r = None \<longleftrightarrow> arg_values m name = [])"
  using assms by (auto simp: get_one_def split: list.splits)

lemma required_fits:
  assumes "list_all (\<lambda>v. read v \<noteq> None) (arg_values m name)" and "arg_values m name \<noteq> []"
  shows "\<exists>x. required_arg read m name = Some x"
  using get_one_fits[OF assms(1)] assms(2) by (auto simp: required_arg_def)

lemma get_many_fits:
  assumes "list_all (\<lambda>v. read v \<noteq> None) (arg_values m name)"
  shows "\<exists>r. get_many read m name = Some r"
proof -
  have "\<exists>xs. run_map read (arg_values m name) = Some xs"
    by (rule run_map_exists) (use assms in \<open>auto simp: list_all_iff\<close>)
  then show ?thesis by (auto simp: get_many_def split: list.splits)
qed

lemma choice_fits:
  assumes "list_all (value_fits (KindOneOf choices)) (arg_values m name)"
  shows "\<exists>r. get_one as_string m name = Some r \<and> (r = None \<longleftrightarrow> arg_values m name = []) \<and>
    (\<forall>s. r = Some s \<longrightarrow> s \<in> set choices)"
  using assms by (auto simp: get_one_def split: list.splits option.splits)

lemma fits_reads:
  "list_all (value_fits KindAddr) vs \<longleftrightarrow> list_all (\<lambda>v. as_addr v \<noteq> None) vs"
  "list_all (value_fits KindMultiaddr) vs \<longleftrightarrow> list_all (\<lambda>v. as_multiaddr v \<noteq> None) vs"
  "list_all (value_fits KindPath) vs \<longleftrightarrow> list_all (\<lambda>v. as_path v \<noteq> None) vs"
  "list_all (value_fits KindPort) vs \<longleftrightarrow> list_all (\<lambda>v. as_port v \<noteq> None) vs"
  "list_all (value_fits KindString) vs \<longleftrightarrow> list_all (\<lambda>v. as_string v \<noteq> None) vs"
  "list_all (value_fits KindMillis) vs \<longleftrightarrow> list_all (\<lambda>v. as_millis v \<noteq> None) vs"
  by (simp_all add: list_all_iff)

text \<open>What the specification of the daemon's command line says of each argument.\<close>

lemma taurusd_matches:
  assumes "conforms taurusd_args m"
  shows "\<exists>x. required_arg as_addr m ''bind'' = Some x" "\<exists>x. required_arg as_port m ''port'' = Some x"
    "\<exists>x. required_arg as_addr m ''rpcbind'' = Some x" "\<exists>x. required_arg as_port m ''rpcport'' = Some x"
    "\<exists>r. get_many as_multiaddr m ''bootpeer'' = Some r"
    "\<exists>r. get_one as_path m ''datadir'' = Some r \<and> (r = None \<longleftrightarrow> arg_values m ''datadir'' = [])"
    "\<exists>r. get_one as_string m ''dhtmode'' = Some r \<and> (\<forall>s. r = Some s \<longrightarrow> s \<in> {''client'', ''server''})"
    "\<exists>s. logger_level m = Some s \<and> s \<in> {''info'', ''debug'', ''trace''}"
proof -
  note c = assms[unfolded conforms_def taurusd_args_def arg_def, simplified, unfolded fits_reads]
  show "\<exists>x. required_arg as_addr m ''bind'' = Some x" "\<exists>x. required_arg as_port m ''port'' = Some x"
    "\<exists>x. required_arg as_addr m ''rpcbind'' = Some x" "\<exists>x. required_arg as_port m ''rpcport'' = Some x"
    by (rule required_fits; use c in simp)+
  show "\<exists>r. get_many as_multiaddr m ''bootpeer'' = Some r"
    by (rule get_many_fits) (use c in simp)
  show "\<exists>r. get_one as_path m ''datadir'' = Some r \<and> (r = None \<longleftrightarrow> arg_values m ''datadir'' = [])"
    by (rule get_one_fits) (use c in simp)
  show "\<exists>r. get_one as_string m ''dhtmode'' = Some r \<and> (\<forall>s. r = Some s \<longrightarrow> s \<in> {''client'', ''server''})"
    using choice_fits[of "[''client'', ''server'']" m "''dhtmode''"] c by auto
  show "\<exists>s. logger_level m = Some s \<and> s \<in> {''info'', ''debug'', ''trace''}"
    using choice_fits[of "[''info'', ''debug'', ''trace'']" m "''loglevel''"] c
    by (auto simp: logger_level_def required_arg_def)
qed

lemma app_data_dir_none:
  assumes "conforms taurusd_args m"
  shows "app_data_dir M name m = None \<longleftrightarrow> arg_values m ''datadir'' = [] \<and> mc_data_dir M = None"
proof -
  obtain r where "get_one as_path m ''datadir'' = Some r" "r = None \<longleftrightarrow> arg_values m ''datadir'' = []"
    using taurusd_matches(6)[OF assms] by blast
  then show ?thesis by (cases r) (auto simp: app_data_dir_def bind_eq_None_conv)
qed

lemma build_p2p_cfg_steps:
  assumes "conforms taurusd_args m"
  shows "\<exists>boot addr port mode. build_p2p_cfg M name F K newkey m s = do {
      dir \<leftarrow> app_data_dir M name m;
      (key, s') \<leftarrow> get_peer_identity_key F K newkey (path_join dir ''p2p/'') s;
      Some (\<lparr>pc_datadir = path_join dir ''p2p/'', pc_identity_key = key, pc_boot_peers = boot,
        pc_addr = addr, pc_port = port, pc_search_port = get_flag m ''portsearch'',
        pc_kad_mode_override = mode\<rparr>, s') }"
proof -
  obtain boot addr port dht where
    args: "get_many as_multiaddr m ''bootpeer'' = Some boot" "required_arg as_addr m ''bind'' = Some addr"
    "required_arg as_port m ''port'' = Some port" "get_one as_string m ''dhtmode'' = Some dht"
    and dht: "\<forall>s. dht = Some s \<longrightarrow> s \<in> {''client'', ''server''}"
    using taurusd_matches(1,2,5,7)[OF assms] by blast
  obtain mode where "(case dht of None \<Rightarrow> Some None | Some s \<Rightarrow> map_option Some (kad_mode_of s)) = Some mode"
    using dht by (cases dht) (auto simp: kad_mode_of_def)
  with args show ?thesis
    by (intro exI[of _ "case boot of None \<Rightarrow> [] | Some ps \<Rightarrow> ps"] exI[of _ addr] exI[of _ port] exI[of _ mode])
      (simp add: build_p2p_cfg_def Let_def)
qed

text \<open>
  A command line the parser admits never crashes the construction of the configurations: the
  level of the log and the addresses of the RPC server are there, the mode of the routing table is
  one of the two, and the configuration of the network fails only where there is no data directory
  or its key file cannot be used.
\<close>

lemma command_line_read:
  assumes "conforms taurusd_args m"
  shows "(\<exists>level. logger_level m = Some level \<and> level \<in> {''info'', ''debug'', ''trace''}) \<and>
    (\<exists>cfg. build_rpc_cfg m = Some cfg) \<and>
    (build_consensus_cfg H M name m = None \<longleftrightarrow> arg_values m ''datadir'' = [] \<and> mc_data_dir M = None) \<and>
    (build_p2p_cfg M name F K newkey m s = None \<longleftrightarrow>
       (case app_data_dir M name m of
          None \<Rightarrow> True
        | Some dir \<Rightarrow> get_peer_identity_key F K newkey (path_join dir ''p2p/'') s = None))"
proof -
  obtain addr port where rpc: "required_arg as_addr m ''rpcbind'' = Some addr"
    "required_arg as_port m ''rpcport'' = Some port" using taurusd_matches(3,4)[OF assms] by blast
  obtain boot a p mode where p2p: "build_p2p_cfg M name F K newkey m s = do {
      dir \<leftarrow> app_data_dir M name m;
      (key, s') \<leftarrow> get_peer_identity_key F K newkey (path_join dir ''p2p/'') s;
      Some (\<lparr>pc_datadir = path_join dir ''p2p/'', pc_identity_key = key, pc_boot_peers = boot,
        pc_addr = a, pc_port = p, pc_search_port = get_flag m ''portsearch'',
        pc_kad_mode_override = mode\<rparr>, s') }"
    using build_p2p_cfg_steps[OF assms, of M name F K newkey s] by (elim exE) (rule that)
  have "build_p2p_cfg M name F K newkey m s = None \<longleftrightarrow>
       (case app_data_dir M name m of
          None \<Rightarrow> True
        | Some dir \<Rightarrow> get_peer_identity_key F K newkey (path_join dir ''p2p/'') s = None)"
    unfolding p2p by (auto split: option.splits bind_splits)
  moreover have "\<exists>cfg. build_rpc_cfg m = Some cfg" using rpc by (simp add: build_rpc_cfg_def)
  moreover have "build_consensus_cfg H M name m = None \<longleftrightarrow> app_data_dir M name m = None"
    by (simp add: build_consensus_cfg_def bind_eq_None_conv)
  ultimately show ?thesis using taurusd_matches(8)[OF assms] app_data_dir_none[OF assms, of M name] by simp
qed

definition default_matches :: arg_matches where
  "default_matches =
     \<lparr>am_values = fmap_of_list [(''bind'', [ArgAddr 0]), (''port'', [ArgPort 9047]),
        (''rpcbind'', [ArgAddr 2130706433]), (''rpcport'', [ArgPort 9048]), (''loglevel'', [ArgString ''info''])],
      am_flags = {||}\<rparr>"

lemma default_matches_conform: "conforms taurusd_args default_matches"
  by (simp add: conforms_def taurusd_args_def arg_def default_matches_def given_def arg_values_def get_flag_def
      fmlookup_of_list)

definition home_machine :: machine where
  "home_machine = \<lparr>mc_data_dir = Some ''/d'', mc_temp_dir = ''/tmp''\<rparr>"

lemma home_data_dir: "app_data_dir home_machine name default_matches = Some ''/d/taurus/''"
  by (simp add: app_data_dir_def home_machine_def default_matches_def get_one_def arg_values_def get_flag_def
      path_join_def fmlookup_of_list)

section \<open>The start of the daemon\<close>

lemma consensus_starts:
  assumes "env_ok E" and "build_consensus_cfg (env_hash E) M name m = Some cfg"
  obtains t where "consensus_start E a e cfg = Some (Inr (t, consensus_api_new a e))"
    "task_reach (env_hash E) cfg t" "ct_config t = cfg"
    "query E (ct_dag t) (env_hash E genesis_vertex) = Some (Inr (True, True))"
proof -
  let ?g = "env_hash E genesis_vertex"
  have cfg: "cc_dag cfg = default_dag_config\<lparr>cfg_genesis := ?g\<rparr>" "cc_query_count cfg = DFLT_QUERY_COUNT"
    "cc_quorum_size cfg = DFLT_QUORUM_COUNT"
    using assms(2) by (auto simp: build_consensus_cfg_def default_consensus_config_def bind_eq_Some_conv)
  have root: "vx_parents genesis_vertex = []" "vx_height genesis_vertex = 0" by (simp_all add: genesis_vertex_def)
  have thresholds: "\<not> cfg_thresh_accepted (cc_dag cfg) < cfg_thresh_safe_early_commit (cc_dag cfg)"
    by (simp add: cfg(1) default_dag_config_def DFLT_ACCEPTANCE_THRESHOLD_def
        DFLT_SAFE_EARLY_COMMIT_THRESHOLD_def)
  obtain d where d: "dag_new E (cc_dag cfg) [genesis_vertex] = Some (Inr d)" "dag_inv (env_hash E) d"
    "dag_graph d = fmupd ?g genesis_vertex fmempty" "decision_of d (unity ?g) = Some True"
    using dag_new_genesis[OF assms(1) refl root, of "cc_dag cfg"] thresholds by auto
  let ?t = "\<lparr>ct_config = cfg, ct_dag = d, ct_validators = [], ct_unread = 0\<rparr>"
  have new: "consensus_task_new E cfg = Some (Inr ?t)"
    by (simp add: consensus_task_new_def consensus_config_check_def cfg(2,3) DFLT_QUERY_COUNT_def
        DFLT_QUORUM_COUNT_def d(1))
  have "query E d ?g = Some (Inr (True, True))"
    using query_walk[OF d(2) assms(1), of ?g] d(3,4) by (auto simp: query_spec_def)
  then show thesis
    using new task_start[OF assms(1) refl new]
    by (intro that[of ?t]) (simp_all add: consensus_start_def)
qed

lemma daemon_reaches_loop:
  assumes "conforms taurusd_args m" and "env_ok E"
    and "mc_data_dir M \<noteq> None \<or> arg_values m ''datadir'' \<noteq> []"
    and "\<And>dir. app_data_dir M (name 1) m = Some dir \<Longrightarrow>
      get_peer_identity_key F K newkey (path_join dir ''p2p/'') s = Some (key, s')"
    and "\<And>cfg. pc_identity_key cfg = key \<Longrightarrow> swarm_new L tcp_ok cfg \<noteq> None"
  shows "\<exists>logged. app_data_dir M (name 0) m = Some logged \<and>
    (if \<not> is_utf8 logged then daemon_start L tcp_ok E M name F K newkey m s = None
     else \<exists>dm. daemon_start L tcp_ok E M name F K newkey m s = Some (dm, s') \<and>
       dm_logged_dir dm = logged \<and> pc_identity_key (pt_config (dm_p2p dm)) = key \<and>
       task_reach (env_hash E) (ct_config (dm_consensus dm)) (dm_consensus dm) \<and>
       query E (ct_dag (dm_consensus dm)) (env_hash E genesis_vertex) = Some (Inr (True, True)) \<and>
       hd_p2p_api (dm_handler dm) = rt_p2p_api (dm_rpc dm) \<and>
       hd_consensus_api (dm_handler dm) = rt_consensus_api (dm_rpc dm))"
proof -
  have dirs: "\<exists>dir. app_data_dir M nm m = Some dir" for nm
    using app_data_dir_none[OF assms(1), of M nm] assms(3) by auto
  obtain level logged dir where lv: "logger_level m = Some level" "app_data_dir M (name 0) m = Some logged"
    "app_data_dir M (name 1) m = Some dir"
    using taurusd_matches(8)[OF assms(1)] dirs by blast
  obtain pcfg where pcfg: "build_p2p_cfg M (name 1) F K newkey m s = Some (pcfg, s')"
    "pc_identity_key pcfg = key"
    using build_p2p_cfg_steps[OF assms(1), of M "name 1" F K newkey s] assms(4)[OF lv(3)] lv(3) by auto
  obtain sw where sw: "swarm_new L tcp_ok pcfg = Some sw" using assms(5)[OF pcfg(2)] by blast
  obtain ccfg where ccfg: "build_consensus_cfg (env_hash E) M (name 2) m = Some ccfg"
    using dirs[of "name 2"] by (auto simp: build_consensus_cfg_def)
  obtain t where t: "consensus_start E 2 3 ccfg = Some (Inr (t, consensus_api_new 2 3))"
    "task_reach (env_hash E) ccfg t" "ct_config t = ccfg"
    "query E (ct_dag t) (env_hash E genesis_vertex) = Some (Inr (True, True))"
    by (rule consensus_starts[OF assms(2) ccfg])
  obtain addr port where rpc: "required_arg as_addr m ''rpcbind'' = Some addr"
    "required_arg as_port m ''rpcport'' = Some port" using taurusd_matches(3,4)[OF assms(1)] by blast
  then show ?thesis using lv(1,2) pcfg sw ccfg t
    by (simp add: daemon_start_def path_to_str_def p2p_start_def p2p_task_new_def build_rpc_cfg_def
        rpc_task_new_def handler_new_def)
qed

text \<open>
  C35: The daemon starts, or crashes over its log: with a command line the parser admits, a data
  directory, a usable key and a network stack that can be built, \<open>main\<close> crashes if the path of the
  data directory is not UTF-8, which it wants for a line of the log, and otherwise reaches its loop. It
  then runs under that key, the consensus task is in a reachable state in which the genesis vertex is
  accepted, and the RPC server and the handler hold the handles of the two tasks.
\<close>

theorem daemon_starts:
  assumes "conforms taurusd_args m" and "env_ok E"
    and "mc_data_dir M \<noteq> None \<or> arg_values m ''datadir'' \<noteq> []"
    and "\<And>dir. app_data_dir M (name 1) m = Some dir \<Longrightarrow>
      get_peer_identity_key F K newkey (path_join dir ''p2p/'') s = Some (key, s')"
    and "\<And>cfg. pc_identity_key cfg = key \<Longrightarrow> swarm_new L tcp_ok cfg \<noteq> None"
  shows "\<exists>logged. app_data_dir M (name 0) m = Some logged \<and>
    (if \<not> is_utf8 logged then daemon_start L tcp_ok E M name F K newkey m s = None
     else \<exists>dm. daemon_start L tcp_ok E M name F K newkey m s = Some (dm, s') \<and>
       dm_logged_dir dm = logged \<and> pc_identity_key (pt_config (dm_p2p dm)) = key \<and>
       task_reach (env_hash E) (ct_config (dm_consensus dm)) (dm_consensus dm) \<and>
       query E (ct_dag (dm_consensus dm)) (env_hash E genesis_vertex) = Some (Inr (True, True)) \<and>
       hd_p2p_api (dm_handler dm) = rt_p2p_api (dm_rpc dm) \<and>
       hd_consensus_api (dm_handler dm) = rt_consensus_api (dm_rpc dm))"
  by (rule daemon_reaches_loop[OF assms])

lemma topic_lib_swarm: "swarm_new topic_lib True cfg \<noteq> None"
  by (simp add: swarm_new_def behaviour_config_new_def behaviour_new_def topic_lib_def broadcast_iter_def
      Let_def)

theorem daemon_starts_witness:
  "\<exists>dm s'. daemon_start topic_lib True test_env home_machine (\<lambda>_. ''x'') disk_calls byte_codec 5
      default_matches fresh_disk = Some (dm, s') \<and>
    pc_identity_key (pt_config (dm_p2p dm)) = 5 \<and>
    query test_env (ct_dag (dm_consensus dm)) (env_hash test_env genesis_vertex) = Some (Inr (True, True))"
proof -
  obtain s' where key: "get_peer_identity_key disk_calls byte_codec 5 ''/d/taurus/p2p/'' fresh_disk = Some (5, s')"
    using fresh_disk_key by blast
  have utf8: "is_utf8 ''/d/taurus/''" by (simp add: is_utf8_def)
  have "mc_data_dir home_machine \<noteq> None \<or> arg_values default_matches ''datadir'' \<noteq> []"
    by (simp add: home_machine_def)
  from daemon_starts[OF default_matches_conform test_env_ok this, where name = "\<lambda>_. ''x''" and F = disk_calls
      and K = byte_codec and newkey = 5 and s = fresh_disk and key = 5 and s' = s' and L = topic_lib and tcp_ok = True]
  show ?thesis using key topic_lib_swarm utf8
    by (auto simp: home_data_dir path_join_def)
qed

text \<open>
  With a directory whose name is not UTF-8, which the parser admits, the daemon does not start.
\<close>

definition latin_matches :: arg_matches where
  "latin_matches = default_matches\<lparr>am_values := fmupd ''datadir'' [ArgPath [CHR ''/'', CHR 0xE9]] (am_values default_matches)\<rparr>"

lemma latin_directory_crashes:
  "conforms taurusd_args latin_matches \<and>
    daemon_start L tcp_ok E M name F K newkey latin_matches s = None"
proof -
  have "app_data_dir M nm latin_matches = Some [CHR ''/'', CHR 0xE9]" for nm
    by (simp add: app_data_dir_def latin_matches_def get_one_def arg_values_def)
  moreover have "\<not> is_utf8 [CHR ''/'', CHR 0xE9]" by (simp add: is_utf8_def)
  moreover have "conforms taurusd_args latin_matches"
    by (simp add: conforms_def taurusd_args_def arg_def latin_matches_def default_matches_def given_def
        arg_values_def get_flag_def fmlookup_of_list)
  ultimately show ?thesis by (simp add: daemon_start_def path_to_str_def bind_eq_None_conv)
qed

text \<open>A name drawn for a temporary directory: eight letters or digits.\<close>

definition random_name :: "string \<Rightarrow> bool" where
  "random_name s \<longleftrightarrow> length s = 8 \<and> CHR ''/'' \<notin> set s"

lemma temporary_dir:
  assumes "random_name nm" and "get_flag m ''tmpdir''" and "arg_values m ''datadir'' = []"
    and "app_data_dir M nm m = Some dir"
  shows "dir = path_join (mc_temp_dir M) ''taurus/'' @ nm" and "path_join dir ''p2p/'' = dir @ ''/p2p/''"
proof -
  have ne: "nm \<noteq> []" using assms(1) by (auto simp: random_name_def)
  then have nm: "nm \<noteq> []" "hd nm \<noteq> CHR ''/''" "last nm \<noteq> CHR ''/''"
    using assms(1) hd_in_set[OF ne] last_in_set[OF ne] by (metis random_name_def)+
  have base: "path_join (mc_temp_dir M) ''taurus/'' \<noteq> []" "last (path_join (mc_temp_dir M) ''taurus/'') = CHR ''/''"
    by (simp_all add: path_join_def)
  show dir: "dir = path_join (mc_temp_dir M) ''taurus/'' @ nm"
    using assms(2-4) nm base by (auto simp: app_data_dir_def get_one_def path_join_def bind_eq_Some_conv)
  show "path_join dir ''p2p/'' = dir @ ''/p2p/''"
    using nm by (simp add: dir path_join_def)
qed

text \<open>
  C39: With a temporary data directory the daemon does not use the directory it logs: every call draws
  a name of its own, so unless two draws coincide the key and the data of the network are under
  another directory than the one reported.
\<close>

theorem temporary_directory_differs:
  assumes "get_flag m ''tmpdir''" and "arg_values m ''datadir'' = []"
    and "random_name (name 0)" and "random_name (name 1)" and "name 0 \<noteq> name 1"
    and "daemon_start L tcp_ok E M name F K newkey m s = Some (dm, s')"
  shows "pc_datadir (pt_config (dm_p2p dm)) \<noteq> path_join (dm_logged_dir dm) ''p2p/''"
proof -
  obtain logged dir where dirs: "app_data_dir M (name 0) m = Some logged" "app_data_dir M (name 1) m = Some dir"
    "dm_logged_dir dm = logged" "pc_datadir (pt_config (dm_p2p dm)) = path_join dir ''p2p/''"
    using assms(6)
    by (auto simp: daemon_start_def build_p2p_cfg_def p2p_start_def p2p_task_new_def Let_def bind_eq_Some_conv
        path_to_str_def split: if_splits)
  show ?thesis
    using temporary_dir[OF assms(3,1,2) dirs(1)] temporary_dir[OF assms(4,1,2) dirs(2)] assms(5) dirs(3,4)
    by simp
qed

definition tmpdir_matches :: arg_matches where
  "tmpdir_matches = default_matches\<lparr>am_flags := {|''tmpdir''|}\<rparr>"

definition two_names :: "nat \<Rightarrow> string" where
  "two_names k = (if k = 0 then ''aaaaaaaa'' else ''bbbbbbbb'')"

lemma tmpdir_facts:
  "conforms taurusd_args tmpdir_matches" "get_flag tmpdir_matches ''tmpdir''"
  "arg_values tmpdir_matches ''datadir'' = []"
  "app_data_dir home_machine (two_names 1) tmpdir_matches = Some ''/tmp/taurus/bbbbbbbb''"
  "app_data_dir home_machine (two_names 0) tmpdir_matches = Some ''/tmp/taurus/aaaaaaaa''"
  "random_name (two_names 0)" "random_name (two_names 1)" "two_names 0 \<noteq> two_names 1"
  by (simp_all add: conforms_def taurusd_args_def arg_def tmpdir_matches_def default_matches_def given_def
      arg_values_def get_flag_def fmlookup_of_list app_data_dir_def home_machine_def get_one_def
      path_join_def two_names_def random_name_def)

lemma tmpdir_key:
  "\<exists>s'. get_peer_identity_key disk_calls byte_codec 5 ''/tmp/taurus/bbbbbbbb/p2p/'' fresh_disk = Some (5, s')"
  by (simp add: get_peer_identity_key_def disk_calls_def byte_codec_def fresh_disk_def disk_write_def
      disk_create_dir_all_def dir_prefixes_def parent_dir_def path_join_def upt_rec nth_Cons')

theorem temporary_directory_differs_witness:
  "\<exists>dm s'. daemon_start topic_lib True test_env home_machine two_names disk_calls byte_codec 5
      tmpdir_matches fresh_disk = Some (dm, s') \<and>
    pc_datadir (pt_config (dm_p2p dm)) \<noteq> path_join (dm_logged_dir dm) ''p2p/''"
proof -
  obtain s' where key: "get_peer_identity_key disk_calls byte_codec 5 ''/tmp/taurus/bbbbbbbb/p2p/'' fresh_disk = Some (5, s')"
    using tmpdir_key by blast
  have "mc_data_dir home_machine \<noteq> None \<or> arg_values tmpdir_matches ''datadir'' \<noteq> []"
    by (simp add: home_machine_def)
  from daemon_reaches_loop[OF tmpdir_facts(1) test_env_ok this, where name = two_names and F = disk_calls
      and K = byte_codec and newkey = 5 and s = fresh_disk and key = 5 and s' = s' and L = topic_lib and tcp_ok = True]
  obtain dm where dm: "daemon_start topic_lib True test_env home_machine two_names disk_calls byte_codec 5
      tmpdir_matches fresh_disk = Some (dm, s')"
    using key topic_lib_swarm by (auto simp: tmpdir_facts(5) tmpdir_facts(4)[unfolded One_nat_def] path_join_def is_utf8_def)
  from temporary_directory_differs[OF tmpdir_facts(2,3,6,7,8) dm] dm show ?thesis by blast
qed

section \<open>The sequencer\<close>

text \<open>A tick that submits a vertex.\<close>

definition tick_done :: "int \<times> ('e + vertex_meta list) \<times> (vertex \<Rightarrow> 'e + hash list) \<Rightarrow> vertex option" where
  "tick_done = (\<lambda>(now, frontier_meta, submit).
     case sequencer_tick now frontier_meta submit of Some (Inr vx) \<Rightarrow> Some vx | _ \<Rightarrow> None)"

definition tick_ok :: "int \<times> ('e + vertex_meta list) \<times> (vertex \<Rightarrow> 'e + hash list) \<Rightarrow> bool" where
  "tick_ok t \<longleftrightarrow> tick_done t \<noteq> None"

lemma sequencer_loop_result:
  "sequencer_loop ticks =
     (let vxs = map (the \<circ> tick_done) (takeWhile tick_ok ticks)
      in case dropWhile tick_ok ticks of
           [] \<Rightarrow> Some (None, vxs)
         | (now, frontier_meta, submit) # _ \<Rightarrow>
             (case sequencer_tick now frontier_meta submit of
                Some (Inl e) \<Rightarrow> Some (Some e, vxs) | _ \<Rightarrow> None))"
proof (induction ticks)
  case (Cons t ticks)
  obtain now frontier_meta submit where t: "t = (now, frontier_meta, submit)" by (cases t) auto
  show ?case
  proof (cases "tick_done t")
    case None
    then show ?thesis
      by (cases "sequencer_tick now frontier_meta submit") (auto simp: t tick_ok_def tick_done_def split: sum.splits)
  next
    case (Some vx)
    then have tick: "sequencer_tick now frontier_meta submit = Some (Inr vx)"
      by (auto simp: t tick_done_def split: option.splits sum.splits)
    have ok: "tick_ok t" using Some by (simp add: tick_ok_def)
    show ?thesis
    proof (cases "dropWhile tick_ok ticks")
      case Nil
      with Cons.IH Some ok tick show ?thesis by (simp add: t Let_def del: dropWhile_eq_Nil_conv)
    next
      case (Cons u us)
      obtain n f b where u: "u = (n, f, b)" by (cases u) auto
      show ?thesis using Cons.IH Some ok tick Cons
        by (cases "sequencer_tick n f b") (auto simp: t u Let_def split: sum.splits)
    qed
  qed
qed simp

text \<open>
  C38: The sequencer submits one vertex at each tick until the first that fails: a request that fails
  ends it with that error, an empty frontier crashes it, and so does, at once, a period of zero.
\<close>

theorem sequencer_ends_at_first_failure:
  "sequencer_run connect cfg ticks =
     (let vxs = map (the \<circ> tick_done) (takeWhile tick_ok ticks)
      in case connect (sc_rpc_url cfg) of
           Some e \<Rightarrow> Some (Some e, [])
         | None \<Rightarrow>
             if sc_delay_millis cfg = 0 then None
             else case dropWhile tick_ok ticks of
                    [] \<Rightarrow> Some (None, vxs)
                  | (now, Inl e, submit) # _ \<Rightarrow> Some (Some e, vxs)
                  | (now, Inr [], submit) # _ \<Rightarrow> None
                  | (now, Inr metas, submit) # _ \<Rightarrow>
                      (case submit (the (propose now metas)) of
                         Inl e \<Rightarrow> Some (Some e, vxs) | Inr _ \<Rightarrow> None))"
proof (cases "dropWhile tick_ok ticks")
  case Nil
  then show ?thesis
    by (simp add: sequencer_run_def sequencer_loop_result Let_def split: option.splits
        del: dropWhile_eq_Nil_conv)
next
  case (Cons u us)
  obtain now frontier_meta submit where u: "u = (now, frontier_meta, submit)" by (cases u) auto
  have "tick_done u = None" using Cons by (simp add: dropWhile_eq_Cons_conv tick_ok_def)
  then have tick: "sequencer_tick now frontier_meta submit \<noteq> Some (Inr vx)" for vx
    by (auto simp: u tick_done_def)
  note run = Cons u sequencer_run_def sequencer_loop_result Let_def
  show ?thesis
  proof (cases frontier_meta)
    case (Inl e)
    then show ?thesis by (simp add: run sequencer_tick_def split: option.splits)
  next
    case (Inr metas)
    show ?thesis
    proof (cases metas)
      case Nil
      with Inr show ?thesis by (simp add: run sequencer_tick_def propose_def split: option.splits)
    next
      case (Cons m ms)
      then obtain px where px: "propose now metas = Some px" by (simp add: propose_def)
      with Inr have st: "sequencer_tick now frontier_meta submit =
          (case submit px of Inl e \<Rightarrow> Some (Inl e) | Inr _ \<Rightarrow> Some (Inr px))"
        by (simp add: sequencer_tick_def)
      with tick obtain e where "submit px = Inl e" by (cases "submit px") auto
      with Inr Cons px st show ?thesis by (simp add: run split: option.splits)
    qed
  qed
qed

end
