(* ===== verification/Test_Support.thy ===== *)
theory Test_Support
  imports Dag_Runs
begin

text \<open>
  What the unit tests of the program use: assertions, unwrapped results, and test vertices. A test is
  a computation that crashes when an assertion fails; it passes if it returns.
\<close>

section \<open>Assertions\<close>

definition assert_that :: "bool \<Rightarrow> unit option" where
  "assert_that b = (if b then Some () else None)"

primrec unwrap :: "'e + 'a \<Rightarrow> 'a option" where
  "unwrap (Inl e) = None"
| "unwrap (Inr x) = Some x"

primrec unwrap_err :: "'e + 'a \<Rightarrow> 'e option" where
  "unwrap_err (Inl e) = Some e"
| "unwrap_err (Inr x) = None"

lemma assert_that_simps [simp, run_simps]: "assert_that True = Some ()" "assert_that False = None"
  by (simp_all add: assert_that_def)

text \<open>The result of an operation on the graph, unwrapped.\<close>

definition then_unwrap :: "('s \<times> ('e + 'a)) option \<Rightarrow> ('s \<times> 'a) option" where
  "then_unwrap m = do { (s, r) \<leftarrow> m; x \<leftarrow> unwrap r; Some (s, x) }"

section \<open>Test vertices\<close>

text \<open>
  \<open>make_rand_vertex\<close> on the random label and the current time. In the tests the labels are
  distinct bytes, which stand for the digests of the vertices; without a label the digest depends on
  the height. Each vertex is younger than those before it.
\<close>

definition make_rand_vertex ::
  "(vertex \<Rightarrow> hash) \<Rightarrow> (u8 list \<Rightarrow> hash) \<Rightarrow> int \<Rightarrow> u8 list \<Rightarrow> vertex list \<Rightarrow> vertex option" where
  "make_rand_vertex H blake3 now label parents = do {
     r \<leftarrow> with_parents H (empty_vertex now) parents;
     vx \<leftarrow> unwrap r;
     unwrap (in_namespace blake3 vx (Namespace label)) }"

definition test_digest :: "u8 list \<Rightarrow> hash" where
  "test_digest label = byte_hash (hd label)"

definition vhash :: "vertex \<Rightarrow> hash" where
  "vhash v =
     (if vx_namespace_id v = default_hash then byte_hash (ucast (vx_height v) * 16) else vx_namespace_id v)"

definition unit_env :: env where
  "unit_env = test_env\<lparr>env_hash := vhash\<rparr>"

definition rand_vertex :: "u8 \<Rightarrow> vertex list \<Rightarrow> vertex option" where
  "rand_vertex n = make_rand_vertex vhash test_digest (uint n) [n]"

definition gen :: vertex where
  "gen = empty_vertex 0"

definition default_dag :: "dag option" where
  "default_dag = do { r \<leftarrow> dag_new unit_env default_dag_config [gen]; unwrap r }"

lemma unit_env_ok: "env_ok unit_env"
  using test_env_ok by (simp add: env_ok_def unit_env_def)

definition h6 :: hash where "h6 = byte_hash 6"
definition h7 :: hash where "h7 = byte_hash 7"
definition h8 :: hash where "h8 = byte_hash 8"

lemma test_hashes_less:
  "h0 < h6" "h0 < h7" "h0 < h8" "h1 < h6" "h1 < h7" "h1 < h8" "h2 < h6" "h2 < h7" "h2 < h8"
  "h3 < h6" "h3 < h7" "h3 < h8" "h4 < h6" "h4 < h7" "h4 < h8" "h5 < h6" "h5 < h7" "h5 < h8"
  "h6 < h7" "h6 < h8" "h7 < h8"
  by (simp_all add: h0_def h1_def h2_def h3_def h4_def h5_def h6_def h7_def h8_def)

lemma fset_eq_eval:
  "finsert a A = finsert b B \<longleftrightarrow> finsert a A |\<subseteq>| finsert b B \<and> finsert b B |\<subseteq>| finsert a A"
  by auto

lemma labelled_hash:
  "h0 < byte_hash n \<longleftrightarrow> 0 < n" "h1 < byte_hash n \<longleftrightarrow> 1 < n" "h2 < byte_hash n \<longleftrightarrow> 2 < n" "h3 < byte_hash n \<longleftrightarrow> 3 < n"
  "h4 < byte_hash n \<longleftrightarrow> 4 < n" "h5 < byte_hash n \<longleftrightarrow> 5 < n" "h6 < byte_hash n \<longleftrightarrow> 6 < n" "h7 < byte_hash n \<longleftrightarrow> 7 < n" "h8 < byte_hash n \<longleftrightarrow> 8 < n"
  "byte_hash n < h0 \<longleftrightarrow> n < 0" "byte_hash n < h1 \<longleftrightarrow> n < 1" "byte_hash n < h2 \<longleftrightarrow> n < 2" "byte_hash n < h3 \<longleftrightarrow> n < 3"
  "byte_hash n < h4 \<longleftrightarrow> n < 4" "byte_hash n < h5 \<longleftrightarrow> n < 5" "byte_hash n < h6 \<longleftrightarrow> n < 6" "byte_hash n < h7 \<longleftrightarrow> n < 7" "byte_hash n < h8 \<longleftrightarrow> n < 8"
  "h0 = byte_hash n \<longleftrightarrow> n = 0" "h1 = byte_hash n \<longleftrightarrow> n = 1" "h2 = byte_hash n \<longleftrightarrow> n = 2" "h3 = byte_hash n \<longleftrightarrow> n = 3"
  "h4 = byte_hash n \<longleftrightarrow> n = 4" "h5 = byte_hash n \<longleftrightarrow> n = 5" "h6 = byte_hash n \<longleftrightarrow> n = 6" "h7 = byte_hash n \<longleftrightarrow> n = 7" "h8 = byte_hash n \<longleftrightarrow> n = 8"
  "byte_hash n = h0 \<longleftrightarrow> n = 0" "byte_hash n = h1 \<longleftrightarrow> n = 1" "byte_hash n = h2 \<longleftrightarrow> n = 2" "byte_hash n = h3 \<longleftrightarrow> n = 3"
  "byte_hash n = h4 \<longleftrightarrow> n = 4" "byte_hash n = h5 \<longleftrightarrow> n = 5" "byte_hash n = h6 \<longleftrightarrow> n = 6" "byte_hash n = h7 \<longleftrightarrow> n = 7" "byte_hash n = h8 \<longleftrightarrow> n = 8"
  by (auto simp: h0_def h1_def h2_def h3_def h4_def h5_def h6_def h7_def h8_def)

lemmas hash_fold = h0_def[symmetric] h1_def[symmetric] h2_def[symmetric] h3_def[symmetric] h4_def[symmetric]
  h5_def[symmetric] h6_def[symmetric] h7_def[symmetric] h8_def[symmetric]

lemmas test_hash_simps = test_hashes_less test_hashes_less[THEN less_imp_neq]
  test_hashes_less[THEN less_imp_neq, symmetric] test_hashes_less[THEN less_not_sym]

lemmas test_eval = labelled_hash fset_eq_eval test_hash_simps default_hash_h0 run_eval rand_vertex_def make_rand_vertex_def
  test_digest_def vhash_def unit_env_def hash_fold with_parents_def in_namespace_def gen_def empty_vertex_def
  default_dag_def default_dag_config_def DFLT_ACCEPTANCE_THRESHOLD_def
  DFLT_SAFE_EARLY_COMMIT_THRESHOLD_def then_unwrap_def get_frontier_def strongly_preferred_def

end
