(* ===== verification/Dag_Tests.thy ===== *)
theory Dag_Tests
  imports Test_Support
begin

text \<open>
  The unit tests of \<open>src/consensus/dag.rs\<close>, run on the model: each passes. Where a test
  writes to a field of the graph, so does its model.
\<close>

section \<open>Creation\<close>

definition test_new_dag :: "unit option" where
  "test_new_dag = do {
     v0 \<leftarrow> rand_vertex 1 [gen];
     v1 \<leftarrow> rand_vertex 2 [gen];
     v2 \<leftarrow> rand_vertex 3 [gen];
     v3 \<leftarrow> rand_vertex 4 [v1, v2];
     v4 \<leftarrow> rand_vertex 5 [v3];
     r \<leftarrow> dag_new unit_env
       (default_dag_config\<lparr>cfg_thresh_safe_early_commit := 5, cfg_thresh_accepted := 4\<rparr>) [gen];
     e \<leftarrow> unwrap_err r;
     assert_that (e = BadCfgThreshold);
     d \<leftarrow> default_dag;
     assert_that (fmdom (dag_pending_query d) = {||});
     q \<leftarrow> query unit_env d (vhash gen);
     assert_that (q = Inr (True, True));
     r \<leftarrow> dag_new unit_env (default_dag_config\<lparr>cfg_genesis := vhash gen\<rparr>) [gen, v0, v1, v2, v3];
     d \<leftarrow> unwrap r;
     assert_that (fmdom (dag_pending_query d) = {||});
     qs \<leftarrow> run_map (\<lambda>v. query unit_env d (vhash v)) [gen, v0, v1, v2, v3];
     assert_that (list_all (\<lambda>q. q = Inr (True, True)) qs);
     q \<leftarrow> query unit_env d (vhash v4);
     assert_that (q = Inl NotFound);
     (d, _) \<leftarrow> then_unwrap (try_insert unit_env v4 d);
     Some () }"

lemma new_dag_passes: "test_new_dag = Some ()"
  by (simp add: test_new_dag_def test_eval del: fmap_of_list_simps fmupd_lookup cong: eval_cong)

section \<open>Ancestors\<close>

text \<open>Sorting a prefix whose order depends on the iteration order of the maps.\<close>

definition sort_prefix :: "nat \<Rightarrow> 'a :: linorder list \<Rightarrow> 'a list" where
  "sort_prefix n v = sort (take n v) @ drop n v"

definition set_decision :: "constraint \<Rightarrow> bool option \<Rightarrow> dag \<Rightarrow> dag option" where
  "set_decision c b = update_state c (\<lambda>cs.
     case b of
       Some decision \<Rightarrow> cs\<lparr>cs_decision := fmupd c decision (cs_decision cs)\<rparr>
     | None \<Rightarrow> cs\<lparr>cs_decision := fmdrop c (cs_decision cs)\<rparr>)"

definition test_get_active_ancestors :: "unit option" where
  "test_get_active_ancestors = do {
     v00 \<leftarrow> rand_vertex 1 [gen];
     v01 \<leftarrow> rand_vertex 2 [gen];
     v02 \<leftarrow> rand_vertex 3 [gen];
     v10 \<leftarrow> rand_vertex 4 [v00, v01];
     v20 \<leftarrow> rand_vertex 5 [v10];
     v30 \<leftarrow> rand_vertex 6 [v20];
     d \<leftarrow> default_dag;
     (d, _) \<leftarrow> then_unwrap (try_insert unit_env v00 d);
     (d, _) \<leftarrow> then_unwrap (try_insert unit_env v01 d);
     (d, _) \<leftarrow> then_unwrap (try_insert unit_env v02 d);
     (d, _) \<leftarrow> then_unwrap (try_insert unit_env v10 d);
     (d, _) \<leftarrow> then_unwrap (try_insert unit_env v20 d);
     let expected = map vhash [v00, v01, v10, v20];
     r \<leftarrow> get_active_ancestors unit_env d v30;
     actual \<leftarrow> unwrap r;
     assert_that (sort_prefix 2 actual = sort_prefix 2 expected);
     (d, _) \<leftarrow> then_unwrap (try_insert unit_env v30 d);
     r \<leftarrow> get_active_ancestors unit_env d v30;
     actual \<leftarrow> unwrap r;
     assert_that (sort_prefix 2 actual = sort_prefix 2 expected);
     let c_v10v10 = Constraint (vhash v10) (vhash v10);
     d \<leftarrow> set_decision c_v10v10 (Some False) d;
     r \<leftarrow> get_active_ancestors unit_env d v30;
     assert_that (r = Inl RejectedAncestor);
     d \<leftarrow> set_decision c_v10v10 (Some True) d;
     r \<leftarrow> get_active_ancestors unit_env d v30;
     actual \<leftarrow> unwrap r;
     assert_that (actual = [vhash v20]) }"

definition test_get_active_ancestor_constraints :: "unit option" where
  "test_get_active_ancestor_constraints = do {
     v00 \<leftarrow> rand_vertex 1 [gen];
     v01 \<leftarrow> rand_vertex 2 [gen];
     v10 \<leftarrow> rand_vertex 3 [v00, v01];
     v20 \<leftarrow> rand_vertex 4 [v10];
     d \<leftarrow> default_dag;
     (d, _) \<leftarrow> then_unwrap (try_insert unit_env v00 d);
     (d, _) \<leftarrow> then_unwrap (try_insert unit_env v01 d);
     let c_v00v00 = Constraint (vhash v00) (vhash v00);
     let c_v01v01 = Constraint (vhash v01) (vhash v01);
     let c_v00v01 = Constraint (vhash v00) (vhash v01);
     let c_v10v10 = Constraint (vhash v10) (vhash v10);
     r \<leftarrow> get_active_ancestor_constraints unit_env d v20;
     assert_that (r = Inl NotFound);
     (d, _) \<leftarrow> then_unwrap (try_insert unit_env v10 d);
     let expected = [c_v00v00, c_v01v01, c_v00v01, c_v10v10];
     r \<leftarrow> get_active_ancestor_constraints unit_env d v20;
     actual \<leftarrow> unwrap r;
     assert_that (sort_prefix 3 actual = sort_prefix 3 expected);
     d \<leftarrow> set_decision c_v10v10 (Some True) d;
     r \<leftarrow> get_active_ancestor_constraints unit_env d v20;
     actual \<leftarrow> unwrap r;
     assert_that (actual = []);
     d \<leftarrow> set_decision c_v10v10 (Some False) d;
     r \<leftarrow> get_active_ancestor_constraints unit_env d v20;
     assert_that (r = Inl RejectedAncestor);
     d \<leftarrow> set_decision c_v10v10 None d;
     v02 \<leftarrow> rand_vertex 5 [gen];
     v21 \<leftarrow> rand_vertex 6 [v20, v02];
     (d, _) \<leftarrow> then_unwrap (try_insert unit_env v02 d);
     (d, _) \<leftarrow> then_unwrap (try_insert unit_env v20 d);
     (d, _) \<leftarrow> then_unwrap (try_insert unit_env v21 d);
     r \<leftarrow> get_active_ancestor_constraints unit_env d v02;
     actual \<leftarrow> unwrap r;
     assert_that (actual = []) }"

lemma get_active_ancestors_passes: "test_get_active_ancestors = Some ()"
  by (simp add: test_get_active_ancestors_def sort_prefix_def set_decision_def test_eval
      del: fmap_of_list_simps fmupd_lookup cong: eval_cong)

lemma get_active_ancestor_constraints_passes: "test_get_active_ancestor_constraints = Some ()"
  by (simp add: test_get_active_ancestor_constraints_def sort_prefix_def set_decision_def test_eval
      del: fmap_of_list_simps fmupd_lookup cong: eval_cong)

section \<open>Checks\<close>

definition remember :: "vertex \<Rightarrow> dag \<Rightarrow> dag" where
  "remember v d = d\<lparr>dag_vertex := fmupd (vhash v) v (dag_vertex d)\<rparr>"

definition test_check_vertex :: "unit option" where
  "test_check_vertex = do {
     v00 \<leftarrow> rand_vertex 1 [gen];
     v01 \<leftarrow> rand_vertex 2 [gen];
     v02 \<leftarrow> rand_vertex 3 [gen];
     v10 \<leftarrow> rand_vertex 4 [v01, v02];
     x10 \<leftarrow> rand_vertex 5 [v02, v01];
     v20 \<leftarrow> rand_vertex 6 [v00, v10];
     b20 \<leftarrow> rand_vertex 7 [v01, v10];
     d \<leftarrow> default_dag;
     d \<leftarrow> insert_vertex unit_env v00 d;
     r \<leftarrow> check_vertex unit_env d v00;
     assert_that (r = Inl AlreadyInserted);
     r \<leftarrow> check_vertex unit_env d v10;
     assert_that (r = Inl (MissingParents [vhash v01, vhash v02]));
     let d = remember v01 d;
     r \<leftarrow> check_vertex unit_env d v10;
     assert_that (r = Inl (MissingParents [vhash v02]));
     let d = remember v02 d;
     r \<leftarrow> check_vertex unit_env d v10;
     assert_that (r = Inl (WaitingOnParents [vhash v01, vhash v02]));
     d \<leftarrow> insert_vertex unit_env v01 d;
     r \<leftarrow> check_vertex unit_env d v10;
     assert_that (r = Inl (WaitingOnParents [vhash v02]));
     d \<leftarrow> insert_vertex unit_env v02 d;
     r \<leftarrow> check_vertex unit_env d v10;
     assert_that (r = Inr ());
     d \<leftarrow> insert_vertex unit_env v10 d;
     r \<leftarrow> check_vertex unit_env d v20;
     assert_that (r = Inr ());
     r \<leftarrow> check_vertex unit_env d b20;
     assert_that (r = Inl SelfReferentialParent);
     r \<leftarrow> with_parents vhash (empty_vertex 8) [v10];
     x20 \<leftarrow> unwrap r;
     r \<leftarrow> check_vertex unit_env d (x20\<lparr>vx_height := 2\<rparr>);
     assert_that (r = Inl (BadHeight 3 2));
     d \<leftarrow> insert_vertex unit_env x10 d;
     y20 \<leftarrow> rand_vertex 8 [v10, x10];
     r \<leftarrow> check_vertex unit_env d y20;
     assert_that (r = Inl ConflictingAncestors);
     v20' \<leftarrow> rand_vertex 9 [v00, v10];
     r \<leftarrow> check_vertex unit_env d v20';
     assert_that (r = Inr ()) }"

lemma check_vertex_passes: "test_check_vertex = Some ()"
  by (simp add: test_check_vertex_def remember_def test_eval
      del: fmap_of_list_simps fmupd_lookup cong: eval_cong)

section \<open>Children and waiting vertices\<close>

definition set_children :: "hash \<Rightarrow> hash fset \<Rightarrow> dag \<Rightarrow> dag" where
  "set_children h cs d = d\<lparr>dag_children := fmupd h cs (dag_children d)\<rparr>"

text \<open>\<open>dag.children[h].len()\<close>, which panics without an entry.\<close>

definition children_count :: "dag \<Rightarrow> vertex \<Rightarrow> nat option" where
  "children_count d v = map_option fcard (fmlookup (dag_children d) (vhash v))"

definition test_map_child :: "unit option" where
  "test_map_child = do {
     v0 \<leftarrow> rand_vertex 1 [gen];
     v1 \<leftarrow> rand_vertex 2 [gen];
     v2 \<leftarrow> rand_vertex 3 [v0, v1];
     d \<leftarrow> default_dag;
     let d = set_children (vhash v2) {||} (set_children (vhash v1) {||} (set_children (vhash v0) {||} d));
     ns \<leftarrow> run_map (children_count d) [gen, v0, v1, v2];
     assert_that (ns = [0, 0, 0, 0]);
     let d = map_child (vhash v0) (vx_parents v0) d;
     ns \<leftarrow> run_map (children_count d) [gen, v0, v1, v2];
     assert_that (ns = [1, 0, 0, 0]);
     let d = map_child (vhash v1) (vx_parents v1) d;
     ns \<leftarrow> run_map (children_count d) [gen, v0, v1, v2];
     assert_that (ns = [2, 0, 0, 0]);
     let d = map_child (vhash v2) (vx_parents v2) d;
     ns \<leftarrow> run_map (children_count d) [gen, v0, v1, v2];
     assert_that (ns = [2, 1, 1, 0]) }"

lemma map_child_passes: "test_map_child = Some ()"
  by (simp add: test_map_child_def set_children_def children_count_def test_eval
      del: fmap_of_list_simps fmupd_lookup cong: eval_cong)

definition test_retry_pending :: "unit option" where
  "test_retry_pending = do {
     v0 \<leftarrow> rand_vertex 1 [gen];
     v1 \<leftarrow> rand_vertex 2 [gen];
     v2 \<leftarrow> rand_vertex 3 [v0, v1];
     v3 \<leftarrow> rand_vertex 4 [v2];
     d \<leftarrow> default_dag;
     (d, _) \<leftarrow> then_unwrap (try_insert unit_env v0 d);
     (d, r) \<leftarrow> try_insert unit_env v2 d;
     assert_that (r = Inl (MissingParents [vhash v1]));
     (d, r) \<leftarrow> try_insert unit_env v3 d;
     assert_that (r = Inl (WaitingOnParents [vhash v2]));
     (d, waiting) \<leftarrow> then_unwrap (try_insert unit_env v1 d);
     (d, successes) \<leftarrow> then_unwrap (retry_pending unit_env (env_hashes unit_env waiting) d);
     assert_that (vhash v2 |\<in>| successes);
     assert_that (vhash v3 |\<in>| successes);
     frontier \<leftarrow> get_frontier unit_env d;
     assert_that (frontier = [v3]) }"

lemma retry_pending_passes: "test_retry_pending = Some ()"
  by (simp add: test_retry_pending_def retry_pending_def retry_fuel_def ffilter_eval test_eval
      del: fmap_of_list_simps fmupd_lookup cong: eval_cong)

definition test_try_insert :: "unit option" where
  "test_try_insert = do {
     v0 \<leftarrow> rand_vertex 1 [gen];
     v1 \<leftarrow> rand_vertex 2 [gen];
     v2 \<leftarrow> rand_vertex 3 [v0, v1];
     x2 \<leftarrow> rand_vertex 4 [v1, v0];
     v3 \<leftarrow> rand_vertex 5 [v2];
     b3 \<leftarrow> rand_vertex 6 [v2, x2];
     d \<leftarrow> default_dag;
     (d, r) \<leftarrow> try_insert unit_env v2 d;
     assert_that (r = Inl (MissingParents [vhash v0, vhash v1]));
     (d, waiting) \<leftarrow> then_unwrap (try_insert unit_env v0 d);
     assert_that (waiting = {|vhash v2|});
     frontier \<leftarrow> get_frontier unit_env d;
     assert_that (frontier = [v0]);
     r \<leftarrow> is_preferred d (vhash v0);
     assert_that (r = Inr True);
     (d, r) \<leftarrow> try_insert unit_env v2 d;
     assert_that (r = Inl (MissingParents [vhash v1]));
     (d, r) \<leftarrow> try_insert unit_env x2 d;
     assert_that (r = Inl (MissingParents [vhash v1]));
     frontier \<leftarrow> get_frontier unit_env d;
     assert_that (frontier = [v0]);
     (d, waiting) \<leftarrow> then_unwrap (try_insert unit_env v1 d);
     assert_that (waiting = {|vhash v2, vhash x2|});
     frontier \<leftarrow> get_frontier unit_env d;
     assert_that (frontier = [v0, v1]);
     r \<leftarrow> is_preferred d (vhash v1);
     assert_that (r = Inr True);
     (d, r) \<leftarrow> try_insert unit_env v3 d;
     assert_that (r = Inl (WaitingOnParents [vhash v2]));
     frontier \<leftarrow> get_frontier unit_env d;
     assert_that (frontier = [v0, v1]);
     (d, waiting) \<leftarrow> then_unwrap (try_insert unit_env v2 d);
     assert_that (waiting = {|vhash v3|});
     frontier \<leftarrow> get_frontier unit_env d;
     assert_that (frontier = [v2]);
     r \<leftarrow> is_preferred d (vhash v2);
     assert_that (r = Inr True);
     (d, waiting) \<leftarrow> then_unwrap (try_insert unit_env v3 d);
     assert_that (waiting = {||});
     frontier \<leftarrow> get_frontier unit_env d;
     assert_that (frontier = [v3]);
     r \<leftarrow> is_preferred d (vhash v3);
     assert_that (r = Inr True);
     (d, waiting) \<leftarrow> then_unwrap (try_insert unit_env x2 d);
     assert_that (waiting = {||});
     frontier \<leftarrow> get_frontier unit_env d;
     assert_that (frontier = [v3]);
     r \<leftarrow> is_preferred d (vhash x2);
     assert_that (r = Inr False);
     (d, r) \<leftarrow> try_insert unit_env b3 d;
     assert_that (r = Inl ConflictingAncestors) }"

lemma try_insert_passes: "test_try_insert = Some ()"
  by (simp add: test_try_insert_def ffilter_eval is_preferred_def test_eval
      del: fmap_of_list_simps fmupd_lookup cong: eval_cong)

section \<open>Recorded results\<close>

definition chit_entry :: "dag \<Rightarrow> vertex \<Rightarrow> bool option" where
  "chit_entry d v = do { cs \<leftarrow> state_of d (unity (vhash v)); fmlookup (cs_chit cs) (unity (vhash v)) }"

definition check_chits :: "dag \<Rightarrow> (vertex \<times> bool option) list \<Rightarrow> unit option" where
  "check_chits d pairs = assert_that (list_all (\<lambda>(v, expected). chit_entry d v = expected) pairs)"

definition test_record_query_result :: "unit option" where
  "test_record_query_result = do {
     v0 \<leftarrow> rand_vertex 1 [gen];
     v1 \<leftarrow> rand_vertex 2 [gen];
     v2 \<leftarrow> rand_vertex 3 [v0, v1];
     v3 \<leftarrow> rand_vertex 4 [v2];
     d \<leftarrow> default_dag;
     (d, _) \<leftarrow> then_unwrap (try_insert unit_env v0 d);
     (d, _) \<leftarrow> then_unwrap (try_insert unit_env v1 d);
     (d, _) \<leftarrow> then_unwrap (record_query_result unit_env (vhash v0) True d);
     (d, _) \<leftarrow> then_unwrap (record_query_result unit_env (vhash v1) False d);
     check_chits d [(v0, Some True), (v1, Some False), (v2, None), (v3, None)];
     (d, r) \<leftarrow> record_query_result unit_env (vhash v0) True d;
     assert_that (r = Inl AlreadyRecorded);
     (d, r) \<leftarrow> record_query_result unit_env (vhash v3) True d;
     assert_that (r = Inl NotFound);
     check_chits d [(v0, Some True), (v1, Some False), (v2, None), (v3, None)];
     (d, r) \<leftarrow> try_insert unit_env v3 d;
     _ \<leftarrow> unwrap_err r;
     (d, r) \<leftarrow> record_query_result unit_env (vhash v3) True d;
     assert_that (r = Inl WaitingOnInsert);
     check_chits d [(v0, Some True), (v1, Some False), (v2, None), (v3, None)];
     (d, _) \<leftarrow> then_unwrap (try_insert unit_env v2 d);
     (d, r) \<leftarrow> record_query_result unit_env (vhash v3) True d;
     assert_that (r = Inl WaitingOnInsert);
     check_chits d [(v0, Some True), (v1, Some False), (v2, Some False), (v3, None)];
     (d, _) \<leftarrow> then_unwrap (try_insert unit_env v3 d);
     (d, _) \<leftarrow> then_unwrap (record_query_result unit_env (vhash v3) True d);
     check_chits d [(v0, Some True), (v1, Some False), (v2, Some False), (v3, Some True)];
     (d, _) \<leftarrow> then_unwrap (record_query_result unit_env (vhash v2) True d);
     check_chits d [(v0, Some True), (v1, Some False), (v2, Some True), (v3, Some True)] }"

lemma record_query_result_passes: "test_record_query_result = Some ()"
  by (simp add: test_record_query_result_def check_chits_def chit_entry_def test_eval
      del: fmap_of_list_simps fmupd_lookup cong: eval_cong)

section \<open>Preference and queries\<close>

definition test_is_preferred :: "unit option" where
  "test_is_preferred = do {
     v0 \<leftarrow> rand_vertex 1 [gen];
     v1 \<leftarrow> rand_vertex 2 [gen];
     v2 \<leftarrow> rand_vertex 3 [v0, v1];
     x2 \<leftarrow> rand_vertex 4 [v1, v0];
     d \<leftarrow> default_dag;
     r \<leftarrow> is_preferred d (vhash v2);
     assert_that (r = Inl NotFound);
     (d, _) \<leftarrow> try_insert unit_env v2 d;
     r \<leftarrow> is_preferred d (vhash v2);
     assert_that (r = Inl WaitingOnInsert);
     d \<leftarrow> insert_vertex unit_env v0 d;
     d \<leftarrow> insert_vertex unit_env v1 d;
     d \<leftarrow> insert_vertex unit_env v2 d;
     r \<leftarrow> is_preferred d (vhash v2);
     assert_that (r = Inr True);
     d \<leftarrow> insert_vertex unit_env x2 d;
     r \<leftarrow> is_preferred d (vhash x2);
     assert_that (r = Inr False) }"

lemma is_preferred_passes: "test_is_preferred = Some ()"
  by (simp add: test_is_preferred_def is_preferred_def test_eval
      del: fmap_of_list_simps fmupd_lookup cong: eval_cong)

definition set_preferred :: "constraint \<Rightarrow> bool \<Rightarrow> dag \<Rightarrow> dag option" where
  "set_preferred c p d = do {
     k \<leftarrow> (if p then Some c else conflict c);
     update_state c (\<lambda>cs. cs\<lparr>cs_preferred := k\<rparr>) d }"

definition test_query :: "unit option" where
  "test_query = do {
     v00 \<leftarrow> rand_vertex 1 [gen];
     v01 \<leftarrow> rand_vertex 2 [gen];
     v10 \<leftarrow> rand_vertex 3 [v00, v01];
     d \<leftarrow> default_dag;
     (d, _) \<leftarrow> then_unwrap (try_insert unit_env v00 d);
     (d, _) \<leftarrow> then_unwrap (try_insert unit_env v01 d);
     r \<leftarrow> query unit_env d (vhash v10);
     assert_that (r = Inl NotFound);
     (d, _) \<leftarrow> then_unwrap (try_insert unit_env v10 d);
     r \<leftarrow> query unit_env d (vhash gen);
     assert_that (r = Inr (True, True));
     r \<leftarrow> query unit_env d (vhash v00);
     assert_that (r = Inr (True, False));
     r \<leftarrow> query unit_env d (vhash v01);
     assert_that (r = Inr (True, False));
     r \<leftarrow> query unit_env d (vhash v10);
     assert_that (r = Inr (True, False));
     let c_v00v00 = Constraint (vhash v00) (vhash v00);
     let c_v01v01 = Constraint (vhash v01) (vhash v01);
     let c_v00v01 = Constraint (vhash v00) (vhash v01);
     let c_v10v10 = Constraint (vhash v10) (vhash v10);
     d \<leftarrow> set_decision c_v00v00 (Some True) d;
     d \<leftarrow> set_decision c_v01v01 (Some True) d;
     d \<leftarrow> set_decision c_v00v01 (Some True) d;
     d \<leftarrow> set_decision c_v10v10 (Some True) d;
     r \<leftarrow> query unit_env d (vhash v10);
     assert_that (r = Inr (True, True));
     d \<leftarrow> set_decision c_v00v00 (Some False) d;
     d \<leftarrow> set_decision c_v01v01 (Some False) d;
     d \<leftarrow> set_decision c_v00v01 (Some False) d;
     d \<leftarrow> set_decision c_v10v10 (Some True) d;
     r \<leftarrow> query unit_env d (vhash v10);
     assert_that (r = Inr (True, True));
     d \<leftarrow> set_decision c_v00v00 None d;
     d \<leftarrow> set_decision c_v01v01 (Some False) d;
     d \<leftarrow> set_decision c_v00v01 None d;
     d \<leftarrow> set_preferred c_v00v01 False d;
     d \<leftarrow> set_decision c_v10v10 (Some True) d;
     r \<leftarrow> query unit_env d (vhash v10);
     assert_that (r = Inr (True, True));
     d \<leftarrow> set_decision c_v00v00 (Some True) d;
     d \<leftarrow> set_decision c_v01v01 (Some True) d;
     d \<leftarrow> set_decision c_v00v01 (Some True) d;
     d \<leftarrow> set_decision c_v10v10 (Some False) d;
     r \<leftarrow> query unit_env d (vhash v10);
     assert_that (r = Inr (False, True));
     d \<leftarrow> set_decision c_v00v00 (Some True) d;
     d \<leftarrow> set_decision c_v01v01 None d;
     d \<leftarrow> set_decision c_v00v01 (Some True) d;
     d \<leftarrow> set_decision c_v10v10 (Some False) d;
     r \<leftarrow> query unit_env d (vhash v10);
     assert_that (r = Inr (False, True));
     d \<leftarrow> set_decision c_v00v00 (Some True) d;
     d \<leftarrow> set_decision c_v01v01 (Some True) d;
     d \<leftarrow> set_decision c_v00v01 (Some True) d;
     d \<leftarrow> set_preferred c_v00v01 True d;
     d \<leftarrow> set_decision c_v10v10 None d;
     r \<leftarrow> query unit_env d (vhash v10);
     assert_that (r = Inr (True, False));
     d \<leftarrow> set_decision c_v00v00 None d;
     d \<leftarrow> set_decision c_v01v01 None d;
     d \<leftarrow> set_decision c_v00v01 None d;
     d \<leftarrow> set_preferred c_v00v01 True d;
     d \<leftarrow> set_decision c_v10v10 None d;
     r \<leftarrow> query unit_env d (vhash v10);
     assert_that (r = Inr (True, False));
     d \<leftarrow> set_decision c_v00v00 None d;
     d \<leftarrow> set_decision c_v01v01 None d;
     d \<leftarrow> set_decision c_v00v01 None d;
     d \<leftarrow> set_preferred c_v00v01 False d;
     d \<leftarrow> set_decision c_v10v10 None d;
     r \<leftarrow> query unit_env d (vhash v10);
     assert_that (r = Inr (False, False)) }"

lemma query_passes: "test_query = Some ()"
  by (simp add: test_query_def set_preferred_def set_decision_def test_eval
      del: fmap_of_list_simps fmupd_lookup cong: eval_cong)

definition test_get_known_children :: "unit option" where
  "test_get_known_children = do {
     v10 \<leftarrow> rand_vertex 1 [gen];
     v11 \<leftarrow> rand_vertex 2 [gen];
     d \<leftarrow> default_dag;
     assert_that (get_known_children d (vhash gen) = Inr {||});
     assert_that (get_known_children d (vhash v10) = Inl NotFound);
     d \<leftarrow> insert_vertex unit_env v10 d;
     cs \<leftarrow> unwrap (get_known_children d (vhash gen));
     assert_that (env_hashes unit_env cs = [vhash v10]);
     d \<leftarrow> insert_vertex unit_env v11 d;
     cs \<leftarrow> unwrap (get_known_children d (vhash gen));
     assert_that (sort (env_hashes unit_env cs) = sort [vhash v10, vhash v11]) }"

lemma get_known_children_passes: "test_get_known_children = Some ()"
  by (simp add: test_get_known_children_def test_eval
      del: fmap_of_list_simps fmupd_lookup cong: eval_cong)

section \<open>Conflict sets\<close>

definition test_new_conflict_set :: "unit option" where
  "test_new_conflict_set = do {
     v00 \<leftarrow> rand_vertex 1 [gen];
     v01 \<leftarrow> rand_vertex 2 [gen];
     v20 \<leftarrow> rand_vertex 3 [v00, v01];
     let c = Constraint (vhash v20) (vhash v01);
     let cs = conflict_set_new c (fset_of_list (parent_constraints v20));
     assert_that (cs_preferred cs = c);
     assert_that (cs_last cs = c);
     assert_that (fcard (fmdom (cs_chit cs)) = 2);
     assert_that (fmlookup (cs_chit cs) c = Some False);
     opp \<leftarrow> conflict c;
     assert_that (fmlookup (cs_chit cs) opp = Some False);
     assert_that (fcard (fmdom (cs_confidence cs)) = 2);
     assert_that (fmlookup (cs_confidence cs) c = Some 0);
     opp \<leftarrow> conflict c;
     assert_that (fmlookup (cs_confidence cs) opp = Some 0);
     assert_that (fcard (fmdom (cs_count cs)) = 2);
     assert_that (fmlookup (cs_count cs) c = Some 0);
     opp \<leftarrow> conflict c;
     assert_that (fmlookup (cs_count cs) opp = Some 0);
     assert_that (fcard (fmdom (cs_parents cs)) = 2);
     ps \<leftarrow> fmlookup (cs_parents cs) c;
     assert_that (sorted_list_of_fset ps = sort (parent_constraints v20));
     opp \<leftarrow> conflict c;
     assert_that (fmlookup (cs_parents cs) opp = Some {||});
     assert_that (fcard (fmdom (cs_children cs)) = 2);
     assert_that (fmlookup (cs_children cs) c = Some {||});
     opp \<leftarrow> conflict c;
     assert_that (fmlookup (cs_children cs) opp = Some {||});
     assert_that (fmdom (cs_decision cs) = {||});
     let c = Constraint (vhash v20) (vhash v20);
     let cs = conflict_set_new c (fset_of_list (parent_constraints v20));
     assert_that (cs_preferred cs = c);
     assert_that (cs_last cs = c);
     assert_that (fcard (fmdom (cs_chit cs)) = 1);
     assert_that (fmlookup (cs_chit cs) c = Some False);
     assert_that (fcard (fmdom (cs_confidence cs)) = 1);
     assert_that (fmlookup (cs_confidence cs) c = Some 0);
     assert_that (fcard (fmdom (cs_count cs)) = 1);
     assert_that (fmlookup (cs_count cs) c = Some 0);
     assert_that (fcard (fmdom (cs_parents cs)) = 1);
     ps \<leftarrow> fmlookup (cs_parents cs) c;
     assert_that (sorted_list_of_fset ps = sort (parent_constraints v20));
     assert_that (fcard (fmdom (cs_children cs)) = 1);
     assert_that (fmlookup (cs_children cs) c = Some {||});
     assert_that (fmdom (cs_decision cs) = {||}) }"

lemma new_conflict_set_passes: "test_new_conflict_set = Some ()"
  by (simp add: test_new_conflict_set_def test_eval
      del: fmap_of_list_simps fmupd_lookup cong: eval_cong)

end
