(* ===== verification/Vertex_Tests.thy ===== *)
theory Vertex_Tests
  imports Test_Support
begin

text \<open>
  The unit tests of \<open>consensus/vertex.rs\<close>, \<open>consensus/namespace.rs\<close> and
  \<open>wire/mod.rs\<close>, run on the model.
\<close>

section \<open>Vertices\<close>

definition H1 :: hash where
  "H1 = Hash [
    0, 1, 2, 3, 4, 5, 6, 7, 8, 9, 10, 11, 12, 13, 14, 15, 16, 17, 18, 19, 20, 21, 22, 23, 24,
     25, 26, 27, 28, 29, 30, 31]"

definition H2 :: hash where
  "H2 = Hash [
    10, 11, 12, 13, 14, 15, 16, 17, 18, 19, 110, 111, 112, 113, 114, 115, 116, 117, 118, 119,
     120, 121, 122, 123, 124, 125, 126, 127, 128, 129, 130, 131]"

definition H3 :: hash where
  "H3 = Hash [
    11, 11, 12, 13, 14, 15, 16, 17, 18, 19, 110, 111, 112, 113, 114, 115, 116, 117, 118, 119,
     120, 121, 122, 123, 124, 125, 126, 127, 128, 129, 130, 131]"

definition H4 :: hash where
  "H4 = Hash [
    12, 11, 12, 13, 14, 15, 16, 17, 18, 19, 110, 111, 112, 113, 114, 115, 116, 117, 118, 119,
     120, 121, 122, 123, 124, 125, 126, 127, 128, 129, 130, 131]"

lemma dummy_hashes: "H1 \<noteq> H2" "H1 \<noteq> H3" "H1 \<noteq> H4" "H2 \<noteq> H3" "H2 \<noteq> H4" "H3 \<noteq> H4"
  by (simp_all add: H1_def H2_def H3_def H4_def as_slice_inject[symmetric] as_slice_Hash)

lemmas dummy_simps = dummy_hashes dummy_hashes[symmetric]

definition test_empty :: "unit option" where
  "test_empty = do {
     assert_that (vx_version (empty_vertex 1) = VERSION);
     assert_that (vx_parents (empty_vertex 2) = []);
     assert_that (vx_namespace_id (empty_vertex 3) = default_hash);
     assert_that (vx_root (empty_vertex 4) = default_hash) }"

lemma empty_passes: "test_empty = Some ()"
  by (simp add: test_empty_def empty_vertex_def)

definition test_with_parents :: "unit option" where
  "test_with_parents = do {
     let p1 = (empty_vertex 1)\<lparr>vx_height := 0\<rparr>;
     let p2 = (empty_vertex 2)\<lparr>vx_height := 1\<rparr>;
     let p3 = (empty_vertex 3)\<lparr>vx_height := 100\<rparr>;
     r \<leftarrow> with_parents vhash (empty_vertex 4) [];
     assert_that (r = Inl (MissingField ''parents''));
     r \<leftarrow> with_parents vhash (empty_vertex 5) [p1, p2, p2];
     assert_that (r = Inl DuplicateParents);
     r \<leftarrow> with_parents vhash (empty_vertex 6) [p1, p2];
     vx \<leftarrow> unwrap r;
     assert_that (vx_height vx = 2);
     r \<leftarrow> with_parents vhash (empty_vertex 7) [p1, p2, p3];
     vx \<leftarrow> unwrap r;
     assert_that (vx_height vx = 101);
     r \<leftarrow> with_parents vhash (empty_vertex 8) [p3];
     vx \<leftarrow> unwrap r;
     assert_that (vx_height vx = 101);
     r \<leftarrow> with_parents vhash (empty_vertex 9) [p1, p2, p3];
     vx \<leftarrow> unwrap r;
     assert_that (vx_height vx = 101);
     r \<leftarrow> with_parents vhash (empty_vertex 10) [p1, p2, p3];
     vx \<leftarrow> unwrap r;
     assert_that (vx_parents vx = [vhash p1, vhash p2, vhash p3]);
     r \<leftarrow> with_parents vhash (empty_vertex 11) [p3, p1, p2];
     vx \<leftarrow> unwrap r;
     assert_that (vx_parents vx = [vhash p3, vhash p1, vhash p2]) }"

lemma with_parents_passes: "test_with_parents = Some ()"
  by (simp add: test_with_parents_def with_parents_def empty_vertex_def vhash_def max_opt_def Let_def)

text \<open>The identifier of the empty label is a constant of the code, its digest.\<close>

definition NULLSPACE_ID :: hash where
  "NULLSPACE_ID = Hash [
    175, 19, 73, 185, 245, 249, 161, 166, 160, 64, 77, 234, 54, 220, 201, 73, 155, 203, 37, 201,
    173, 193, 18, 183, 204, 154, 147, 202, 228, 31, 50, 98]"

text \<open>The bytes of the label.\<close>

definition helloworld :: "u8 list" where
  "helloworld = [104, 101, 108, 108, 111, 119, 111, 114, 108, 100]"

definition test_in_namespace :: "(u8 list \<Rightarrow> hash) \<Rightarrow> unit option" where
  "test_in_namespace blake3 = do {
     vx \<leftarrow> unwrap (in_namespace blake3 (empty_vertex 1) (Namespace []));
     assert_that (vx_namespace_id vx = NULLSPACE_ID);
     vx \<leftarrow> unwrap (in_namespace blake3 (empty_vertex 2) (Namespace helloworld));
     assert_that (vx_namespace_id vx = namespace_id blake3 (Namespace helloworld)) }"

lemma in_namespace_passes: "blake3 [] = NULLSPACE_ID \<Longrightarrow> test_in_namespace blake3 = Some ()"
  by (simp add: test_in_namespace_def in_namespace_def)

definition test_sanity_checks :: "unit option" where
  "test_sanity_checks = do {
     let vx = default_vertex;
     assert_that (sanity_checks vx = Inl (BadVersion VERSION 0));
     let vx = vx\<lparr>vx_version := VERSION\<rparr>;
     assert_that (sanity_checks vx = Inl (MissingField ''parents''));
     let vx = vx\<lparr>vx_parents := [default_hash, default_hash]\<rparr>;
     assert_that (sanity_checks vx = Inl DuplicateParents);
     let vx = vx\<lparr>vx_parents := [default_hash]\<rparr>;
     r \<leftarrow> with_parents vhash vx [default_vertex];
     vx \<leftarrow> unwrap r;
     assert_that (sanity_checks vx = Inr ()) }"

lemma sanity_checks_passes: "test_sanity_checks = Some ()"
  by (simp add: test_sanity_checks_def default_vertex_def sanity_checks_def VERSION_def with_parents_def
      max_opt_def)

section \<open>Constraints\<close>

text \<open>The items of the iterator; the fuel is more than there are.\<close>

definition iterates :: "hash list \<Rightarrow> constraint list \<Rightarrow> bool" where
  "iterates vs cs \<longleftrightarrow> constraints_collect 12 (constraints_new vs) = Some cs"

definition test_parent_constraints :: "unit option" where
  "test_parent_constraints = do {
     let p1 = (empty_vertex 1)\<lparr>vx_height := 1\<rparr>;
     let p2 = (empty_vertex 2)\<lparr>vx_height := 2\<rparr>;
     let p3 = (empty_vertex 3)\<lparr>vx_height := 3\<rparr>;
     r \<leftarrow> with_parents vhash (empty_vertex 4) [p1];
     vx \<leftarrow> unwrap r;
     assert_that (parent_constraints vx = [Constraint (vhash p1) (vhash p1)]);
     r \<leftarrow> with_parents vhash (empty_vertex 5) [p1, p2];
     vx \<leftarrow> unwrap r;
     assert_that (parent_constraints vx =
       [Constraint (vhash p1) (vhash p2), Constraint (vhash p2) (vhash p2),
        Constraint (vhash p1) (vhash p1)]);
     r \<leftarrow> with_parents vhash (empty_vertex 6) [p1, p2, p3];
     vx \<leftarrow> unwrap r;
     assert_that (parent_constraints vx =
       [Constraint (vhash p1) (vhash p2), Constraint (vhash p1) (vhash p3),
        Constraint (vhash p2) (vhash p3), Constraint (vhash p3) (vhash p3),
        Constraint (vhash p2) (vhash p2), Constraint (vhash p1) (vhash p1)]) }"

lemma parent_constraints_passes: "test_parent_constraints = Some ()"
  by (simp add: test_parent_constraints_def with_parents_def empty_vertex_def vhash_def max_opt_def
      parent_constraints_def constraints_of_def Let_def)

definition test_constraint_conflict_set_key :: "unit option" where
  "test_constraint_conflict_set_key = do {
     assert_that (conflict_set_key (Constraint H1 H2) = conflict_set_key (Constraint H2 H1));
     assert_that (conflict_set_key (Constraint H3 H4) = conflict_set_key (Constraint H4 H3)) }"

lemma constraint_conflict_set_key_passes: "test_constraint_conflict_set_key = Some ()"
  by (simp add: test_constraint_conflict_set_key_def conflict_set_key_eval)

definition test_constraint_conflict :: "unit option" where
  "test_constraint_conflict = do {
     assert_that (Constraint H1 H2 = Constraint H1 H2);
     assert_that (Constraint H1 H2 \<noteq> Constraint H2 H1);
     assert_that (conflict (Constraint H1 H1) = None);
     assert_that (conflict (Constraint H1 H2) = Some (Constraint H2 H1));
     assert_that (conflict (Constraint H3 H4) = Some (Constraint H4 H3)) }"

lemma constraint_conflict_passes: "test_constraint_conflict = Some ()"
  by (simp add: test_constraint_conflict_def conflict_def is_unity_def dummy_simps)

definition test_unity_constraint :: "unit option" where
  "test_unity_constraint = do {
     assert_that (is_unity (Constraint H1 H1) = True);
     assert_that (is_unity (Constraint H2 H1) = False) }"

lemma unity_constraint_passes: "test_unity_constraint = Some ()"
  by (simp add: test_unity_constraint_def is_unity_def dummy_simps)

definition test_new_constraint_iter :: "unit option" where
  "test_new_constraint_iter = do {
     assert_that (iterates [H1] [Constraint H1 H1]);
     assert_that (iterates [H1, H2] [Constraint H1 H2, Constraint H2 H2, Constraint H1 H1]);
     assert_that (iterates [H3, H2] [Constraint H3 H2, Constraint H2 H2, Constraint H3 H3]);
     assert_that (iterates [H1, H2, H3]
       [Constraint H1 H2, Constraint H1 H3, Constraint H2 H3,
        Constraint H3 H3, Constraint H2 H2, Constraint H1 H1]);
     assert_that (iterates [H1, H2, H3, H4]
       [Constraint H1 H2, Constraint H1 H3, Constraint H1 H4, Constraint H2 H3, Constraint H2 H4,
        Constraint H3 H4, Constraint H4 H4, Constraint H3 H3, Constraint H2 H2, Constraint H1 H1]) }"

lemma new_constraint_iter_passes: "test_new_constraint_iter = Some ()"
  by (simp add: test_new_constraint_iter_def iterates_def constraints_new_def constraints_next_def
      slice_get_def eval_nat_numeral)

section \<open>Namespaces\<close>

definition hello_world :: "u8 list" where
  "hello_world = [72, 101, 108, 108, 111, 44, 32, 87, 111, 114, 108, 100, 33]"

definition hello_world_id :: hash where
  "hello_world_id = Hash [
    40, 138, 134, 167, 159, 32, 163, 214, 220, 205, 202, 119, 19, 190, 174, 209, 120,
    121, 130, 150, 189, 250, 121, 19, 250, 42, 98, 217, 114, 123, 248, 248]"

definition test_namespace_id :: "(u8 list \<Rightarrow> hash) \<Rightarrow> unit option" where
  "test_namespace_id blake3 = do {
     assert_that (namespace_id blake3 (Namespace []) = NULLSPACE_ID);
     assert_that (namespace_id blake3 (Namespace hello_world) = hello_world_id) }"

text \<open>The two digests are facts about the crate \<open>blake3\<close>, and all the test depends on.\<close>

lemma namespace_id_passes_iff:
  "test_namespace_id blake3 = Some () \<longleftrightarrow> blake3 [] = NULLSPACE_ID \<and> blake3 hello_world = hello_world_id"
  by (simp add: test_namespace_id_def namespace_id_def assert_that_def split: bind_splits)

section \<open>Hexadecimal forms of a hash\<close>

text \<open>What the crate \<open>hex\<close> documents of its encoder: two lowercase digits for each byte.\<close>

definition hex_digit :: "u8 \<Rightarrow> char" where
  "hex_digit d = ''0123456789abcdef'' ! unat d"

definition lower_hex :: "u8 list \<Rightarrow> string" where
  "lower_hex bs = concat (map (\<lambda>b. [hex_digit (b div 16), hex_digit (b mod 16)]) bs)"

definition hash_test_cases :: "(u8 list \<times> string \<times> string) list" where
  "hash_test_cases =
    [([0, 0, 0, 0, 0, 0, 0, 0, 0, 0, 0, 0, 0, 0, 0, 0, 0, 0, 0, 0, 0, 0, 0, 0, 0, 0, 0, 0, 0, 0, 0, 0],
      ''0000000000000000000000000000000000000000000000000000000000000000'', ''00000000..''),
     ([128, 0, 0, 0, 0, 0, 0, 0, 0, 0, 0, 0, 0, 0, 0, 0, 0, 0, 0, 0, 0, 0, 0, 0, 0, 0, 0, 0, 0, 0, 0, 0],
      ''8000000000000000000000000000000000000000000000000000000000000000'', ''80000000..''),
     ([0, 0, 0, 0, 0, 0, 0, 0, 0, 0, 0, 0, 0, 0, 0, 0, 0, 0, 0, 0, 0, 0, 0, 0, 0, 0, 0, 0, 0, 0, 0, 1],
      ''0000000000000000000000000000000000000000000000000000000000000001'', ''00000000..''),
     ([255, 255, 255, 255, 255, 255, 255, 255, 255, 255, 255, 255, 255, 255, 255, 255,
       255, 255, 255, 255, 255, 255, 255, 255, 255, 255, 255, 255, 255, 255, 255, 255],
      ''ffffffffffffffffffffffffffffffffffffffffffffffffffffffffffffffff'', ''ffffffff..''),
     ([127, 255, 255, 255, 255, 255, 255, 255, 255, 255, 255, 255, 255, 255, 255, 255,
       255, 255, 255, 255, 255, 255, 255, 255, 255, 255, 255, 255, 255, 255, 255, 255],
      ''7fffffffffffffffffffffffffffffffffffffffffffffffffffffffffffffff'', ''7fffffff..''),
     ([255, 255, 255, 255, 255, 255, 255, 255, 255, 255, 255, 255, 255, 255, 255, 255,
       255, 255, 255, 255, 255, 255, 255, 255, 255, 255, 255, 255, 255, 255, 255, 254],
      ''fffffffffffffffffffffffffffffffffffffffffffffffffffffffffffffffe'', ''ffffffff..'')]"

definition test_corner_cases :: "(u8 list \<Rightarrow> string) \<Rightarrow> unit option" where
  "test_corner_cases hex_encode = do {
     _ \<leftarrow> run_map (\<lambda>(bytes, long_hex, short_hex). do {
       decoded \<leftarrow> with_bytes bytes;
       assert_that (to_hex hex_encode decoded = long_hex);
       assert_that (to_short_hex hex_encode decoded = short_hex) }) hash_test_cases;
     Some () }"

lemma corner_cases_passes: "test_corner_cases lower_hex = Some ()"
  by (simp add: test_corner_cases_def hash_test_cases_def with_bytes_def HASH_LEN_def to_hex_def
      to_short_hex_def as_slice_Hash lower_hex_def hex_digit_def)

end
