(* ===== verification/Node_Tests.thy ===== *)
theory Node_Tests
  imports Dag_Tests Vertex_Tests Consensus_Task P2p_Task
begin

text \<open>
  The unit tests of \<open>consensus/task.rs\<close> and \<open>p2p/broadcast.rs\<close>, run on the model.
\<close>

section \<open>The consensus task\<close>

definition test_new_task :: "unit option" where
  "test_new_task = do {
     r \<leftarrow> consensus_task_new unit_env default_consensus_config;
     _ \<leftarrow> unwrap r;
     r \<leftarrow> consensus_task_new unit_env (default_consensus_config\<lparr>cc_query_count := 10, cc_quorum_size := 11\<rparr>);
     e \<leftarrow> unwrap_err r;
     assert_that (e = BadCfgQuorumCount);
     r \<leftarrow> consensus_task_new unit_env (default_consensus_config\<lparr>cc_dag :=
       default_dag_config\<lparr>cfg_thresh_safe_early_commit := 5, cfg_thresh_accepted := 4\<rparr>\<rparr>);
     e \<leftarrow> unwrap_err r;
     assert_that (e = ConsensusDag BadCfgThreshold) }"

lemmas task_test_eval = consensus_task_new_def consensus_config_check_def default_consensus_config_def
  DFLT_QUERY_COUNT_def DFLT_QUORUM_COUNT_def genesis_vertex_def

lemma new_task_passes: "test_new_task = Some ()"
  by (simp add: test_new_task_def task_test_eval test_eval del: fmap_of_list_simps fmupd_lookup
      cong: eval_cong)

text \<open>
  The three peers are numbers here, and each call has numbers of its own from the random
  generator: those of a call must contain two different ones, below the number of validators.
\<close>

definition test_get_validators_for_query :: "nat list \<Rightarrow> nat list \<Rightarrow> unit option" where
  "test_get_validators_for_query draws2 draws3 = do {
     r \<leftarrow> consensus_task_new unit_env (default_consensus_config\<lparr>cc_query_count := 2, cc_quorum_size := 1\<rparr>);
     t \<leftarrow> unwrap r;
     r \<leftarrow> get_validators_for_query [] t;
     assert_that (r = Inl (NeedValidators 2 0));
     let t = add_validator 1 t;
     r \<leftarrow> get_validators_for_query [] t;
     assert_that (r = Inl (NeedValidators 2 1));
     let t = add_validator 2 t;
     r \<leftarrow> get_validators_for_query draws2 t;
     _ \<leftarrow> unwrap r;
     let t = add_validator 3 t;
     r \<leftarrow> get_validators_for_query draws3 t;
     _ \<leftarrow> unwrap r;
     Some () }"

lemma validators_chosen_unwrap:
  assumes "length (ct_validators t) \<ge> cc_query_count (ct_config t)" and "distinct (ct_validators t)"
    and "fair_draws (length (ct_validators t)) draws"
  shows "\<exists>S. get_validators_for_query draws t = Some (Inr S)"
  using validators_for_query_walk[of t draws, OF assms(2,3)] assms(1)
  by (auto simp: validators_chosen_def split: if_splits)

lemma get_validators_for_query_passes:
  assumes "fair_draws 2 draws2" and "fair_draws 3 draws3"
  shows "test_get_validators_for_query draws2 draws3 = Some ()"
proof -
  let ?cfg = "default_consensus_config\<lparr>cc_query_count := 2, cc_quorum_size := 1\<rparr>"
  obtain t where t: "consensus_task_new unit_env ?cfg = Some (Inr t)" "ct_config t = ?cfg" "ct_validators t = []"
    by (simp add: task_test_eval test_eval del: fmap_of_list_simps fmupd_lookup cong: eval_cong)
  let ?t2 = "t\<lparr>ct_validators := [1, 2]\<rparr>" and ?t3 = "t\<lparr>ct_validators := [1, 2, 3]\<rparr>"
  obtain S2 S3 where "get_validators_for_query draws2 ?t2 = Some (Inr S2)"
    "get_validators_for_query draws3 ?t3 = Some (Inr S3)"
    using validators_chosen_unwrap[of ?t2 draws2] validators_chosen_unwrap[of ?t3 draws3] assms t
    by (auto simp: numeral_eq_Suc)
  then show ?thesis using t
    by (simp add: test_get_validators_for_query_def add_validator_def)
      (simp add: get_validators_for_query_def)
qed

section \<open>Broadcasts\<close>

text \<open>The bytes of the identifier and of the topic, which the reports only carry along.\<close>

definition test_broadcast :: broadcast where
  "test_broadcast =
     \<lparr>bc_id = [104, 101, 108, 108, 111], bc_src = 0,
      bc_topic = [116, 101, 115, 116, 47, 116, 111, 112, 105, 99],
      bc_data = BroadcastVertex default_vertex\<rparr>"

definition test_message_accept :: "unit option" where
  "test_message_accept = assert_that (vr_acceptance (accept_message test_broadcast) = Accept)"

definition test_message_ignore :: "unit option" where
  "test_message_ignore = assert_that (vr_acceptance (ignore_message test_broadcast) = Ignore)"

definition test_message_reject :: "unit option" where
  "test_message_reject = assert_that (vr_acceptance (reject_message test_broadcast) = Reject)"

lemma broadcast_passes:
  "test_message_accept = Some ()" "test_message_ignore = Some ()" "test_message_reject = Some ()"
  by (simp_all add: test_message_accept_def accept_message_def test_message_ignore_def
      ignore_message_def test_message_reject_def reject_message_def)

end
