(* ===== verification/Spec2Isabelle.thy ===== *)
theory Spec2Isabelle
  imports Consensus_Props Consensus_System Vertex_Props Wire_Props Task_Props Pollster Fetcher P2p_Props
    Node_Props Two_Nodes Daemon_Props Node_Tests Taurus_Util
begin

text \<open>
  A model of libtaurus, an implementation of Avalanche consensus on a graph of vertices, as it is
  written in Rust under \<open>src/src\<close>.

  \<^bold>\<open>The program.\<close> A node runs a few tasks that send each other messages. The consensus task
  (\<open>consensus/task.rs\<close>) owns the graph (\<open>consensus/dag.rs\<close>), to which vertices are
  submitted. A vertex commits to an ordering of its parents, one constraint for each pair
  (\<open>consensus/vertex.rs\<close>); a constraint and its opposite share a conflict set. For every
  vertex of the frontier a pollster (\<open>consensus/pollster.rs\<close>) asks a sample of the validators
  for their preference and records the result in the graph, which counts votes and accepts or
  rejects constraints. The peer-to-peer task (\<open>p2p/task.rs\<close>) owns the network stack and
  converts messages (\<open>wire/mod.rs\<close> and the implementations of its trait). The handler
  (\<open>app/taurusd/handler.rs\<close>) passes on what arrives, a fetcher (\<open>fetcher/task.rs\<close>)
  asks a peer for missing ancestors, the RPC methods (\<open>rpc\<close>) and the sequencer
  (\<open>sequencer/mod.rs\<close>) submit new vertices. The daemon (\<open>app/taurusd\<close>) reads its
  command line, its directories and its key and starts these tasks; the sequencer is a program of its
  own (\<open>app/taurseq.rs\<close>).

  \<^bold>\<open>Conventions.\<close> A Rust \<open>Result\<close> is a sum, the error on the left. Where a computation
  may panic its model returns an option, and \<open>None\<close> is the panic (\<open>unwrap\<close>,
  an index out of range, \<open>todo!\<close>, a failed assertion). Structs are records, enums datatypes,
  \<open>HashMap\<close> and \<open>HashSet\<close> finite maps and sets. The widths of \<open>u8\<close> to
  \<open>u64\<close> are kept, and arithmetic wraps as in a release build; \<open>usize\<close> counters are
  natural numbers. A method that changes its object returns the new state. An effect on another task
  or on the outside is an element of a list of effects.

  \<^bold>\<open>Theories.\<close>
  \<^item> \<open>Taurus_Prelude\<close>: machine types, sequencing of fallible computations and loops, lists and maps.
  \<^item> \<open>Taurus_Hash\<close> (\<open>hash.rs\<close>), \<open>Vertex\<close> (\<open>consensus/vertex.rs\<close>, \<open>namespace.rs\<close>) and
    \<open>Conflict_Set\<close> (\<open>ConflictSet\<close> of \<open>dag.rs\<close>): the data and its constructors, sanity checks,
    constraints, their keys and the iterator over them.
  \<^item> \<open>Dag\<close>: the state and all operations of \<open>DAG\<close>, in the order of the file, under its names.
  \<^item> \<open>Ranked_Walk\<close>: the contract of the code's recursive walks, a locale; \<open>Dag_Inv\<close> and
    \<open>Dag_Graph\<close>: the invariant and the two interpretations, along parents and along children.
  \<^item> \<open>Dag_Ancestry\<close>, \<open>Dag_Insert\<close>, \<open>Dag_Check\<close>, \<open>Dag_Retry\<close>, \<open>Dag_Votes\<close>, \<open>Dag_Record\<close>,
    \<open>Dag_Query\<close>: for each operation a specification, and that the operation returns and meets it.
  \<^item> \<open>Dag_Reach\<close>: the graph as a state machine, its invariant and agreement; \<open>Dag_Progress\<close>: runs
    that support a vertex, and how far its vote has come; \<open>Dag_Support\<close>: the vertices that have
    voted for a constraint; \<open>Dag_Runs\<close>: concrete runs.
  \<^item> \<open>Wire\<close>: the messages, the conversions and the request codec, with the contract of a wire format
    as a locale, interpreted on the five formats.
  \<^item> \<open>Consensus_Task\<close> (\<open>task.rs\<close>, \<open>api.rs\<close>), \<open>Pollster\<close>, \<open>Fetcher\<close>, \<open>P2p_Task\<close> (\<open>p2p/task.rs\<close>,
    \<open>api.rs\<close>, \<open>broadcast.rs\<close>) and \<open>Node\<close> (handler, RPC methods, proposals): one definition per
    handler or step; \<open>Node\<close> states what the clients rely on as the locale of a consensus service,
    interpreted on the consensus task.
  \<^item> \<open>Consensus_System\<close>: the consensus task with the pollsters it starts and the answers they get, as
    one state machine.
  \<^item> \<open>Two_Nodes\<close>: the steps of two nodes composed as the network composes them, for a vertex fetched
    from a peer and for a proposal that spreads by gossip.
  \<^item> \<open>Network_Behaviour\<close> (\<open>p2p/behaviour.rs\<close>, the start of \<open>p2p/task.rs\<close>): how the node builds its
    network stack, over the constructors of \<open>libp2p\<close>.
  \<^item> \<open>Daemon\<close> (\<open>app\<close>, \<open>rpc/task.rs\<close>, \<open>sequencer/mod.rs\<close>): command lines, directories, the key
    file, configurations, and the two programs; \<open>Daemon_Props\<close> has the file system as a locale,
    interpreted on a disk.
  \<^item> \<open>Taurus_Util\<close> (\<open>util/mod.rs\<close>): the formatting of numbers.
  \<^item> \<open>Test_Support\<close>, \<open>Dag_Tests\<close>, \<open>Vertex_Tests\<close> and \<open>Node_Tests\<close>: the unit tests of the program as
    computations on the model, with a lemma for each that it passes.
  \<^item> \<open>Consensus_Props\<close>, \<open>Vertex_Props\<close>, \<open>Wire_Props\<close>, \<open>Task_Props\<close>, \<open>P2p_Props\<close> and \<open>Node_Props\<close>, with the
    ends of \<open>Pollster\<close>, \<open>Fetcher\<close>, \<open>Consensus_System\<close>, \<open>Two_Nodes\<close>, \<open>Network_Behaviour\<close>, \<open>Daemon_Props\<close>
    and \<open>Taurus_Util\<close>: the properties, each with a witness
    where it has hypotheses.

  \<^bold>\<open>What is shown.\<close> Every reachable graph satisfies an invariant that ties its maps, heights, frontier
  and constraint graph together; no pair of vertices is accepted in both orders; every operation
  returns and does what its specification says, errors included, with one exception: recording the
  result for a vertex with a rejected ancestor crashes, exactly then, in reachable states. As many
  supporting results as the acceptance threshold, with no opposing one, decide a vertex. One vote is
  specified by its effect on every voting variable of every constraint, and the walk to the undecided
  ancestors by the exact set it returns. A vertex that is reported as finally rejected can still be
  accepted by its own result. The consensus task only moves its graph through
  reachable states, so all this holds of it, its crash included. What is written to the wire is read
  back. A poll ends exactly with a quorum, and in the system of task and pollsters whatever is
  accepted has been preferred, vertex by vertex, by quorums of polled validators. The fetcher asks
  for each hash once and for nothing known, and no number of vertices ends it; responses reach the task that asked. The handler's
  verdict on a gossiped vertex is a function of the graph, and the sequencer's proposals pass all
  checks but, in the worst case, one. A vertex a node knows can be fetched from it, through both
  nodes, except for the genesis vertex; a proposal enters the graphs of both of two nodes in step.
  The node is subscribed to the topics it publishes on. The daemon starts, unless the
  path of its data directory is not UTF-8, which crashes it, and accepts the genesis vertex; it keeps
  its key from one start to the next as long as it can read the file, and otherwise replaces it; its
  temporary directory is not the one it logs.

  \<^bold>\<open>Bounds.\<close> The recursive walks over the graph carry fuel \<open>depth_bound\<close>, one more than
  the number of known vertices: each step lowers the height, so that they never run out, which is
  proved. \<open>retry_fuel\<close> bounds the work list of \<open>retry_pending\<close> in the same way: every
  vertex enters the graph once and puts each known vertex on the list at most once. Running out of
  fuel is a crash in the model, so a theorem that an operation returns excludes it. Insertions assume
  room for the heights: fewer than \<open>2 ^ 64\<close> known vertices (\<open>capacity\<close>, \<open>room\<close>).
  Other loops are recursive on their input, or carry a measure (the port search, the scaling of numbers).

  \<^bold>\<open>Parameters.\<close> The hash of a vertex in the graph theories (\<open>Wire\<close> says how it is
  computed), the digest \<open>blake3\<close>, the encoder of \<open>prost\<close> (it is assumed that decoding undoes
  encoding), the encoders of hexadecimal and of JSON, the order in which hash maps iterate (each element
  once), the random draws for the validators (below the number of validators, each in the end), the
  current time, the constructors and the answers of the network stack, what the parser of command lines
  returns (it is assumed to conform to the specification it is given), the calls on the file system (any
  read may fail; one that succeeds returns what was written), and the encoding of keys. Identities of peers, keys and channels are only passed on; numbers stand for them.

  \<^bold>\<open>Not modelled.\<close> The libraries themselves: the protocols of \<open>libp2p\<close>, the JSON RPC server,
  the parser of command lines. Logging and timing output. The channels and the scheduler of the runtime:
  a task's inputs come in any order, and the busy wait for a first listener is taken to be over. The
  module declarations and the build script have no behaviour.
\<close>

end
